(* ===== verification/Mirage_Prelude.thy ===== *)
theory Mirage_Prelude
  imports Main "HOL-Library.Word" "HOL-Library.AList"
begin

text \<open>
  Shared vocabulary of the development: the machine integers and byte strings of the Rust
  sources, results as sums, big-endian encodings, saturating arithmetic, and hash maps as
  association lists, with the lemmas the component theories rely on.

  Conventions.  \<open>u8\<close> to \<open>u64\<close> are words of that width; \<open>usize\<close> values (lengths,
  indices, counts of things held in memory) are \<open>nat\<close>.  A \<open>Result\<close> is a sum whose
  left summand is the error.  An \<open>Instant\<close> is the number of nanoseconds since the
  smallest instant the platform represents, so that \<open>checked_sub\<close> fails exactly on
  underflow; a \<open>Duration\<close> is a number of nanoseconds.
\<close>

section \<open>Types\<close>

type_synonym u8 = "8 word"
type_synonym u16 = "16 word"
type_synonym u32 = "32 word"
type_synonym u64 = "64 word"
type_synonym bytes = "u8 list"
type_synonym instant = nat
type_synonym duration = nat

abbreviation Err :: "'e \<Rightarrow> 'e + 'a" where "Err \<equiv> Inl"
abbreviation Ok :: "'a \<Rightarrow> 'e + 'a" where "Ok \<equiv> Inr"

named_theorems codec_simps \<open>equations and round trips of the wire encodings\<close>
named_theorems hm_simps \<open>the laws of hash maps\<close>

section \<open>Big-endian encodings\<close>

fun be_bytes :: "nat \<Rightarrow> nat \<Rightarrow> bytes" where
  "be_bytes 0 v = []"
| "be_bytes (Suc n) v = be_bytes n (v div 256) @ [word_of_nat v]"

definition be_nat :: "bytes \<Rightarrow> nat" where
  "be_nat bs = foldl (\<lambda>a b. a * 256 + unat b) 0 bs"

lemma be_nat_Nil [simp]: "be_nat [] = 0"
  by (simp add: be_nat_def)

lemma be_nat_snoc [simp]: "be_nat (bs @ [b]) = be_nat bs * 256 + unat b"
  by (simp add: be_nat_def)

lemma length_be_bytes [simp]: "length (be_bytes n v) = n"
  by (induction n arbitrary: v) auto

lemma unat_lt_256 [simp]: "unat (b :: u8) < 256"
  using unsigned_less [of b] by simp

lemma be_nat_bound: "be_nat bs < 256 ^ length bs"
proof (induction bs rule: rev_induct)
  case (snoc b bs)
  have "be_nat bs * 256 + unat b < (be_nat bs + 1) * 256"
    using unat_lt_256 [of b] by simp
  also have "\<dots> \<le> 256 ^ length bs * 256"
    using snoc by (intro mult_right_mono) auto
  finally show ?case by (simp add: mult.commute)
qed simp

lemma be_nat_be_bytes: "be_nat (be_bytes n v) = v mod 256 ^ n"
proof (induction n arbitrary: v)
  case (Suc n)
  have "be_nat (be_bytes (Suc n) v) = (v div 256 mod 256 ^ n) * 256 + v mod 256"
    by (simp add: Suc.IH unat_of_nat)
  also have "\<dots> = v mod (256 * 256 ^ n)"
    by (simp add: mod_mult2_eq)
  finally show ?case by simp
qed simp

lemma be_bytes_be_nat: "be_bytes (length bs) (be_nat bs) = bs"
proof (induction bs rule: rev_induct)
  case (snoc b bs)
  have "(be_nat bs * 256 + unat b) div 256 = be_nat bs"
    using unat_lt_256 [of b] by simp
  moreover have "unat (word_of_nat (be_nat bs * 256 + unat b) :: u8) = unat b"
    by (simp only: unat_of_nat) (simp add: mod_mult_self3)
  then have "(word_of_nat (be_nat bs * 256 + unat b) :: u8) = b"
    by (simp only: word_unat_eq_iff)
  ultimately show ?case using snoc by simp
qed simp

text \<open>The fixed-width instances: \<open>uN::to_be_bytes\<close> and \<open>uN::from_be_bytes\<close>.\<close>

definition to_be :: "'a::len word \<Rightarrow> bytes" where
  "to_be w = be_bytes (LENGTH('a) div 8) (unat w)"

definition from_be :: "bytes \<Rightarrow> 'a::len word" where
  "from_be bs = word_of_nat (be_nat bs)"

lemma length_to_be [simp]: "length (to_be (w :: 'a::len word)) = LENGTH('a) div 8"
  by (simp add: to_be_def)

lemma from_be_to_be [codec_simps]:
  assumes "LENGTH('a::len) = 8 * n"
  shows "from_be (to_be (w :: 'a word)) = w"
proof -
  have "unat w < 256 ^ n"
    using unsigned_less [of w] assms by (simp add: power_mult)
  then show ?thesis
    using assms by (simp add: from_be_def to_be_def be_nat_be_bytes)
qed

lemma to_be_from_be [codec_simps]:
  assumes "LENGTH('a::len) = 8 * length bs"
  shows "to_be (from_be bs :: 'a word) = bs"
proof -
  have "be_nat bs < 2 ^ LENGTH('a)"
    using be_nat_bound [of bs] assms by (simp add: power_mult)
  then have "unat (from_be bs :: 'a word) = be_nat bs"
    by (simp add: from_be_def unat_of_nat)
  then show ?thesis
    using assms by (simp add: to_be_def be_bytes_be_nat)
qed

lemma from_be_to_be_u16 [simp]: "from_be (to_be w) = (w :: u16)"
  by (rule from_be_to_be [of 2]) simp

lemma from_be_to_be_u32 [simp]: "from_be (to_be w) = (w :: u32)"
  by (rule from_be_to_be [of 4]) simp

lemma from_be_to_be_u64 [simp]: "from_be (to_be w) = (w :: u64)"
  by (rule from_be_to_be [of 8]) simp

lemma unat_from_be_u16: "length bs = 2 \<Longrightarrow> unat (from_be bs :: u16) = be_nat bs"
  using be_nat_bound [of bs] by (simp add: from_be_def unat_of_nat)

text \<open>Widening casts.\<close>

lemma unat_ucast_up:
  assumes "LENGTH('a::len) \<le> LENGTH('b::len)"
  shows "unat (ucast (w :: 'a word) :: 'b word) = unat w"
proof -
  have "unat w < 2 ^ LENGTH('a)" by (rule unsigned_less)
  also have "(2 :: nat) ^ LENGTH('a) \<le> 2 ^ LENGTH('b)" using assms by simp
  finally show ?thesis by (simp add: unsigned_ucast_eq take_bit_nat_eq_self)
qed

lemma unat_ucast_u8_u32 [simp]: "unat (ucast (w :: u8) :: u32) = unat w"
  by (rule unat_ucast_up) simp

lemma unat_ucast_u32_u64 [simp]: "unat (ucast (w :: u32) :: u64) = unat w"
  by (rule unat_ucast_up) simp

section \<open>Saturating and checked arithmetic\<close>

definition saturating_sub :: "'a::len word \<Rightarrow> 'a word \<Rightarrow> 'a word" where
  "saturating_sub a b = (if a < b then 0 else a - b)"

definition saturating_add :: "'a::len word \<Rightarrow> 'a word \<Rightarrow> 'a word" where
  "saturating_add a b = (if unat a + unat b < 2 ^ LENGTH('a) then a + b else - 1)"

lemma unat_saturating_sub: "unat (saturating_sub a b) = unat a - unat b"
  by (auto simp: saturating_sub_def word_less_nat_alt unat_sub word_le_nat_alt not_less)

lemma unat_saturating_add:
  "unat (saturating_add (a :: 'a::len word) b) = min (unat a + unat b) (2 ^ LENGTH('a) - 1)"
  by (auto simp: saturating_add_def unat_word_ariths unsigned_minus_1_eq_mask
      mask_eq_exp_minus_1 min_def)

definition checked_sub_instant :: "instant \<Rightarrow> duration \<Rightarrow> instant option" where
  "checked_sub_instant t d = (if d \<le> t then Some (t - d) else None)"

definition saturating_duration_since :: "instant \<Rightarrow> instant \<Rightarrow> duration" where
  "saturating_duration_since later earlier = later - earlier"

lemma unat_succ: "e \<noteq> - 1 \<Longrightarrow> unat (e + 1 :: u64) = Suc (unat e)"
  using unatSuc [of e] by (metis add.commute add_eq_0_iff)

lemma u64_succ_less: "e \<noteq> - 1 \<Longrightarrow> (e :: u64) < e + 1"
  by (simp add: word_less_nat_alt unat_succ)

lemma map2_xor_inj:
  fixes iv :: bytes
  assumes "length a = length iv" "length b = length iv" "map2 xor iv a = map2 xor iv b"
  shows "a = b"
proof (rule nth_equalityI)
  fix i assume i: "i < length a"
  have "xor (iv ! i) (a ! i) = xor (iv ! i) (b ! i)"
    using assms(1,2) i arg_cong [OF assms(3), of "\<lambda>xs. xs ! i"] by simp
  then have "xor (xor (iv ! i) (iv ! i)) (a ! i) = xor (xor (iv ! i) (iv ! i)) (b ! i)" by (simp only: xor.assoc)
  then show "a ! i = b ! i" by simp
qed (use assms in simp)

section \<open>Hash maps\<close>

type_synonym ('k, 'v) hashmap = "('k \<times> 'v) list"

definition hm_get :: "('k, 'v) hashmap \<Rightarrow> 'k \<Rightarrow> 'v option" where
  "hm_get m k = map_of m k"

definition hm_insert :: "'k \<Rightarrow> 'v \<Rightarrow> ('k, 'v) hashmap \<Rightarrow> ('k, 'v) hashmap" where
  "hm_insert k v m = AList.update k v m"

definition hm_remove :: "'k \<Rightarrow> ('k, 'v) hashmap \<Rightarrow> ('k, 'v) hashmap" where
  "hm_remove k m = AList.delete k m"

definition hm_retain :: "('k \<Rightarrow> 'v \<Rightarrow> bool) \<Rightarrow> ('k, 'v) hashmap \<Rightarrow> ('k, 'v) hashmap" where
  "hm_retain p m = filter (\<lambda>(k, v). p k v) m"

definition hm_contains :: "('k, 'v) hashmap \<Rightarrow> 'k \<Rightarrow> bool" where
  "hm_contains m k = (hm_get m k \<noteq> None)"

definition hm_len :: "('k, 'v) hashmap \<Rightarrow> nat" where
  "hm_len m = length m"

definition hm_wf :: "('k, 'v) hashmap \<Rightarrow> bool" where
  "hm_wf m = distinct (map fst m)"


text \<open>
  The interface of a finite map: what the components rely on when they call \<open>HashMap\<close>,
  \<open>BTreeMap\<close> or a map of their own.  The bookkeeping about the number of entries is derived
  once from the lookup laws.
\<close>

locale map_store =
  fixes get :: "'m \<Rightarrow> 'k \<Rightarrow> 'v option"
    and ins :: "'k \<Rightarrow> 'v \<Rightarrow> 'm \<Rightarrow> 'm"
    and del :: "'k \<Rightarrow> 'm \<Rightarrow> 'm"
    and retain :: "('k \<Rightarrow> 'v \<Rightarrow> bool) \<Rightarrow> 'm \<Rightarrow> 'm"
    and len :: "'m \<Rightarrow> nat"
    and wf :: "'m \<Rightarrow> bool"
  assumes get_ins: "get (ins k v m) k' = (if k' = k then Some v else get m k')"
    and get_del: "get (del k m) k' = (if k' = k then None else get m k')"
    and get_retain: "wf m \<Longrightarrow> get (retain p m) k' =
      (case get m k' of None \<Rightarrow> None | Some v \<Rightarrow> if p k' v then Some v else None)"
    and wf_ins: "wf m \<Longrightarrow> wf (ins k v m)"
    and wf_del: "wf m \<Longrightarrow> wf (del k m)"
    and wf_retain: "wf m \<Longrightarrow> wf (retain p m)"
    and finite_keys: "finite (dom (get m))"
    and len_card: "wf m \<Longrightarrow> len m = card (dom (get m))"
begin

lemma keys_ins: "dom (get (ins k v m)) = insert k (dom (get m))"
  by (auto simp: get_ins dom_def)

lemma keys_del: "dom (get (del k m)) = dom (get m) - {k}"
  by (auto simp: get_del dom_def)

lemma keys_retain: "wf m \<Longrightarrow> dom (get (retain p m)) \<subseteq> dom (get m)"
  by (auto simp: get_retain dom_def split: option.splits)

lemma len_ins_new: "wf m \<Longrightarrow> get m k = None \<Longrightarrow> len (ins k v m) = Suc (len m)"
  by (simp add: len_card wf_ins keys_ins finite_keys domIff)

lemma len_ins_old: "wf m \<Longrightarrow> get m k = Some w \<Longrightarrow> len (ins k v m) = len m"
  by (simp add: len_card wf_ins keys_ins insert_absorb domI)

lemma len_del_old: "wf m \<Longrightarrow> get m k = Some w \<Longrightarrow> len (del k m) = len m - 1"
  by (simp add: len_card wf_del keys_del finite_keys domI)

lemma len_pos: "wf m \<Longrightarrow> get m k = Some w \<Longrightarrow> 0 < len m"
  using finite_keys [of m] by (auto simp: len_card card_gt_0_iff)

lemma len_retain_le: "wf m \<Longrightarrow> len (retain p m) \<le> len m"
  by (simp add: len_card wf_retain card_mono finite_keys keys_retain)

lemma len_del_le: "wf m \<Longrightarrow> len (del k m) \<le> len m"
  by (simp add: len_card wf_del keys_del card_mono finite_keys)

end

lemma map_of_filter_distinct:
  "distinct (map fst m) \<Longrightarrow> map_of (filter (\<lambda>(k, v). p k v) m) k' =
    (case map_of m k' of None \<Rightarrow> None | Some v \<Rightarrow> if p k' v then Some v else None)"
  by (induction m) (auto split: option.splits simp: map_of_eq_None_iff image_iff)

interpretation hm: map_store hm_get hm_insert hm_remove hm_retain hm_len hm_wf
proof (unfold_locales, goal_cases)
  case (8 m)
  have "dom (hm_get m) = set (map fst m)"
    by (simp add: hm_get_def [abs_def] dom_map_of_conv_image_fst)
  then show ?case
    using 8 distinct_card [of "map fst m"] by (simp add: hm_len_def hm_wf_def)
next
  case (7 m)
  show ?case by (simp add: hm_get_def [abs_def] finite_dom_map_of)
qed (auto simp: hm_get_def hm_insert_def hm_remove_def hm_retain_def hm_wf_def update_conv'
       delete_conv' map_of_filter_distinct distinct_update distinct_delete
       intro: distinct_map_filter)

lemmas hm_laws [hm_simps] = hm.get_ins hm.get_del hm.wf_ins hm.wf_del hm.wf_retain

lemma hm_get_Nil [simp]: "hm_get [] k = None"
  by (simp add: hm_get_def)

lemma hm_wf_Nil [simp]: "hm_wf []"
  by (simp add: hm_wf_def)

lemma hm_len_Nil [simp]: "hm_len [] = 0"
  by (simp add: hm_len_def)

text \<open>Evaluation of the map operations on explicit lists, for concrete runs.\<close>

lemmas hm_eval = hm_get_def hm_insert_def hm_remove_def hm_retain_def hm_len_def hm_contains_def
  AList.update.simps delete_simps

text \<open>
  The order in which a map is iterated is left open: it is a function \<open>ord\<close> of which only this is
  known.  \<open>Iterator::min_by_key\<close> returns the first minimum in that order.
\<close>

definition iterates :: "(('k, 'v) hashmap \<Rightarrow> ('k \<times> 'v) list) \<Rightarrow> bool" where
  "iterates ord \<longleftrightarrow> (\<forall>m. set (ord m) = set m)"

fun min_by_key :: "('a \<Rightarrow> 'b::linorder) \<Rightarrow> 'a list \<Rightarrow> 'a option" where
  "min_by_key key [] = None"
| "min_by_key key (e # es) =
     (case min_by_key key es of None \<Rightarrow> Some e | Some f \<Rightarrow> if key e \<le> key f then Some e else Some f)"

lemma min_by_key_mem: "min_by_key key es = Some e \<Longrightarrow> e \<in> set es"
  by (induction es arbitrary: e) (auto split: option.splits if_splits)

lemma min_by_key_none: "min_by_key key es = None \<longleftrightarrow> es = []"
  by (cases es) (auto split: option.splits)

lemma min_by_key_least: "min_by_key key es = Some e \<Longrightarrow> f \<in> set es \<Longrightarrow> key e \<le> key f"
  by (induction es arbitrary: e f) (force simp: min_by_key_none split: option.splits if_splits)+

section \<open>Strings\<close>

text \<open>
  A Rust \<open>str\<close> is its UTF-8 bytes.  \<open>valid_utf8\<close> is the check of \<open>str::from_utf8\<close>: shortest
  forms only, no surrogates, nothing above U+10FFFF.
\<close>

definition utf8_cont :: "u8 \<Rightarrow> bool" where
  "utf8_cont b = (0x80 \<le> b \<and> b \<le> 0xBF)"

fun valid_utf8 :: "bytes \<Rightarrow> bool" where
  "valid_utf8 [] = True"
| "valid_utf8 (b # bs) =
     (if b < 0x80 then valid_utf8 bs
      else if 0xC2 \<le> b \<and> b \<le> 0xDF then
        (case bs of c # cs \<Rightarrow> utf8_cont c \<and> valid_utf8 cs | _ \<Rightarrow> False)
      else if 0xE0 \<le> b \<and> b \<le> 0xEF then
        (case bs of c # d # cs \<Rightarrow>
           utf8_cont c \<and> (b = 0xE0 \<longrightarrow> 0xA0 \<le> c) \<and> (b = 0xED \<longrightarrow> c \<le> 0x9F) \<and> utf8_cont d \<and> valid_utf8 cs
         | _ \<Rightarrow> False)
      else if 0xF0 \<le> b \<and> b \<le> 0xF4 then
        (case bs of c # d # e # cs \<Rightarrow>
           utf8_cont c \<and> (b = 0xF0 \<longrightarrow> 0x90 \<le> c) \<and> (b = 0xF4 \<longrightarrow> c \<le> 0x8F) \<and> utf8_cont d \<and> utf8_cont e
             \<and> valid_utf8 cs
         | _ \<Rightarrow> False)
      else False)"

lemma valid_utf8_ascii: "\<forall>b \<in> set bs. b < 0x80 \<Longrightarrow> valid_utf8 bs"
  by (induction bs) auto

text \<open>A byte-string literal.\<close>

definition ascii :: "string \<Rightarrow> bytes" where
  "ascii s = map (\<lambda>c. word_of_nat (of_char c)) s"

text \<open>
  \<open>String::from_utf8_lossy\<close>: every maximal ill-formed prefix becomes one U+FFFD.
\<close>

definition replacement :: bytes where
  "replacement = [0xEF, 0xBF, 0xBD]"

definition utf8_second :: "u8 \<Rightarrow> u8 \<Rightarrow> bool" where
  "utf8_second b c =
     (utf8_cont c \<and> (b = 0xE0 \<longrightarrow> 0xA0 \<le> c) \<and> (b = 0xED \<longrightarrow> c \<le> 0x9F) \<and>
      (b = 0xF0 \<longrightarrow> 0x90 \<le> c) \<and> (b = 0xF4 \<longrightarrow> c \<le> 0x8F))"

definition utf8_width :: "u8 \<Rightarrow> nat" where
  "utf8_width b =
     (if b < 0x80 then 1 else if 0xC2 \<le> b \<and> b \<le> 0xDF then 2 else if 0xE0 \<le> b \<and> b \<le> 0xEF then 3
      else if 0xF0 \<le> b \<and> b \<le> 0xF4 then 4 else 0)"

text \<open>The continuation bytes a leading byte finds: the second has the restricted range.\<close>

definition utf8_found :: "u8 \<Rightarrow> bytes \<Rightarrow> nat" where
  "utf8_found b bs =
     (case bs of [] \<Rightarrow> 0 | c # cs \<Rightarrow>
        if \<not> utf8_second b c then 0
        else 1 + min (utf8_width b - 2) (length (takeWhile utf8_cont cs)))"

fun utf8_lossy :: "bytes \<Rightarrow> bytes" where
  "utf8_lossy [] = []"
| "utf8_lossy (b # bs) =
     (if utf8_width b = 1 then b # utf8_lossy bs
      else if utf8_width b = 0 then replacement @ utf8_lossy bs
      else
        let n = utf8_found b bs in
        if n = utf8_width b - 1 then (b # take n bs) @ utf8_lossy (drop n bs)
        else replacement @ utf8_lossy (drop n bs))"

lemma utf8_lossy_ascii: "\<forall>b \<in> set bs. b < 0x80 \<Longrightarrow> utf8_lossy bs = bs"
  by (induction bs) (auto simp: utf8_width_def)

text \<open>\<open>to_ascii_lowercase\<close>\<close>

definition ascii_lower :: "u8 \<Rightarrow> u8" where
  "ascii_lower b = (if 0x41 \<le> b \<and> b \<le> 0x5A then b + 0x20 else b)"

text \<open>\<open>str::split\<close> on one character.\<close>

fun split_on :: "'a \<Rightarrow> 'a list \<Rightarrow> 'a list list" where
  "split_on c [] = [[]]"
| "split_on c (x # xs) =
     (if x = c then [] # split_on c xs
      else case split_on c xs of y # ys \<Rightarrow> (x # y) # ys | [] \<Rightarrow> [[x]])"

lemma split_on_nonempty [simp]: "split_on c xs \<noteq> []"
  by (cases xs) (auto split: list.splits)

lemma set_split_on: "set xs \<subseteq> insert c (\<Union> (set ` set (split_on c xs)))"
proof (induction xs)
  case (Cons a xs)
  obtain y ys where "split_on c xs = y # ys" by (cases "split_on c xs") auto
  with Cons show ?case by (cases "a = c") auto
qed simp

section \<open>Self-delimiting codecs\<close>

text \<open>
  A decoder that reads one value from the front of a buffer and reports how many bytes it
  consumed.  \<open>incomplete\<close> marks the errors that only ask for more input.  The read loop of a
  connection applies the decoder until it needs more bytes or fails; what it yields does not
  depend on how the transport cut the byte stream into reads.
\<close>

locale prefix_codec =
  fixes enc :: "'a \<Rightarrow> bytes"
    and dec :: "bytes \<Rightarrow> 'e + ('a \<times> nat)"
    and wf :: "'a \<Rightarrow> bool"
    and incomplete :: "'e \<Rightarrow> bool"
    and loop :: "bytes \<Rightarrow> 'a list \<times> bytes \<times> bool"
  assumes dec_enc: "wf x \<Longrightarrow> dec (enc x @ rest) = Ok (x, length (enc x))"
    and dec_ok: "dec buf = Ok (x, n) \<Longrightarrow> wf x \<and> n = length (enc x) \<and> take n buf = enc x"
    and dec_fatal: "dec buf = Err e \<Longrightarrow> \<not> incomplete e \<Longrightarrow> \<exists>e'. dec (buf @ more) = Err e' \<and> \<not> incomplete e'"
    and dec_nonempty: "wf x \<Longrightarrow> enc x \<noteq> []"
    and dec_Nil: "\<exists>e. dec [] = Err e \<and> incomplete e"
    and loop_step: "loop buf = (case dec buf of
        Err e \<Rightarrow> ([], buf, \<not> incomplete e)
      | Ok (x, n) \<Rightarrow> (case loop (drop n buf) of (xs, rest, dead) \<Rightarrow> (x # xs, rest, dead)))"
begin

lemma dec_split:
  assumes "dec buf = Ok (x, n)"
  obtains rest where "wf x" "n = length (enc x)" "buf = enc x @ rest" "drop n buf = rest"
proof -
  have x: "wf x" "n = length (enc x)" "take n buf = enc x" using dec_ok [OF assms] by blast+
  have "buf = enc x @ drop n buf" using x(3) append_take_drop_id [of n buf] by argo
  with x that show ?thesis by blast
qed

lemma dec_append: "dec buf = Ok (x, n) \<Longrightarrow> dec (buf @ more) = Ok (x, n)"
  by (erule dec_split) (simp add: dec_enc)

lemma dec_consumes: "dec buf = Ok (x, n) \<Longrightarrow> 0 < n \<and> n \<le> length buf"
  using dec_nonempty [of x] by (erule_tac dec_split) simp

lemma loop_concat:
  "\<forall>x \<in> set xs. wf x \<Longrightarrow> loop (concat (map enc xs) @ rest) =
     (case loop rest of (ys, r, dead) \<Rightarrow> (xs @ ys, r, dead))"
proof (induction xs)
  case Nil
  then show ?case by (simp split: prod.splits)
next
  case (Cons x xs)
  then have "dec (enc x @ (concat (map enc xs) @ rest)) = Ok (x, length (enc x))"
    by (simp add: dec_enc del: append_assoc)
  with Cons show ?case
    by (subst loop_step) (simp split: prod.splits)
qed

lemma loop_Nil: "loop [] = ([], [], False)"
  using dec_Nil by (subst loop_step) auto

lemma loop_all: "\<forall>x \<in> set xs. wf x \<Longrightarrow> loop (concat (map enc xs)) = (xs, [], False)"
  using loop_concat [of xs "[]"] by (simp add: loop_Nil)

lemma loop_sound:
  "loop buf = (xs, rest, dead) \<Longrightarrow> buf = concat (map enc xs) @ rest \<and> (\<forall>x \<in> set xs. wf x)"
proof (induction "length buf" arbitrary: buf xs rule: less_induct)
  case less
  show ?case
  proof (cases "dec buf")
    case (Inl e)
    with less.prems show ?thesis by (simp add: loop_step [of buf])
  next
    case (Inr p)
    then obtain x n where d: "dec buf = Ok (x, n)" by (cases p) auto
    obtain ys r d' where l: "loop (drop n buf) = (ys, r, d')" by (cases "loop (drop n buf)") auto
    have xs: "xs = x # ys" "rest = r" "dead = d'"
      using less.prems d l by (simp_all add: loop_step [of buf])
    have "length (drop n buf) < length buf" using dec_consumes [OF d] by auto
    from less.hyps [OF this l [folded xs(2,3)]]
    have tail: "drop n buf = concat (map enc ys) @ rest" "\<forall>y \<in> set ys. wf y" by auto
    show ?thesis using d by (rule dec_split) (use tail xs(1) in simp)
  qed
qed

theorem loop_chunk:
  assumes "loop a = (xs, r, False)"
  shows "loop (a @ b) = (case loop (r @ b) of (ys, r', dead) \<Rightarrow> (xs @ ys, r', dead))"
  using loop_sound [OF assms] loop_concat [of xs "r @ b"] by simp

lemma loop_idem: "loop a = (xs, r, False) \<Longrightarrow> loop r = ([], r, False)"
proof (induction "length a" arbitrary: a xs rule: less_induct)
  case less
  show ?case
  proof (cases "dec a")
    case (Inl e)
    with less.prems show ?thesis by (auto simp: loop_step [of a] loop_step [of r])
  next
    case (Inr p)
    then obtain x n where d: "dec a = Ok (x, n)" by (cases p) auto
    obtain ys r' d' where l: "loop (drop n a) = (ys, r', d')" by (cases "loop (drop n a)") auto
    have "length (drop n a) < length a" using dec_consumes [OF d] by auto
    from less.hyps [OF this] l less.prems d show ?thesis by (simp add: loop_step [of a])
  qed
qed

theorem loop_dead: "loop a = (xs, r, True) \<Longrightarrow> loop (a @ b) = (xs, r @ b, True)"
proof (induction "length a" arbitrary: a xs rule: less_induct)
  case less
  show ?case
  proof (cases "dec a")
    case (Inl e)
    with less.prems have "\<not> incomplete e" "xs = []" "r = a" by (simp_all add: loop_step [of a])
    with Inl dec_fatal [of a e b] show ?thesis by (subst loop_step) auto
  next
    case (Inr p)
    then obtain x n where d: "dec a = Ok (x, n)" by (cases p) auto
    obtain ys r' d' where l: "loop (drop n a) = (ys, r', d')" by (cases "loop (drop n a)") auto
    have xs: "xs = x # ys" "r = r'" "d'" using less.prems d l by (simp_all add: loop_step [of a])
    have n: "n \<le> length a" "length (drop n a) < length a" using dec_consumes [OF d] by auto
    from less.hyps [OF n(2)] l xs have "loop (drop n a @ b) = (ys, r @ b, True)" by auto
    with n(1) dec_append [OF d, of b] xs(1) show ?thesis by (subst loop_step) auto
  qed
qed

end

end
