(* ===== verification/Circuit_Cell.thy ===== *)
theory Circuit_Cell
  imports Mirage_Prelude
begin

text \<open>
  The cells of a multi-hop circuit and the bodies they carry (\<open>crates/circuit/src/cell.rs\<close> and
  \<open>crates/circuit/src/extend.rs\<close>): the fixed-size cell, the endpoint of a hop, the header of \<open>EXTEND\<close>, the
  splitting of a handshake message over a first cell and its continuations, and the compact sub-cell carried
  inside the onion.

  The theory shows that decoding a cell is exactly the inverse of encoding it, for every choice of the random
  padding; that the decoders of the bodies read back what the encoders wrote; and that the pieces of a split
  message fit their cells and make up the message.
\<close>

section \<open>Cells\<close>

definition CIRCUIT_CELL_LEN :: nat where "CIRCUIT_CELL_LEN = 1024"
definition CELL_HEADER_LEN :: nat where "CELL_HEADER_LEN = 4 + 1 + 2"
definition MAX_CELL_PAYLOAD :: nat where "MAX_CELL_PAYLOAD = CIRCUIT_CELL_LEN - CELL_HEADER_LEN"

abbreviation CMD_RESERVED :: u8 where "CMD_RESERVED \<equiv> 0x00"
abbreviation CMD_CREATE :: u8 where "CMD_CREATE \<equiv> 0x01"
abbreviation CMD_CREATED :: u8 where "CMD_CREATED \<equiv> 0x02"
abbreviation CMD_EXTEND :: u8 where "CMD_EXTEND \<equiv> 0x03"
abbreviation CMD_EXTENDED :: u8 where "CMD_EXTENDED \<equiv> 0x04"
abbreviation CMD_RELAY :: u8 where "CMD_RELAY \<equiv> 0x05"
abbreviation CMD_DESTROY :: u8 where "CMD_DESTROY \<equiv> 0x09"
abbreviation CMD_PADDING :: u8 where "CMD_PADDING \<equiv> 0x0A"
abbreviation CMD_EXTENDED_CONT :: u8 where "CMD_EXTENDED_CONT \<equiv> 0x10"
abbreviation CMD_CREATE_CONT :: u8 where "CMD_CREATE_CONT \<equiv> 0x11"
abbreviation CMD_CREATED_CONT :: u8 where "CMD_CREATED_CONT \<equiv> 0x12"
abbreviation CMD_EXTEND_CONT :: u8 where "CMD_EXTEND_CONT \<equiv> 0x0F"
abbreviation CMD_EXTEND_FINISH :: u8 where "CMD_EXTEND_FINISH \<equiv> 0x0E"

lemmas cell_lens = CIRCUIT_CELL_LEN_def CELL_HEADER_LEN_def MAX_CELL_PAYLOAD_def
datatype CellError =
    WrongLength nat
  | ReservedCommand
  | PadLenTooLarge u16
  | BodyTooLarge nat
  | ZeroCircuitId
  | Csprng

record Cell =
  c_circ_id :: u32
  c_command :: u8
  c_body :: bytes

definition Cell_new :: "u32 \<Rightarrow> u8 \<Rightarrow> bytes \<Rightarrow> CellError + Cell" where
  "Cell_new cid cmd bs =
     (if cid = 0 then Err ZeroCircuitId
      else if MAX_CELL_PAYLOAD < length bs then Err (BodyTooLarge (length bs))
      else if cmd = CMD_RESERVED then Err ReservedCommand
      else Ok \<lparr>c_circ_id = cid, c_command = cmd, c_body = bs\<rparr>)"

text \<open>\<open>fill n\<close> is what the system's generator returns when asked for \<open>n\<close> bytes, or nothing when it fails.\<close>

definition Cell_encode :: "(nat \<Rightarrow> bytes option) \<Rightarrow> Cell \<Rightarrow> CellError + bytes" where
  "Cell_encode fill c =
     (if MAX_CELL_PAYLOAD < length (c_body c) then Err (BodyTooLarge (length (c_body c)))
      else
        let pad_len = word_of_nat (MAX_CELL_PAYLOAD - length (c_body c)) :: u16;
            out = to_be (c_circ_id c) @ [c_command c] @ to_be pad_len @ c_body c;
            pad_start = CELL_HEADER_LEN + length (c_body c)
        in if pad_start < CIRCUIT_CELL_LEN then
             (case fill (CIRCUIT_CELL_LEN - pad_start) of None \<Rightarrow> Err Csprng | Some pad \<Rightarrow> Ok (out @ pad))
           else Ok out)"

definition Cell_decode :: "bytes \<Rightarrow> CellError + Cell" where
  "Cell_decode buf =
     (if length buf \<noteq> CIRCUIT_CELL_LEN then Err (WrongLength (length buf))
      else
        let cid = from_be (take 4 buf) :: u32; cmd = buf ! 4; pad_len = from_be (take 2 (drop 5 buf)) :: u16 in
        if cid = 0 then Err ZeroCircuitId
        else if cmd = CMD_RESERVED then Err ReservedCommand
        else if MAX_CELL_PAYLOAD < unat pad_len then Err (PadLenTooLarge pad_len)
        else
          let body_end = CIRCUIT_CELL_LEN - unat pad_len
          in Ok \<lparr>c_circ_id = cid, c_command = cmd, c_body = take (body_end - CELL_HEADER_LEN) (drop CELL_HEADER_LEN buf)\<rparr>)"

text \<open>The cells that \<open>Cell::new\<close> builds.\<close>

definition cell_ok :: "Cell \<Rightarrow> bool" where
  "cell_ok c \<longleftrightarrow> c_circ_id c \<noteq> 0 \<and> c_command c \<noteq> CMD_RESERVED \<and> length (c_body c) \<le> MAX_CELL_PAYLOAD"

lemma Cell_new_Ok: "Cell_new cid cmd bs = Ok c \<longleftrightarrow> cell_ok c \<and> c = \<lparr>c_circ_id = cid, c_command = cmd, c_body = bs\<rparr>"
  by (auto simp: Cell_new_def cell_ok_def)

section \<open>Endpoints\<close>

datatype ExtendError = ExtWire string | TooLarge nat

datatype HopEndpoint = Ipv4 bytes u16 | Ipv6 bytes u16 | OnionV3 bytes u16

fun HopEndpoint_wire_len :: "HopEndpoint \<Rightarrow> nat" where
  "HopEndpoint_wire_len (Ipv4 a p) = 1 + 6"
| "HopEndpoint_wire_len (Ipv6 a p) = 1 + 18"
| "HopEndpoint_wire_len (OnionV3 a p) = 1 + 58"

definition v4_mapped :: "bytes \<Rightarrow> bool" where
  "v4_mapped a \<longleftrightarrow> take 10 a = replicate 10 0 \<and> a ! 10 = 0xff \<and> a ! 11 = 0xff"

fun HopEndpoint_encode :: "HopEndpoint \<Rightarrow> ExtendError + bytes" where
  "HopEndpoint_encode (Ipv4 a p) =
     (if p = 0 then Err (ExtWire ''port 0 reserved'') else Ok ([0x01] @ a @ to_be p))"
| "HopEndpoint_encode (Ipv6 a p) =
     (if p = 0 then Err (ExtWire ''port 0 reserved'')
      else if v4_mapped a then Err (ExtWire ''IPv4-mapped IPv6 must be encoded as IPv4 (kind 0x01)'')
      else Ok ([0x02] @ a @ to_be p))"
| "HopEndpoint_encode (OnionV3 a p) =
     (if p = 0 then Err (ExtWire ''port 0 reserved'') else Ok ([0x04] @ a @ to_be p))"

definition HopEndpoint_decode :: "bytes \<Rightarrow> ExtendError + (HopEndpoint \<times> nat)" where
  "HopEndpoint_decode buf =
     (if buf = [] then Err (ExtWire ''endpoint empty'')
      else if buf ! 0 = 0x01 then
        (if length buf < 7 then Err (ExtWire ''ipv4 truncated'')
         else
           let p = from_be (take 2 (drop 5 buf)) :: u16 in
           if p = 0 then Err (ExtWire ''port 0 reserved'') else Ok (Ipv4 (take 4 (drop 1 buf)) p, 7))
      else if buf ! 0 = 0x02 then
        (if length buf < 19 then Err (ExtWire ''ipv6 truncated'')
         else
           let a = take 16 (drop 1 buf); p = from_be (take 2 (drop 17 buf)) :: u16 in
           if v4_mapped a then Err (ExtWire ''IPv4-mapped IPv6 must be encoded as IPv4 (kind 0x01)'')
           else if p = 0 then Err (ExtWire ''port 0 reserved'') else Ok (Ipv6 a p, 19))
      else if buf ! 0 = 0x03 then Err (ExtWire ''domain endpoint kind not allowed in EXTEND (deprecated, A14)'')
      else if buf ! 0 = 0x04 then
        (if length buf < 59 then Err (ExtWire ''onion truncated'')
         else
           let p = from_be (take 2 (drop 57 buf)) :: u16 in
           if p = 0 then Err (ExtWire ''port 0 reserved'') else Ok (OnionV3 (take 56 (drop 1 buf)) p, 59))
      else Err (ExtWire ''unknown endpoint kind''))"

text \<open>The array lengths of the source's types.\<close>

fun endpoint_wf :: "HopEndpoint \<Rightarrow> bool" where
  "endpoint_wf (Ipv4 a p) = (length a = 4)"
| "endpoint_wf (Ipv6 a p) = (length a = 16)"
| "endpoint_wf (OnionV3 a p) = (length a = 56)"

section \<open>Bodies\<close>

definition MAX_HS_MSG1_LEN :: nat where "MAX_HS_MSG1_LEN = 2 * 1221"
definition MAX_HS_MSG2_LEN :: nat where "MAX_HS_MSG2_LEN = 2 * 1189"
definition MAX_HANDSHAKE_BODY_LEN :: nat where "MAX_HANDSHAKE_BODY_LEN = MAX_HS_MSG1_LEN"
definition RELAY_SUBCELL_HEADER_LEN :: nat where "RELAY_SUBCELL_HEADER_LEN = 1 + 2"

lemmas body_lens = MAX_HS_MSG1_LEN_def MAX_HS_MSG2_LEN_def MAX_HANDSHAKE_BODY_LEN_def RELAY_SUBCELL_HEADER_LEN_def

text \<open>
  The loop of the three \<open>encode_fragmented\<close> functions that cuts the rest of a message into continuation
  bodies.  They refuse a maximum smaller than their header before they reach it, so that the maximum is positive.
\<close>

function cont_bodies :: "nat \<Rightarrow> bytes \<Rightarrow> bytes list" where
  "cont_bodies cap msg = (if msg = [] \<or> cap = 0 then [] else take cap msg # cont_bodies cap (drop cap msg))"
  by auto
termination by (relation "measure (\<lambda>(cap, msg). length msg)") auto

declare cont_bodies.simps [simp del]

definition fragment :: "bytes \<Rightarrow> nat \<Rightarrow> bytes \<Rightarrow> bytes \<times> bytes list" where
  "fragment header cap msg =
     (let first_chunk_len = min (cap - length header) (length msg)
      in (header @ take first_chunk_len msg, cont_bodies cap (drop first_chunk_len msg)))"

record ExtendBody =
  eb_next_hop_pk :: bytes
  eb_endpoint :: HopEndpoint
  eb_hs_msg1 :: bytes

definition ExtendBody_encode_fragmented :: "ExtendBody \<Rightarrow> nat \<Rightarrow> ExtendError + (bytes \<times> bytes list)" where
  "ExtendBody_encode_fragmented b cap =
     (if 65535 < length (eb_hs_msg1 b) then Err (TooLarge (length (eb_hs_msg1 b)))
      else
        let header_len = 32 + HopEndpoint_wire_len (eb_endpoint b) + 2 in
        if cap < header_len then Err (TooLarge header_len)
        else case HopEndpoint_encode (eb_endpoint b) of
               Inl e \<Rightarrow> Err e
             | Inr ep \<Rightarrow>
                 Ok (fragment (eb_next_hop_pk b @ ep @ to_be (word_of_nat (length (eb_hs_msg1 b)) :: u16)) cap (eb_hs_msg1 b)))"

record ExtendHeader =
  eh_next_hop_pk :: bytes
  eh_endpoint :: HopEndpoint
  eh_total_len :: nat

definition ExtendHeader_decode_partial :: "bytes \<Rightarrow> ExtendError + (ExtendHeader \<times> bytes)" where
  "ExtendHeader_decode_partial buf =
     (if length buf < 32 then Err (ExtWire ''extend header too short for pk'')
      else case HopEndpoint_decode (drop 32 buf) of
             Inl e \<Rightarrow> Err e
           | Inr (ep, ep_len) \<Rightarrow>
               let cursor = 32 + ep_len in
               if length buf < cursor + 2 then Err (ExtWire ''extend header truncated at hs len'')
               else
                 let total_len = unat (from_be (take 2 (drop cursor buf)) :: u16); after = drop (cursor + 2) buf in
                 if MAX_HS_MSG1_LEN < total_len
                 then Err (ExtWire ''extend header: total_hs_msg1_len exceeds MAX_HS_MSG1_LEN'')
                 else if total_len < length after
                 then Err (ExtWire ''extend header: first chunk longer than declared total'')
                 else Ok (\<lparr>eh_next_hop_pk = take 32 buf, eh_endpoint = ep, eh_total_len = total_len\<rparr>, after))"

definition ExtendedBody_encode_fragmented :: "bytes \<Rightarrow> nat \<Rightarrow> ExtendError + (bytes \<times> bytes list)" where
  "ExtendedBody_encode_fragmented hs_msg2 cap =
     (if 65535 < length hs_msg2 then Err (TooLarge (length hs_msg2))
      else if cap < 2 then Err (TooLarge 2)
      else Ok (fragment (to_be (word_of_nat (length hs_msg2) :: u16)) cap hs_msg2))"

text \<open>Both \<open>decode_partial\<close> of a bare message: they differ in their bound and in the texts of their errors.\<close>

definition msg_decode_partial :: "string \<Rightarrow> string \<Rightarrow> string \<Rightarrow> nat \<Rightarrow> bytes \<Rightarrow> ExtendError + (nat \<times> bytes)" where
  "msg_decode_partial short_err total_err chunk_err bound buf =
     (if length buf < 2 then Err (ExtWire short_err)
      else
        let total_len = unat (from_be (take 2 buf) :: u16); after = drop 2 buf in
        if bound < total_len then Err (ExtWire total_err)
        else if total_len < length after then Err (ExtWire chunk_err)
        else Ok (total_len, after))"

definition ExtendedBody_decode_partial :: "bytes \<Rightarrow> ExtendError + (nat \<times> bytes)" where
  "ExtendedBody_decode_partial =
     msg_decode_partial ''extended body too short'' ''extended body: total_hs_msg2_len exceeds MAX_HS_MSG2_LEN''
       ''extended body: first chunk longer than declared total'' MAX_HS_MSG2_LEN"

definition HandshakeBody_encode_fragmented :: "bytes \<Rightarrow> nat \<Rightarrow> ExtendError + (bytes \<times> bytes list)" where
  "HandshakeBody_encode_fragmented hs_msg cap =
     (if MAX_HANDSHAKE_BODY_LEN < length hs_msg then Err (TooLarge (length hs_msg))
      else if cap < 2 then Err (TooLarge 2)
      else Ok (fragment (to_be (word_of_nat (length hs_msg) :: u16)) cap hs_msg))"

definition HandshakeBody_decode_partial :: "bytes \<Rightarrow> ExtendError + (nat \<times> bytes)" where
  "HandshakeBody_decode_partial =
     msg_decode_partial ''handshake body too short'' ''handshake body: total exceeds MAX_HS_MSG_LEN''
       ''handshake body: first chunk longer than declared total'' MAX_HANDSHAKE_BODY_LEN"

definition ExtendFinishBody_encode :: "bytes \<Rightarrow> ExtendError + bytes" where
  "ExtendFinishBody_encode hs_msg3 =
     (if 65535 < length hs_msg3 then Err (TooLarge (length hs_msg3))
      else Ok (to_be (word_of_nat (length hs_msg3) :: u16) @ hs_msg3))"

definition ExtendFinishBody_decode :: "bytes \<Rightarrow> ExtendError + bytes" where
  "ExtendFinishBody_decode buf =
     (if length buf < 2 then Err (ExtWire ''extend_finish body too short'')
      else
        let hs_len = unat (from_be (take 2 buf) :: u16) in
        if length buf < 2 + hs_len then Err (ExtWire ''extend_finish body truncated'')
        else Ok (take hs_len (drop 2 buf)))"

record RelaySubCell =
  sub_command :: u8
  sub_body :: bytes

definition RelaySubCell_encode :: "RelaySubCell \<Rightarrow> ExtendError + bytes" where
  "RelaySubCell_encode s =
     (if 65535 < length (sub_body s) then Err (TooLarge (length (sub_body s)))
      else Ok ([sub_command s] @ to_be (word_of_nat (length (sub_body s)) :: u16) @ sub_body s))"

definition RelaySubCell_decode :: "bytes \<Rightarrow> ExtendError + RelaySubCell" where
  "RelaySubCell_decode buf =
     (if length buf < RELAY_SUBCELL_HEADER_LEN then Err (ExtWire ''relay subcell header too short'')
      else if buf ! 0 = 0 then Err (ExtWire ''relay subcell reserved command 0x00'')
      else
        let body_len = unat (from_be (take 2 (drop 1 buf)) :: u16) in
        if length buf \<noteq> RELAY_SUBCELL_HEADER_LEN + body_len then Err (ExtWire ''relay subcell length mismatch'')
        else Ok \<lparr>sub_command = buf ! 0, sub_body = drop RELAY_SUBCELL_HEADER_LEN buf\<rparr>)"

section \<open>Round trips of cells\<close>

lemma unat_len16: "n \<le> 65535 \<Longrightarrow> unat (word_of_nat n :: u16) = n"
  by (simp add: unat_of_nat)

lemma length_to_be16 [simp]: "length (to_be (w :: u16)) = 2"
  by simp

lemma length_to_be32 [simp]: "length (to_be (w :: u32)) = 4"
  by simp

lemma pad_len16: "unat (word_of_nat (MAX_CELL_PAYLOAD - n) :: u16) = MAX_CELL_PAYLOAD - n"
  by (rule unat_len16) (simp add: cell_lens)

lemma Cell_encode_ok:
  assumes "length (c_body c) \<le> MAX_CELL_PAYLOAD" "length pad = MAX_CELL_PAYLOAD - length (c_body c)"
  shows "Cell_encode (\<lambda>_. Some pad) c =
    Ok (to_be (c_circ_id c) @ [c_command c] @ to_be (word_of_nat (MAX_CELL_PAYLOAD - length (c_body c)) :: u16) @ c_body c @ pad)"
  using assms by (auto simp: Cell_encode_def Let_def cell_lens)

lemma Cell_decode_encoded:
  assumes ok: "cell_ok c" and pad: "length pad = MAX_CELL_PAYLOAD - length (c_body c)"
  shows "Cell_decode (to_be (c_circ_id c) @ [c_command c] @ to_be (word_of_nat (MAX_CELL_PAYLOAD - length (c_body c)) :: u16)
    @ c_body c @ pad) = Ok c"
proof -
  let ?h = "to_be (c_circ_id c)" and ?p = "to_be (word_of_nat (MAX_CELL_PAYLOAD - length (c_body c)) :: u16)"
  let ?w = "?h @ [c_command c] @ ?p @ c_body c @ pad"
  have len: "length ?w = CIRCUIT_CELL_LEN"
    using ok pad by (simp add: cell_ok_def cell_lens)
  have parts: "take 4 ?w = ?h" "?w ! 4 = c_command c" "take 2 (drop 5 ?w) = ?p" "drop CELL_HEADER_LEN ?w = c_body c @ pad"
    by (simp_all add: nth_append CELL_HEADER_LEN_def)
  have up: "unat (from_be ?p :: u16) = MAX_CELL_PAYLOAD - length (c_body c)" by (simp add: pad_len16)
  have m: "\<not> MAX_CELL_PAYLOAD < MAX_CELL_PAYLOAD - length (c_body c)" by simp
  have e: "CIRCUIT_CELL_LEN - (MAX_CELL_PAYLOAD - length (c_body c)) - CELL_HEADER_LEN = length (c_body c)"
    using ok by (simp add: cell_ok_def cell_lens)
  show ?thesis
    unfolding Cell_decode_def Let_def len parts up e
    using ok m by (simp add: cell_ok_def)
qed

lemma Cell_decode_ok:
  assumes "Cell_decode w = Ok c"
  shows "cell_ok c"
    "w = to_be (c_circ_id c) @ [c_command c] @ to_be (word_of_nat (MAX_CELL_PAYLOAD - length (c_body c)) :: u16)
      @ c_body c @ drop (CELL_HEADER_LEN + length (c_body c)) w"
    "length (drop (CELL_HEADER_LEN + length (c_body c)) w) = MAX_CELL_PAYLOAD - length (c_body c)"
proof -
  let ?p = "from_be (take 2 (drop 5 w)) :: u16"
  have w: "length w = 1024" and p: "unat ?p \<le> 1017" and cmd: "c_command c = w ! 4" "w ! 4 \<noteq> CMD_RESERVED"
    and cid: "c_circ_id c = from_be (take 4 w)" "c_circ_id c \<noteq> 0" and b: "c_body c = take (1017 - unat ?p) (drop 7 w)"
    using assms by (auto simp: Cell_decode_def Let_def cell_lens split: if_splits)
  have lb: "length (c_body c) = 1017 - unat ?p" using w b by simp
  have bk: "to_be (from_be (take 4 w) :: u32) = take 4 w" "to_be ?p = take 2 (drop 5 w)"
    using w by (simp_all add: to_be_from_be)
  have pp: "word_of_nat (MAX_CELL_PAYLOAD - length (c_body c)) = ?p"
    using lb p by (simp add: cell_lens)
  have "w = take 4 w @ [w ! 4] @ take 2 (drop 5 w) @ drop 7 w"
    using w id_take_nth_drop [of 4 w] append_take_drop_id [of 2 "drop 5 w"] by (simp del: append_take_drop_id)
  moreover have "drop 7 w = c_body c @ drop (7 + length (c_body c)) w"
    using b lb append_take_drop_id [of "1017 - unat ?p" "drop 7 w"] by (simp add: add.commute)
  ultimately show "w = to_be (c_circ_id c) @ [c_command c] @ to_be (word_of_nat (MAX_CELL_PAYLOAD - length (c_body c)) :: u16)
      @ c_body c @ drop (CELL_HEADER_LEN + length (c_body c)) w"
    unfolding pp bk cid(1) cmd(1) CELL_HEADER_LEN_def by simp
  show "cell_ok c" using cid(2) cmd lb by (simp add: cell_ok_def cell_lens)
  show "length (drop (CELL_HEADER_LEN + length (c_body c)) w) = MAX_CELL_PAYLOAD - length (c_body c)"
    using w by (simp add: cell_lens)
qed

text \<open>
  C27: Decoding a cell is exactly the inverse of encoding one.  A buffer decodes to a cell if and only if the cell
  is one that can be built and the buffer is its encoding under some choice of the random padding: no other buffer
  is accepted, and no cell is lost.
\<close>

theorem cell_decode_iff:
  "Cell_decode w = Ok c \<longleftrightarrow>
     (\<exists>pad. length pad = MAX_CELL_PAYLOAD - length (c_body c) \<and>
        Cell_new (c_circ_id c) (c_command c) (c_body c) = Ok c \<and> Cell_encode (\<lambda>_. Some pad) c = Ok w)"
proof
  assume d: "Cell_decode w = Ok c"
  let ?pad = "drop (CELL_HEADER_LEN + length (c_body c)) w"
  note k = Cell_decode_ok [OF d]
  have "Cell_encode (\<lambda>_. Some ?pad) c = Ok w"
    using k(1) Cell_encode_ok [OF _ k(3)] k(2) [symmetric] by (simp add: cell_ok_def del: drop_drop)
  with k(1,3) show "\<exists>pad. length pad = MAX_CELL_PAYLOAD - length (c_body c) \<and>
      Cell_new (c_circ_id c) (c_command c) (c_body c) = Ok c \<and> Cell_encode (\<lambda>_. Some pad) c = Ok w"
    by (intro exI [of _ ?pad]) (simp add: Cell_new_Ok)
next
  assume "\<exists>pad. length pad = MAX_CELL_PAYLOAD - length (c_body c) \<and>
      Cell_new (c_circ_id c) (c_command c) (c_body c) = Ok c \<and> Cell_encode (\<lambda>_. Some pad) c = Ok w"
  then obtain pad where p: "length pad = MAX_CELL_PAYLOAD - length (c_body c)" "cell_ok c"
      "Cell_encode (\<lambda>_. Some pad) c = Ok w" by (auto simp: Cell_new_Ok)
  with Cell_encode_ok [of c pad] Cell_decode_encoded [of c pad] show "Cell_decode w = Ok c"
    by (simp add: cell_ok_def)
qed

text \<open>Every cell on the wire has the same size, and none is sent when the generator fails with padding to fill.\<close>

lemma Cell_encode_length:
  assumes "\<And>n p. fill n = Some p \<Longrightarrow> length p = n" "Cell_encode fill c = Ok w"
  shows "length w = CIRCUIT_CELL_LEN"
  using assms(2) by (auto simp: Cell_encode_def Let_def cell_lens dest: assms(1) split: if_splits option.splits)

lemma Cell_encode_fails_closed:
  "length (c_body c) < MAX_CELL_PAYLOAD \<Longrightarrow> Cell_encode (\<lambda>_. None) c = Err Csprng"
  by (simp add: Cell_encode_def Let_def cell_lens)

section \<open>Round trips of bodies\<close>

lemma HopEndpoint_decode_kinds:
  assumes "p \<noteq> 0"
  shows "length a = 4 \<Longrightarrow> HopEndpoint_decode (1 # a @ to_be p @ rest) = Ok (Ipv4 a p, 7)"
    "length a = 16 \<Longrightarrow> \<not> v4_mapped a \<Longrightarrow> HopEndpoint_decode (2 # a @ to_be p @ rest) = Ok (Ipv6 a p, 19)"
    "length a = 56 \<Longrightarrow> HopEndpoint_decode (4 # a @ to_be p @ rest) = Ok (OnionV3 a p, 59)"
  using assms by (simp_all add: HopEndpoint_decode_def Let_def)

lemma HopEndpoint_decode_encode:
  assumes "endpoint_wf ep" "HopEndpoint_encode ep = Ok bs"
  shows "HopEndpoint_decode (bs @ rest) = Ok (ep, length bs)" "length bs = HopEndpoint_wire_len ep"
  using assms by (cases ep; auto simp: HopEndpoint_decode_kinds split: if_split_asm)+

lemma HopEndpoint_decode_cases:
  assumes "HopEndpoint_decode buf = Ok (ep, n)"
  obtains (v4) "n = 7" "buf ! 0 = 1" "ep = Ipv4 (take 4 (drop 1 buf)) (from_be (take 2 (drop 5 buf)))"
  | (v6) "n = 19" "buf ! 0 = 2" "ep = Ipv6 (take 16 (drop 1 buf)) (from_be (take 2 (drop 17 buf)))"
      "\<not> v4_mapped (take 16 (drop 1 buf))"
  | (onion) "n = 59" "buf ! 0 = 4" "ep = OnionV3 (take 56 (drop 1 buf)) (from_be (take 2 (drop 57 buf)))"
  using assms unfolding HopEndpoint_decode_def Let_def by (simp split: if_split_asm)

lemma HopEndpoint_decode_bounds:
  assumes "HopEndpoint_decode buf = Ok (ep, n)"
  shows "n \<le> length buf" "buf \<noteq> []" "\<And>a p. ep = Ipv4 a p \<or> ep = Ipv6 a p \<or> ep = OnionV3 a p \<Longrightarrow> p \<noteq> 0"
  using assms unfolding HopEndpoint_decode_def Let_def by (auto split: if_split_asm)

lemma HopEndpoint_decode_ok:
  assumes d: "HopEndpoint_decode buf = Ok (ep, n)"
  shows "endpoint_wf ep" "HopEndpoint_encode ep = Ok (take n buf)" "n = HopEndpoint_wire_len ep" "n \<le> length buf"
proof -
  note b = HopEndpoint_decode_bounds [OF d]
  have whole: "b # take k (drop 1 buf) @ to_be (from_be (take 2 (drop (Suc k) buf)) :: u16) = take (k + 3) buf"
    if "buf ! 0 = b" "k + 3 \<le> length buf" for b k
  proof -
    have "to_be (from_be (take 2 (drop (Suc k) buf)) :: u16) = take 2 (drop (Suc k) buf)"
      using that by (simp add: to_be_from_be)
    moreover obtain x xs where "buf = x # xs" using b(2) by (cases buf) auto
    ultimately show ?thesis using that take_add [of k 2 xs] by (simp add: numeral_3_eq_3)
  qed
  from d have "endpoint_wf ep \<and> HopEndpoint_encode ep = Ok (take n buf) \<and> n = HopEndpoint_wire_len ep"
    by (cases rule: HopEndpoint_decode_cases) (use b whole [of 1 4] whole [of 2 16] whole [of 4 56] in auto)
  then show "endpoint_wf ep" "HopEndpoint_encode ep = Ok (take n buf)" "n = HopEndpoint_wire_len ep" "n \<le> length buf"
    using b(1) by auto
qed

lemma concat_cont_bodies: "0 < cap \<Longrightarrow> concat (cont_bodies cap msg) = msg"
  by (induction cap msg rule: cont_bodies.induct) (subst cont_bodies.simps, simp)

lemma cont_bodies_fit: "b \<in> set (cont_bodies cap msg) \<Longrightarrow> b \<noteq> [] \<and> length b \<le> cap"
proof (induction cap msg rule: cont_bodies.induct)
  case (1 cap msg)
  then show ?case by (subst (asm) (2) cont_bodies.simps) (auto split: if_splits)
qed

lemma fragment_pieces:
  assumes "fragment h cap msg = (first, conts)" "length h \<le> cap" "0 < cap"
  shows "first = h @ take (cap - length h) msg" "concat conts = drop (cap - length h) msg"
    "length first \<le> cap" "b \<in> set conts \<Longrightarrow> b \<noteq> [] \<and> length b \<le> cap"
proof -
  have e: "min (cap - length h) (length msg) = cap - length h \<or> length msg \<le> cap - length h" by linarith
  have k: "first = h @ take (min (cap - length h) (length msg)) msg"
    "conts = cont_bodies cap (drop (min (cap - length h) (length msg)) msg)"
    using assms(1) by (simp_all add: fragment_def Let_def)
  show "first = h @ take (cap - length h) msg" using k(1) e by auto
  show "concat conts = drop (cap - length h) msg"
    using e assms(3) unfolding k(2) by (auto simp: concat_cont_bodies)
  show "length first \<le> cap" using k(1) assms(2) by simp
  show "b \<in> set conts \<Longrightarrow> b \<noteq> [] \<and> length b \<le> cap" unfolding k(2) by (rule cont_bodies_fit)
qed

lemma msg_decode_partial_ok:
  "msg_decode_partial e1 e2 e3 bound buf = Ok (n, chunk) \<longleftrightarrow>
     2 \<le> length buf \<and> n = unat (from_be (take 2 buf) :: u16) \<and> chunk = drop 2 buf \<and> n \<le> bound \<and> length chunk \<le> n"
  by (auto simp: msg_decode_partial_def Let_def)

lemma HandshakeBody_pieces:
  assumes "HandshakeBody_encode_fragmented m cap = Ok (first, conts)"
  shows "HandshakeBody_decode_partial first = Ok (length m, take (cap - 2) m)" "concat conts = drop (cap - 2) m"
    "length first \<le> cap" "b \<in> set conts \<Longrightarrow> b \<noteq> [] \<and> length b \<le> cap" "length m \<le> MAX_HANDSHAKE_BODY_LEN"
proof -
  let ?h = "to_be (word_of_nat (length m) :: u16)"
  have k: "fragment ?h cap m = (first, conts)" "2 \<le> cap" and l: "length m \<le> MAX_HANDSHAKE_BODY_LEN"
    using assms by (auto simp: HandshakeBody_encode_fragmented_def split: if_splits)
  note p = fragment_pieces [OF k(1)]
  show "concat conts = drop (cap - 2) m" "length first \<le> cap" "b \<in> set conts \<Longrightarrow> b \<noteq> [] \<and> length b \<le> cap"
    using p(2-4) k(2) by auto
  have "first = ?h @ take (cap - 2) m" using p(1) k(2) by simp
  then show "HandshakeBody_decode_partial first = Ok (length m, take (cap - 2) m)"
    using l unat_len16 [of "length m"] by (auto simp: HandshakeBody_decode_partial_def msg_decode_partial_ok body_lens)
  show "length m \<le> MAX_HANDSHAKE_BODY_LEN" by (rule l)
qed

lemma ExtendedBody_pieces:
  assumes "ExtendedBody_encode_fragmented m cap = Ok (first, conts)"
  shows "length m \<le> MAX_HS_MSG2_LEN \<Longrightarrow> ExtendedBody_decode_partial first = Ok (length m, take (cap - 2) m)"
    "concat conts = drop (cap - 2) m" "length first \<le> cap" "b \<in> set conts \<Longrightarrow> b \<noteq> [] \<and> length b \<le> cap"
proof -
  let ?h = "to_be (word_of_nat (length m) :: u16)"
  have k: "fragment ?h cap m = (first, conts)" "2 \<le> cap"
    using assms by (auto simp: ExtendedBody_encode_fragmented_def split: if_splits)
  note p = fragment_pieces [OF k(1)]
  show "concat conts = drop (cap - 2) m" "length first \<le> cap" "b \<in> set conts \<Longrightarrow> b \<noteq> [] \<and> length b \<le> cap"
    using p(2-4) k(2) by auto
  have "first = ?h @ take (cap - 2) m" using p(1) k(2) by simp
  then show "length m \<le> MAX_HS_MSG2_LEN \<Longrightarrow> ExtendedBody_decode_partial first = Ok (length m, take (cap - 2) m)"
    using unat_len16 [of "length m"] by (auto simp: ExtendedBody_decode_partial_def msg_decode_partial_ok body_lens)
qed

lemma ExtendBody_pieces:
  assumes "ExtendBody_encode_fragmented b cap = Ok (first, conts)" "length (eb_next_hop_pk b) = 32"
    "endpoint_wf (eb_endpoint b)"
  defines "k \<equiv> cap - (34 + HopEndpoint_wire_len (eb_endpoint b))"
  shows "length (eb_hs_msg1 b) \<le> MAX_HS_MSG1_LEN \<Longrightarrow> ExtendHeader_decode_partial first =
      Ok (\<lparr>eh_next_hop_pk = eb_next_hop_pk b, eh_endpoint = eb_endpoint b, eh_total_len = length (eb_hs_msg1 b)\<rparr>,
        take k (eb_hs_msg1 b))"
    "concat conts = drop k (eb_hs_msg1 b)" "length first \<le> cap" "x \<in> set conts \<Longrightarrow> x \<noteq> [] \<and> length x \<le> cap"
proof -
  let ?m = "eb_hs_msg1 b" and ?l = "to_be (word_of_nat (length (eb_hs_msg1 b)) :: u16)"
  from assms(1) obtain ep where ep: "HopEndpoint_encode (eb_endpoint b) = Ok ep"
      and f: "fragment (eb_next_hop_pk b @ ep @ ?l) cap ?m = (first, conts)"
      and c: "34 + HopEndpoint_wire_len (eb_endpoint b) \<le> cap"
    by (auto simp: ExtendBody_encode_fragmented_def Let_def split: if_splits sum.splits)
  note d = HopEndpoint_decode_encode [OF assms(3) ep]
  have h: "length (eb_next_hop_pk b @ ep @ ?l) = 34 + HopEndpoint_wire_len (eb_endpoint b)"
    using assms(2) d(2) by simp
  note p = fragment_pieces [OF f, unfolded h, folded k_def]
  show "concat conts = drop k ?m" "length first \<le> cap" "x \<in> set conts \<Longrightarrow> x \<noteq> [] \<and> length x \<le> cap"
    using p(2-4) c by auto
  have first: "first = eb_next_hop_pk b @ ep @ ?l @ take k ?m" using p(1) c by simp
  show "ExtendHeader_decode_partial first =
      Ok (\<lparr>eh_next_hop_pk = eb_next_hop_pk b, eh_endpoint = eb_endpoint b, eh_total_len = length ?m\<rparr>, take k ?m)"
    if "length ?m \<le> MAX_HS_MSG1_LEN"
    using that assms(2) d(1) unat_len16 [of "length ?m"]
    by (simp add: first ExtendHeader_decode_partial_def Let_def body_lens)
qed

lemma ExtendFinishBody_decode_encode:
  "ExtendFinishBody_encode m = Ok bs \<Longrightarrow> ExtendFinishBody_decode bs = Ok m"
  using unat_len16 [of "length m"] by (auto simp: ExtendFinishBody_encode_def ExtendFinishBody_decode_def Let_def split: if_splits)

lemma RelaySubCell_decode_encode:
  assumes "sub_command s \<noteq> 0" "RelaySubCell_encode s = Ok bs"
  shows "RelaySubCell_decode bs = Ok s"
proof -
  have l: "length (sub_body s) \<le> 65535" and bs: "bs = sub_command s # to_be (word_of_nat (length (sub_body s)) :: u16) @ sub_body s"
    using assms(2) by (simp_all add: RelaySubCell_encode_def split: if_split_asm)
  have d: "take 2 (drop 1 bs) = to_be (word_of_nat (length (sub_body s)) :: u16)" "drop (1 + 2) bs = sub_body s"
    "bs ! 0 = sub_command s" "length bs = 1 + 2 + length (sub_body s)" by (simp_all add: bs)
  show ?thesis
    unfolding RelaySubCell_decode_def Let_def RELAY_SUBCELL_HEADER_LEN_def d from_be_to_be_u16 unat_len16 [OF l]
    using assms(1) by simp
qed

end
