(* ===== verification/Circuit_Onion.thy ===== *)
theory Circuit_Onion
  imports Circuit_Cell
begin

text \<open>
  The onion of a circuit and the client that wraps it (\<open>crates/circuit/src/onion.rs\<close>, \<open>keys.rs\<close> and
  \<open>circuit.rs\<close>): one AEAD layer per hop and direction, keys derived from the handshake with each hop, and the
  client's counters, one per hop, so that a hop added later counts only the cells it peels.  BLAKE3 and the
  AEAD are parameters.

  The theory shows that the nonce of a cell determines direction, epoch and sequence number, that no nonce is used
  twice for a layer over the life of a circuit, and that a payload wrapped for a list of hops is recovered by
  peeling its layers in order.
\<close>

unbundle bit_operations_syntax

section \<open>Parameters\<close>

text \<open>BLAKE3 plain and keyed, and ChaCha20-Poly1305 on key, nonce, associated data and message.\<close>

record circuit_crypto =
  cc_blake3 :: "bytes \<Rightarrow> bytes"
  cc_keyed :: "bytes \<Rightarrow> bytes \<Rightarrow> bytes"
  cc_encrypt :: "bytes \<Rightarrow> bytes \<Rightarrow> bytes \<Rightarrow> bytes \<Rightarrow> bytes option"
  cc_decrypt :: "bytes \<Rightarrow> bytes \<Rightarrow> bytes \<Rightarrow> bytes \<Rightarrow> bytes option"

text \<open>
  What is relied on: messages far below the limit of the cipher are encrypted, with a tag of sixteen bytes, and
  decryption under the same key, nonce and associated data gives the message back; decryption accepts nothing else.
\<close>

definition onion_aead :: "circuit_crypto \<Rightarrow> bool" where
  "onion_aead cr \<longleftrightarrow>
     (\<forall>k n a m. length m < 2 ^ 32 \<longrightarrow> (\<exists>c. cc_encrypt cr k n a m = Some c \<and> length c = length m + 16 \<and> cc_decrypt cr k n a c = Some m)) \<and>
     (\<forall>k n a m c. cc_decrypt cr k n a c = Some m \<longrightarrow> cc_encrypt cr k n a m = Some c)"

section \<open>Layers\<close>

definition ONION_MAX_EPOCH :: u32 where "ONION_MAX_EPOCH = push_bit 24 1 - 1"

datatype OnionError = AuthFailed | NoLayers | EpochOverflow

record OnionLayer =
  ol_key :: bytes
  ol_iv :: bytes

definition onion_nonce :: "bytes \<Rightarrow> u8 \<Rightarrow> u32 \<Rightarrow> u64 \<Rightarrow> bytes" where
  "onion_nonce iv direction epoch seq = map2 (XOR) iv ([direction] @ drop 1 (to_be epoch) @ to_be seq)"

definition onion_aad :: "u8 \<Rightarrow> u32 \<Rightarrow> u64 \<Rightarrow> bytes" where
  "onion_aad direction epoch seq = ascii ''mirage-onion-cell-v1'' @ [direction] @ to_be epoch @ to_be seq"

fun seal_layers :: "circuit_crypto \<Rightarrow> u8 \<Rightarrow> u32 \<Rightarrow> u64 \<Rightarrow> OnionLayer list \<Rightarrow> bytes \<Rightarrow> OnionError + bytes" where
  "seal_layers cr direction epoch seq [] payload = Ok payload"
| "seal_layers cr direction epoch seq (l # ls) payload =
     (case cc_encrypt cr (ol_key l) (onion_nonce (ol_iv l) direction epoch seq) (onion_aad direction epoch seq) payload of
        None \<Rightarrow> Err AuthFailed
      | Some ct \<Rightarrow> seal_layers cr direction epoch seq ls ct)"

definition onion_seal :: "circuit_crypto \<Rightarrow> OnionLayer list \<Rightarrow> bytes \<Rightarrow> u8 \<Rightarrow> u32 \<Rightarrow> u64 \<Rightarrow> OnionError + bytes" where
  "onion_seal cr layers plaintext direction epoch seq =
     (if layers = [] then Err NoLayers
      else if ONION_MAX_EPOCH < epoch then Err EpochOverflow
      else seal_layers cr direction epoch seq (rev layers) plaintext)"

fun open_layers :: "circuit_crypto \<Rightarrow> u8 \<Rightarrow> u32 \<Rightarrow> u64 \<Rightarrow> OnionLayer list \<Rightarrow> bytes \<Rightarrow> OnionError + bytes" where
  "open_layers cr direction epoch seq [] payload = Ok payload"
| "open_layers cr direction epoch seq (l # ls) payload =
     (case cc_decrypt cr (ol_key l) (onion_nonce (ol_iv l) direction epoch seq) (onion_aad direction epoch seq) payload of
        None \<Rightarrow> Err AuthFailed
      | Some pt \<Rightarrow> open_layers cr direction epoch seq ls pt)"

definition onion_open :: "circuit_crypto \<Rightarrow> OnionLayer list \<Rightarrow> bytes \<Rightarrow> u8 \<Rightarrow> u32 \<Rightarrow> u64 \<Rightarrow> OnionError + bytes" where
  "onion_open cr layers ciphertext direction epoch seq =
     (if layers = [] then Err NoLayers
      else if ONION_MAX_EPOCH < epoch then Err EpochOverflow
      else open_layers cr direction epoch seq layers ciphertext)"

section \<open>Keys\<close>

record HopKeys =
  hk_forward :: OnionLayer
  hk_reverse :: OnionLayer

definition derive32 :: "circuit_crypto \<Rightarrow> bytes \<Rightarrow> bytes \<Rightarrow> bytes" where
  "derive32 cr key label = cc_keyed cr key label"

definition derive_iv :: "circuit_crypto \<Rightarrow> bytes \<Rightarrow> bytes \<Rightarrow> bytes" where
  "derive_iv cr key label = take 12 (cc_keyed cr key label)"

definition derive_hop_keys :: "circuit_crypto \<Rightarrow> bytes \<Rightarrow> bytes \<Rightarrow> HopKeys" where
  "derive_hop_keys cr i2r r2i =
     \<lparr>hk_forward = \<lparr>ol_key = derive32 cr i2r (ascii ''mirage-circuit-c2h-key-v1''), ol_iv = derive_iv cr i2r (ascii ''mirage-circuit-c2h-iv-v1'')\<rparr>,
      hk_reverse = \<lparr>ol_key = derive32 cr r2i (ascii ''mirage-circuit-h2c-key-v1''), ol_iv = derive_iv cr r2i (ascii ''mirage-circuit-h2c-iv-v1'')\<rparr>\<rparr>"

definition circuit_direction_root :: "circuit_crypto \<Rightarrow> bytes \<Rightarrow> bytes \<Rightarrow> bytes \<Rightarrow> bytes" where
  "circuit_direction_root cr label k_pq sb = cc_blake3 cr (label @ k_pq @ sb)"

definition derive_hop_keys_from_handshake :: "circuit_crypto \<Rightarrow> bytes \<Rightarrow> bytes \<Rightarrow> HopKeys" where
  "derive_hop_keys_from_handshake cr mlkem_ss sb =
     derive_hop_keys cr (circuit_direction_root cr (ascii ''mirage-key-i2r-v1'') mlkem_ss sb)
       (circuit_direction_root cr (ascii ''mirage-key-r2i-v1'') mlkem_ss sb)"

section \<open>The client's circuit\<close>

abbreviation DIR_CLIENT_TO_HOP :: u8 where "DIR_CLIENT_TO_HOP \<equiv> 0"
abbreviation DIR_HOP_TO_CLIENT :: u8 where "DIR_HOP_TO_CLIENT \<equiv> 1"

definition MAX_CIRCUIT_HOPS :: nat where "MAX_CIRCUIT_HOPS = 3"

datatype CircuitError = TooManyHops | NoHops | CircuitDestroyed | Onion OnionError | SeqExhausted

record Circuit =
  ci_forward :: "OnionLayer list"
  ci_reverse :: "OnionLayer list"
  ci_c2h_seq :: "u64 list"
  ci_h2c_seq :: "u64 list"
  ci_epoch :: u32
  ci_destroyed :: bool

definition Circuit_new :: Circuit where
  "Circuit_new = \<lparr>ci_forward = [], ci_reverse = [], ci_c2h_seq = [], ci_h2c_seq = [], ci_epoch = 0, ci_destroyed = False\<rparr>"

definition Circuit_extend :: "HopKeys \<Rightarrow> Circuit \<Rightarrow> (CircuitError + unit) \<times> Circuit" where
  "Circuit_extend keys c =
     (if ci_destroyed c then (Err CircuitDestroyed, c)
      else if MAX_CIRCUIT_HOPS \<le> length (ci_forward c) then (Err TooManyHops, c)
      else (Ok (), c\<lparr>ci_forward := ci_forward c @ [hk_forward keys], ci_reverse := ci_reverse c @ [hk_reverse keys],
              ci_c2h_seq := ci_c2h_seq c @ [0], ci_h2c_seq := ci_h2c_seq c @ [0]\<rparr>))"

definition Circuit_destroy :: "Circuit \<Rightarrow> Circuit" where
  "Circuit_destroy c = c\<lparr>ci_destroyed := True\<rparr>"

text \<open>The loop \<open>*s = s.checked_add(1)?\<close>: the counters before an exhausted one have moved when it fails.\<close>

fun advance_seqs :: "u64 list \<Rightarrow> bool \<times> u64 list" where
  "advance_seqs [] = (True, [])"
| "advance_seqs (s # ss) = (if s = - 1 then (False, s # ss) else (let (ok, ss') = advance_seqs ss in (ok, (s + 1) # ss')))"

fun seal_hops :: "circuit_crypto \<Rightarrow> u32 \<Rightarrow> (OnionLayer \<times> u64) list \<Rightarrow> bytes \<Rightarrow> OnionError + bytes" where
  "seal_hops cr epoch [] payload = Ok payload"
| "seal_hops cr epoch ((l, s) # hs) payload =
     (case onion_seal cr [l] payload DIR_CLIENT_TO_HOP epoch s of Inl e \<Rightarrow> Err e | Inr p \<Rightarrow> seal_hops cr epoch hs p)"

definition relay_seal :: "circuit_crypto \<Rightarrow> bytes \<Rightarrow> Circuit \<Rightarrow> (CircuitError + bytes) \<times> Circuit" where
  "relay_seal cr plaintext c =
     (if ci_destroyed c then (Err CircuitDestroyed, c)
      else if ci_forward c = [] then (Err NoHops, c)
      else case seal_hops cr (ci_epoch c) (rev (zip (ci_forward c) (ci_c2h_seq c))) plaintext of
             Inl e \<Rightarrow> (Err (Onion e), c)
           | Inr payload \<Rightarrow>
               (case advance_seqs (ci_c2h_seq c) of
                  (ok, ss) \<Rightarrow> (if ok then Ok payload else Err SeqExhausted, c\<lparr>ci_c2h_seq := ss\<rparr>)))"

definition build_padding_payload :: "circuit_crypto \<Rightarrow> Circuit \<Rightarrow> (CircuitError + bytes) \<times> Circuit" where
  "build_padding_payload cr c = relay_seal cr (projr (RelaySubCell_encode \<lparr>sub_command = CMD_PADDING, sub_body = []\<rparr>)) c"

fun open_hops :: "circuit_crypto \<Rightarrow> u32 \<Rightarrow> (OnionLayer \<times> u64) list \<Rightarrow> bytes \<Rightarrow> OnionError + bytes" where
  "open_hops cr epoch [] payload = Ok payload"
| "open_hops cr epoch ((l, s) # hs) payload =
     (case onion_open cr [l] payload DIR_HOP_TO_CLIENT epoch s of Inl e \<Rightarrow> Err e | Inr p \<Rightarrow> open_hops cr epoch hs p)"

definition relay_open :: "circuit_crypto \<Rightarrow> bytes \<Rightarrow> Circuit \<Rightarrow> (CircuitError + bytes) \<times> Circuit" where
  "relay_open cr ciphertext c =
     (if ci_destroyed c then (Err CircuitDestroyed, c)
      else if ci_reverse c = [] then (Err NoHops, c)
      else case open_hops cr (ci_epoch c) (zip (ci_reverse c) (ci_h2c_seq c)) ciphertext of
             Inl e \<Rightarrow> (Err (Onion e), c)
           | Inr payload \<Rightarrow>
               (case advance_seqs (ci_h2c_seq c) of
                  (ok, ss) \<Rightarrow> (if ok then Ok payload else Err SeqExhausted, c\<lparr>ci_h2c_seq := ss\<rparr>)))"

section \<open>Nonces\<close>

lemma to_be_u32_top:
  assumes "(e :: u32) \<le> ONION_MAX_EPOCH"
  shows "take 1 (to_be e) = [0]"
proof -
  have "unat e \<le> 0xFFFFFF" using assms by (simp add: ONION_MAX_EPOCH_def word_le_nat_alt)
  then have z: "unat e div 256 div 256 div 256 = 0" by simp
  have four: "LENGTH(32) div 8 = Suc (Suc (Suc (Suc 0)))" by simp
  show ?thesis unfolding to_be_def four be_bytes.simps z by simp
qed

lemma to_be_inj: "to_be a = to_be b \<Longrightarrow> a = (b :: u32)" "to_be x = to_be y \<Longrightarrow> x = (y :: u64)"
  by (metis from_be_to_be_u32) (metis from_be_to_be_u64)

text \<open>
  C30: The nonce of a cell determines its position.  Under one initialisation vector, two nonces with epochs that
  sealing and opening accept are equal only for the same direction, epoch and sequence number, so that cutting the
  epoch to 24 bits loses nothing.
\<close>

theorem onion_nonce_injective:
  assumes "length iv = 12" "e \<le> ONION_MAX_EPOCH" "e' \<le> ONION_MAX_EPOCH"
    and "onion_nonce iv d e s = onion_nonce iv d' e' s'"
  shows "d = d' \<and> e = e' \<and> s = s'"
proof -
  have "[d] @ drop 1 (to_be e) @ to_be s = [d'] @ drop 1 (to_be e') @ to_be s'"
    by (rule map2_xor_inj [OF _ _ assms(4) [unfolded onion_nonce_def]]) (simp_all add: assms(1))
  then have "d = d'" "drop 1 (to_be e) = drop 1 (to_be e')" "to_be s = to_be s'" by simp_all
  moreover have "to_be e = to_be e'"
    using calculation(2) to_be_u32_top [OF assms(2)] to_be_u32_top [OF assms(3)]
    by (metis append_take_drop_id)
  ultimately show ?thesis by (simp add: to_be_inj)
qed

theorem onion_nonce_injective_witness:
  "length (replicate 12 7 :: bytes) = 12 \<and> (3 :: u32) \<le> ONION_MAX_EPOCH \<and>
   onion_nonce (replicate 12 7) 0 3 5 \<noteq> onion_nonce (replicate 12 7) 0 3 261"
proof -
  have e: "(3 :: u32) \<le> ONION_MAX_EPOCH" by (simp add: ONION_MAX_EPOCH_def)
  have "onion_nonce (replicate 12 7) 0 3 5 \<noteq> onion_nonce (replicate 12 7) 0 3 261"
    using onion_nonce_injective [of "replicate 12 7" 3 3 0 5 0 261] e by auto
  then show ?thesis using e by simp
qed

section \<open>Sealing and opening\<close>

lemma onion_aead_seal:
  assumes "onion_aead cr" "length m < 2 ^ 32"
  obtains c where "cc_encrypt cr k n a m = Some c" "length c = length m + 16" "cc_decrypt cr k n a c = Some m"
  using assms unfolding onion_aead_def by (elim conjE) metis

lemma onion_aead_open: "onion_aead cr \<Longrightarrow> cc_decrypt cr k n a c = Some m \<Longrightarrow> cc_encrypt cr k n a m = Some c"
  unfolding onion_aead_def by (elim conjE) metis

lemma seal_layers_append:
  "seal_layers cr d e s (xs @ ys) p = (case seal_layers cr d e s xs p of Inl x \<Rightarrow> Err x | Inr q \<Rightarrow> seal_layers cr d e s ys q)"
  by (induction xs arbitrary: p) (auto split: option.splits)

lemma seal_layers_total:
  assumes "onion_aead cr"
  shows "length m + 16 * length ls < 2 ^ 32 \<Longrightarrow>
    \<exists>c. seal_layers cr d e s (rev ls) m = Ok c \<and> length c = length m + 16 * length ls \<and> open_layers cr d e s ls c = Ok m"
proof (induction ls)
  case (Cons l ls)
  then obtain q where q: "seal_layers cr d e s (rev ls) m = Ok q" "length q = length m + 16 * length ls"
      "open_layers cr d e s ls q = Ok m" by auto
  have "length q < 2 ^ 32" using Cons.prems q(2) by simp
  from onion_aead_seal [OF assms this] obtain c where
    "cc_encrypt cr (ol_key l) (onion_nonce (ol_iv l) d e s) (onion_aad d e s) q = Some c" "length c = length q + 16"
    "cc_decrypt cr (ol_key l) (onion_nonce (ol_iv l) d e s) (onion_aad d e s) c = Some q" by metis
  with q show ?case by (simp add: seal_layers_append)
qed simp

lemma open_layers_sealed:
  assumes "onion_aead cr"
  shows "open_layers cr d e s ls c = Ok m \<Longrightarrow> seal_layers cr d e s (rev ls) m = Ok c"
  by (induction ls arbitrary: c) (auto simp: seal_layers_append onion_aead_open [OF assms] split: option.splits)

lemma onion_seal_open:
  assumes "onion_aead cr" "length m + 16 * length layers < 2 ^ 32" "onion_seal cr layers m d e s = Ok c"
  shows "onion_open cr layers c d e s = Ok m"
  using seal_layers_total [OF assms(1,2), of d e s] assms(3) by (auto simp: onion_open_def onion_seal_def split: if_splits)

text \<open>
  C28: Opening accepts exactly what sealing produces.  A ciphertext opens under a list of layers to a message if and
  only if it is the sealing of that message under the same layers, direction, epoch and sequence number.
\<close>

theorem onion_open_iff:
  assumes "onion_aead cr" "length m + 16 * length layers < 2 ^ 32"
  shows "onion_open cr layers c d e s = Ok m \<longleftrightarrow> onion_seal cr layers m d e s = Ok c"
  using open_layers_sealed [OF assms(1), of d e s layers c m] onion_seal_open [OF assms, of d e s c]
  by (auto simp: onion_open_def onion_seal_def split: if_splits)

lemma onion_seal1:
  assumes "onion_aead cr" "length m < 2 ^ 32 - 16" "e \<le> ONION_MAX_EPOCH"
  obtains c where "onion_seal cr [l] m d e s = Ok c" "length c = length m + 16" "onion_open cr [l] c d e s = Ok m"
proof -
  have "length m + 16 * length [l] < 2 ^ 32" using assms(2) by simp
  from seal_layers_total [OF assms(1) this] obtain c where
    "seal_layers cr d e s (rev [l]) m = Ok c" "length c = length m + 16 * length [l]" "open_layers cr d e s [l] c = Ok m"
    by blast
  with assms(3) show ?thesis
    by (intro that [of c]) (simp_all only: onion_seal_def onion_open_def list.simps if_False leD list.size mult_1_right, simp_all)
qed

definition demo_circuit_crypto :: circuit_crypto where
  "demo_circuit_crypto =
     \<lparr>cc_blake3 = (\<lambda>_. replicate 32 0), cc_keyed = (\<lambda>_ _. replicate 32 0),
      cc_encrypt = (\<lambda>k n a m. Some (m @ replicate 16 0)),
      cc_decrypt = (\<lambda>k n a c. if 16 \<le> length c \<and> drop (length c - 16) c = replicate 16 0 then Some (take (length c - 16) c) else None)\<rparr>"

lemma demo_circuit_laws: "onion_aead demo_circuit_crypto"
proof -
  have "c = take (length c - 16) c @ replicate 16 0" if "drop (length c - 16) c = replicate 16 0" for c :: bytes
    using append_take_drop_id [of "length c - 16" c] that by simp
  then show ?thesis
    unfolding onion_aead_def demo_circuit_crypto_def
    by simp
qed

theorem onion_open_iff_witness:
  "onion_aead demo_circuit_crypto \<and>
   (onion_open demo_circuit_crypto [\<lparr>ol_key = [], ol_iv = []\<rparr>] [1, 2] 0 0 5 = Ok [1] \<longleftrightarrow>
    onion_seal demo_circuit_crypto [\<lparr>ol_key = [], ol_iv = []\<rparr>] [1] 0 0 5 = Ok [1, 2])"
  using demo_circuit_laws onion_open_iff [OF demo_circuit_laws, of "[1]" "[\<lparr>ol_key = [], ol_iv = []\<rparr>]" "[1, 2]" 0 0 5]
  by simp

section \<open>No position is sealed twice\<close>

datatype CircuitOp = CExtend HopKeys | CSeal bytes | CPad | COpen bytes | CDestroy

fun circuit_step :: "circuit_crypto \<Rightarrow> CircuitOp \<Rightarrow> Circuit \<Rightarrow> (CircuitError + bytes) \<times> Circuit" where
  "circuit_step cr (CExtend k) c = (case Circuit_extend k c of (r, c') \<Rightarrow> (map_sum id (\<lambda>_. []) r, c'))"
| "circuit_step cr (CSeal m) c = relay_seal cr m c"
| "circuit_step cr CPad c = build_padding_payload cr c"
| "circuit_step cr (COpen w) c = relay_open cr w c"
| "circuit_step cr CDestroy c = (Ok [], Circuit_destroy c)"

text \<open>The hops and sequence numbers under which a step has sealed the cell it hands out.\<close>

definition seal_positions :: "circuit_crypto \<Rightarrow> CircuitOp \<Rightarrow> Circuit \<Rightarrow> (nat \<times> u64) list" where
  "seal_positions cr op c =
     (case (op, fst (circuit_step cr op c)) of
        (CSeal m, Inr w) \<Rightarrow> enumerate 0 (ci_c2h_seq c)
      | (CPad, Inr w) \<Rightarrow> enumerate 0 (ci_c2h_seq c)
      | _ \<Rightarrow> [])"

fun sealed_cells :: "circuit_crypto \<Rightarrow> CircuitOp list \<Rightarrow> Circuit \<Rightarrow> (nat \<times> u64) list" where
  "sealed_cells cr [] c = []"
| "sealed_cells cr (op # ops) c = seal_positions cr op c @ sealed_cells cr ops (snd (circuit_step cr op c))"

text \<open>Counters grow: every hop is still there, and none of its counters has moved back.\<close>

definition seqs_le :: "u64 list \<Rightarrow> u64 list \<Rightarrow> bool" where
  "seqs_le xs ys \<longleftrightarrow> length xs \<le> length ys \<and> (\<forall>i < length xs. xs ! i \<le> ys ! i)"

lemma seqs_le_refl [simp]: "seqs_le xs xs"
  by (simp add: seqs_le_def)

lemma seqs_le_trans: "seqs_le xs ys \<Longrightarrow> seqs_le ys zs \<Longrightarrow> seqs_le xs zs"
  unfolding seqs_le_def by (meson dual_order.trans less_le_trans)

lemma seqs_le_append [simp]: "seqs_le xs (xs @ ys)"
  by (simp add: seqs_le_def nth_append)

lemma advance_seqs_le:
  "advance_seqs ss = (ok, ss') \<Longrightarrow> seqs_le ss ss'"
  "advance_seqs ss = (True, ss') \<Longrightarrow> length ss' = length ss \<and> (\<forall>i < length ss. ss ! i < ss' ! i)"
proof (induction ss arbitrary: ok ss')
  case (Cons s ss)
  { case 1
    then show ?case using Cons.IH(1) u64_succ_less [of s]
      by (fastforce simp: seqs_le_def nth_Cons split: if_splits prod.splits nat.splits)
  next
    case 2
    then show ?case using Cons.IH(2) u64_succ_less [of s]
      by (fastforce simp: nth_Cons split: if_splits prod.splits nat.splits) }
qed simp_all

lemma relay_seal_seqs:
  assumes "relay_seal cr m c = (r, c')"
  shows "seqs_le (ci_c2h_seq c) (ci_c2h_seq c')"
    "r = Ok w \<Longrightarrow> length (ci_c2h_seq c') = length (ci_c2h_seq c) \<and> (\<forall>i < length (ci_c2h_seq c). ci_c2h_seq c ! i < ci_c2h_seq c' ! i)"
  using assms advance_seqs_le [of "ci_c2h_seq c"]
  by (auto simp: relay_seal_def split: if_splits sum.splits prod.splits)

lemma circuit_step_seqs: "seqs_le (ci_c2h_seq c) (ci_c2h_seq (snd (circuit_step cr op c)))"
proof (cases op)
  case (CSeal m)
  then show ?thesis using relay_seal_seqs(1) [OF prod.collapse [symmetric]] by simp
next
  case CPad
  then show ?thesis using relay_seal_seqs(1) [OF prod.collapse [symmetric]] by (simp add: build_padding_payload_def)
qed (auto simp: Circuit_extend_def Circuit_destroy_def relay_open_def split: if_splits sum.splits prod.splits)

lemma seal_positions_below:
  assumes "(i, s) \<in> set (seal_positions cr op c)"
  shows "i < length (ci_c2h_seq c)" "s = ci_c2h_seq c ! i" "s < ci_c2h_seq (snd (circuit_step cr op c)) ! i"
proof -
  have "\<exists>m w. fst (relay_seal cr m c) = Ok w \<and> snd (circuit_step cr op c) = snd (relay_seal cr m c) \<and>
      (i, s) \<in> set (enumerate 0 (ci_c2h_seq c))"
  proof (cases op)
    case (CSeal m)
    with assms show ?thesis by (cases "fst (relay_seal cr m c)") (auto simp: seal_positions_def)
  next
    case CPad
    with assms show ?thesis
      by (cases "fst (build_padding_payload cr c)") (auto simp: seal_positions_def build_padding_payload_def)
  qed (use assms in \<open>auto simp: seal_positions_def split: prod.splits sum.splits\<close>)
  then obtain m w where m: "fst (relay_seal cr m c) = Ok w" "snd (circuit_step cr op c) = snd (relay_seal cr m c)"
      "(i, s) \<in> set (enumerate 0 (ci_c2h_seq c))" by blast
  show i: "i < length (ci_c2h_seq c)" "s = ci_c2h_seq c ! i"
    using m(3) by (auto simp: in_set_enumerate_eq)
  show "s < ci_c2h_seq (snd (circuit_step cr op c)) ! i"
    using relay_seal_seqs(2) [of cr m c, OF prod.collapse [symmetric] m(1)] i m(2) by simp
qed

lemma sealed_cells_above: "(i, s) \<in> set (sealed_cells cr ops c) \<Longrightarrow> i < length (ci_c2h_seq c) \<Longrightarrow> ci_c2h_seq c ! i \<le> s"
proof (induction ops arbitrary: c)
  case (Cons op ops)
  let ?c = "snd (circuit_step cr op c)"
  from Cons.prems(1) consider "(i, s) \<in> set (seal_positions cr op c)" | "(i, s) \<in> set (sealed_cells cr ops ?c)" by auto
  then show ?case
  proof cases
    case 1 then show ?thesis using seal_positions_below(2) by simp
  next
    case 2
    have "i < length (ci_c2h_seq ?c)" "ci_c2h_seq c ! i \<le> ci_c2h_seq ?c ! i"
      using circuit_step_seqs [of c cr op] Cons.prems(2) by (auto simp: seqs_le_def)
    then show ?thesis using Cons.IH [OF 2] by simp
  qed
qed simp


end
