(* ===== verification/Circuit_Bridge.thy ===== *)
theory Circuit_Bridge
  imports Circuit_Onion
begin

text \<open>
  The circuits of one connection at a bridge (\<open>crates/circuit/src/bridge_circuit.rs\<close>): creation and extension
  with their messages reassembled from several cells, the translation of circuit identifiers between the two links
  of a hop, onion forwarding in both directions, the check of the hop's own capability token on a relay
  session, teardown, and the periodic sweep.  Every handler is a function from the state to a result, which is an
  error or the list of actions for the runtime, and the state it leaves, also when it fails.
\<close>

section \<open>Types\<close>

record BridgePolicy =
  bp_max_circuits :: u32
  bp_max_pending_handshakes :: u32
  bp_idle_ttl :: duration
  bp_creating_timeout :: duration
  bp_extending_timeout :: duration
  bp_pending_extend_timeout :: duration

definition BridgePolicy_default :: BridgePolicy where
  "BridgePolicy_default =
     \<lparr>bp_max_circuits = 64, bp_max_pending_handshakes = 16, bp_idle_ttl = 10 * 60 * 10 ^ 9, bp_creating_timeout = 15 * 10 ^ 9,
      bp_extending_timeout = 30 * 10 ^ 9, bp_pending_extend_timeout = 10 * 10 ^ 9\<rparr>"

datatype CircuitEntryState = Creating | Open | Extending | Destroyed

datatype BridgeCircuitError =
    BridgeWire string
  | BadState u32 CircuitEntryState u8
  | CircuitCap u32
  | PendingCap u32
  | UnknownCircuit u32
  | WrongState u32 CircuitEntryState
  | OutCircIdExhausted u32
  | CellFault CellError
  | ExtendFault ExtendError
  | OnionFault OnionError
  | NoPrevKeys u32
  | BridgeSeqExhausted u32
  | ExtendOverflow u32 nat nat
  | Unauthorized u32

text \<open>\<open>PendingCreate\<close> and \<open>PendingCreated\<close> have the same fields.\<close>

record PendingMsg =
  pm_total_len :: nat
  pm_accumulated :: bytes
  pm_started_at :: instant

record PendingExtend =
  pe_next_hop_pk :: bytes
  pe_endpoint :: HopEndpoint
  pe_total_len :: nat
  pe_accumulated :: bytes
  pe_started_at :: instant

record CircuitEntry =
  out_circ_id :: "u32 option"
  ce_state :: CircuitEntryState
  prev_keys :: "HopKeys option"
  forward_seq :: u64
  reverse_seq :: u64
  state_entered :: instant
  last_activity :: instant
  pending_extend :: "PendingExtend option"
  pending_create :: "PendingMsg option"
  pending_created :: "PendingMsg option"
  token_verified :: bool
  extend_via_relay :: bool

datatype BridgeAction =
    PerformHandshake u32 bytes
  | SendToPrev u32 Cell
  | OpenNextHop u32 u32 bytes HopEndpoint bytes
  | SendToNext u32 Cell
  | DestroyPrevLink u32
  | DestroyNextLink u32
  | RelayPayloadAtExit u32 bytes
  | ForwardExtendFinishToNext u32 bytes
  | VerifyExtendFinish u32 bytes

record BridgeCircuitState =
  circuits :: "(u32, CircuitEntry) hashmap"
  out_to_in :: "(u32, u32) hashmap"
  bc_policy :: BridgePolicy
  out_circ_id_picker :: "u64 \<Rightarrow> u32"
  out_circ_id_seq :: u64
  relay_mode :: bool

type_synonym bridge_result = "(BridgeCircuitError + BridgeAction list) \<times> BridgeCircuitState"

definition put_entry :: "u32 \<Rightarrow> CircuitEntry \<Rightarrow> BridgeCircuitState \<Rightarrow> BridgeCircuitState" where
  "put_entry cid e st = st\<lparr>circuits := hm_insert cid e (circuits st)\<rparr>"

section \<open>Construction and identifiers\<close>

definition deterministic_out_circ_id_picker :: "u64 \<Rightarrow> u32" where
  "deterministic_out_circ_id_picker seq =
     (let mix = seq * 0x9E3779B97F4A7C15; top = ucast (drop_bit 32 mix) :: u32 in if top = 0 then 1 else top)"

text \<open>\<open>seed\<close> is the value \<open>random_seq_seed\<close> draws.\<close>

definition BridgeCircuitState_new :: "u64 \<Rightarrow> BridgePolicy \<Rightarrow> BridgeCircuitState" where
  "BridgeCircuitState_new seed p =
     \<lparr>circuits = [], out_to_in = [], bc_policy = p, out_circ_id_picker = deterministic_out_circ_id_picker,
      out_circ_id_seq = seed, relay_mode = False\<rparr>"

definition BridgeCircuitState_new_relay :: "u64 \<Rightarrow> BridgePolicy \<Rightarrow> BridgeCircuitState" where
  "BridgeCircuitState_new_relay seed p = (BridgeCircuitState_new seed p)\<lparr>relay_mode := True\<rparr>"

definition set_relay_mode :: "bool \<Rightarrow> BridgeCircuitState \<Rightarrow> BridgeCircuitState" where
  "set_relay_mode m st = st\<lparr>relay_mode := m\<rparr>"

definition set_out_circ_id_picker :: "(u64 \<Rightarrow> u32) \<Rightarrow> BridgeCircuitState \<Rightarrow> BridgeCircuitState" where
  "set_out_circ_id_picker pick st = st\<lparr>out_circ_id_picker := pick, out_circ_id_seq := 0\<rparr>"

definition pending_count :: "BridgeCircuitState \<Rightarrow> u32" where
  "pending_count st = word_of_nat (length (filter (\<lambda>(i, e). ce_state e = Creating \<or> ce_state e = Extending) (circuits st)))"

fun alloc_loop :: "nat \<Rightarrow> (u64 \<Rightarrow> u32) \<Rightarrow> (u32, u32) hashmap \<Rightarrow> u64 \<Rightarrow> u32 option \<times> u64" where
  "alloc_loop 0 pick taken seq = (None, seq)"
| "alloc_loop (Suc n) pick taken seq =
     (let seq' = seq + 1; candidate = pick seq' in
      if candidate = 0 \<or> hm_contains taken candidate then alloc_loop n pick taken seq' else (Some candidate, seq'))"

definition allocate_out_circ_id :: "BridgeCircuitState \<Rightarrow> (BridgeCircuitError + u32) \<times> BridgeCircuitState" where
  "allocate_out_circ_id st =
     (case alloc_loop 256 (out_circ_id_picker st) (out_to_in st) (out_circ_id_seq st) of
        (None, s) \<Rightarrow> (Err (OutCircIdExhausted 256), st\<lparr>out_circ_id_seq := s\<rparr>)
      | (Some o', s) \<Rightarrow> (Ok o', st\<lparr>out_circ_id_seq := s\<rparr>))"

section \<open>Sending cells to the previous hop\<close>

fun send_prev :: "u32 \<Rightarrow> (u8 \<times> bytes) list \<Rightarrow> BridgeCircuitError + BridgeAction list" where
  "send_prev cid [] = Ok []"
| "send_prev cid ((cmd, b) # cells) =
     (case Cell_new cid cmd b of
        Inl e \<Rightarrow> Err (CellFault e)
      | Inr c \<Rightarrow> (case send_prev cid cells of Inl e \<Rightarrow> Err e | Inr acts \<Rightarrow> Ok (SendToPrev cid c # acts)))"

text \<open>The loop of \<open>emit_extended\<close> at a deep hop, with the counter it leaves.\<close>

fun wrap_prev :: "circuit_crypto \<Rightarrow> u32 \<Rightarrow> OnionLayer \<Rightarrow> (u8 \<times> bytes) list \<Rightarrow> u64 \<Rightarrow> (BridgeCircuitError + BridgeAction list) \<times> u64" where
  "wrap_prev cr cid layer [] seq = (Ok [], seq)"
| "wrap_prev cr cid layer ((cmd, b) # cells) seq =
     (case RelaySubCell_encode \<lparr>sub_command = cmd, sub_body = b\<rparr> of
        Inl e \<Rightarrow> (Err (ExtendFault e), seq)
      | Inr sub \<Rightarrow>
        (case onion_seal cr [layer] sub DIR_HOP_TO_CLIENT 0 seq of
           Inl e \<Rightarrow> (Err (OnionFault e), seq)
         | Inr sealed \<Rightarrow>
             if seq = - 1 then (Err (BridgeSeqExhausted cid), seq)
             else case Cell_new cid CMD_RELAY sealed of
                    Inl e \<Rightarrow> (Err (CellFault e), seq + 1)
                  | Inr c \<Rightarrow> (case wrap_prev cr cid layer cells (seq + 1) of
                               (Inl e, s) \<Rightarrow> (Err e, s)
                             | (Inr acts, s) \<Rightarrow> (Ok (SendToPrev cid c # acts), s))))"

definition emit_extended :: "circuit_crypto \<Rightarrow> u32 \<Rightarrow> bytes \<Rightarrow> instant \<Rightarrow> BridgeCircuitState \<Rightarrow> bridge_result" where
  "emit_extended cr cid hs_msg2 now st =
     (case hm_get (circuits st) cid of
        None \<Rightarrow> (Err (UnknownCircuit cid), st)
      | Some e0 \<Rightarrow>
        (let e = e0\<lparr>ce_state := Open, state_entered := now, last_activity := now, pending_created := None\<rparr>;
             st1 = put_entry cid e st
         in if \<not> extend_via_relay e then
              (case ExtendedBody_encode_fragmented hs_msg2 MAX_CELL_PAYLOAD of
                 Inl x \<Rightarrow> (Err (ExtendFault x), st1)
               | Inr (first, conts) \<Rightarrow>
                   (send_prev cid ((CMD_EXTENDED, first) # map (Pair CMD_EXTENDED_CONT) conts), st1))
            else
              (case prev_keys e of
                 None \<Rightarrow> (Err (NoPrevKeys cid), st1)
               | Some k \<Rightarrow>
                 (case ExtendedBody_encode_fragmented hs_msg2 (MAX_CELL_PAYLOAD - (MAX_CIRCUIT_HOPS * 16 + RELAY_SUBCELL_HEADER_LEN)) of
                    Inl x \<Rightarrow> (Err (ExtendFault x), st1)
                  | Inr (first, conts) \<Rightarrow>
                    (case wrap_prev cr cid (hk_reverse k) ((CMD_EXTENDED, first) # map (Pair CMD_EXTENDED_CONT) conts) (reverse_seq e) of
                       (r, s) \<Rightarrow> (r, put_entry cid (e\<lparr>reverse_seq := s\<rparr>) st))))))"

section \<open>Handlers for cells of the previous hop\<close>

definition handle_create :: "u32 \<Rightarrow> bytes \<Rightarrow> instant \<Rightarrow> BridgeCircuitState \<Rightarrow> bridge_result" where
  "handle_create cid b now st =
     (case hm_get (circuits st) cid of
        Some e \<Rightarrow> (Err (BadState cid (ce_state e) CMD_CREATE), st)
      | None \<Rightarrow>
        if bp_max_circuits (bc_policy st) \<le> word_of_nat (hm_len (circuits st))
        then (Err (CircuitCap (bp_max_circuits (bc_policy st))), st)
        else if bp_max_pending_handshakes (bc_policy st) \<le> pending_count st
        then (Err (PendingCap (bp_max_pending_handshakes (bc_policy st))), st)
        else case HandshakeBody_decode_partial b of
               Inl x \<Rightarrow> (Err (ExtendFault x), st)
             | Inr (total_len, chunk) \<Rightarrow>
               let partial = length chunk < total_len;
                   e = \<lparr>out_circ_id = None, ce_state = Creating, prev_keys = None, forward_seq = 0, reverse_seq = 0,
                        state_entered = now, last_activity = now, pending_extend = None,
                        pending_create = (if partial then Some \<lparr>pm_total_len = total_len, pm_accumulated = chunk, pm_started_at = now\<rparr> else None),
                        pending_created = None, token_verified = \<not> relay_mode st, extend_via_relay = False\<rparr>
               in (Ok (if partial then [] else [PerformHandshake cid chunk]), put_entry cid e st))"

definition handle_create_cont :: "u32 \<Rightarrow> bytes \<Rightarrow> instant \<Rightarrow> BridgeCircuitState \<Rightarrow> bridge_result" where
  "handle_create_cont cid b now st =
     (case hm_get (circuits st) cid of
        None \<Rightarrow> (Err (UnknownCircuit cid), st)
      | Some e \<Rightarrow>
        if ce_state e \<noteq> Creating then (Err (BadState cid (ce_state e) CMD_CREATE_CONT), st)
        else case pending_create e of
               None \<Rightarrow> (Err (BadState cid (ce_state e) CMD_CREATE_CONT), st)
             | Some p \<Rightarrow>
               let e1 = e\<lparr>pending_create := None\<rparr>; new_total = length (pm_accumulated p) + length b in
               if pm_total_len p < new_total
               then (Err (ExtendOverflow cid new_total (pm_total_len p)), put_entry cid e1 st)
               else
                 let p' = p\<lparr>pm_accumulated := pm_accumulated p @ b\<rparr>; e2 = e1\<lparr>last_activity := now\<rparr> in
                 if length (pm_accumulated p') = pm_total_len p'
                 then (Ok [PerformHandshake cid (pm_accumulated p')], put_entry cid e2 st)
                 else (Ok [], put_entry cid (e2\<lparr>pending_create := Some p'\<rparr>) st))"

definition dispatch_pending_extend :: "u32 \<Rightarrow> PendingExtend \<Rightarrow> instant \<Rightarrow> BridgeCircuitState \<Rightarrow> bridge_result" where
  "dispatch_pending_extend cid p now st =
     (case allocate_out_circ_id st of
        (Inl x, st1) \<Rightarrow> (Err x, st1)
      | (Inr o', st1) \<Rightarrow>
        (case hm_get (circuits st1) cid of
           None \<Rightarrow> (Err (UnknownCircuit cid), st1)
         | Some e \<Rightarrow>
             (Ok [OpenNextHop cid o' (pe_next_hop_pk p) (pe_endpoint p) (pe_accumulated p)],
              (put_entry cid (e\<lparr>ce_state := Extending, state_entered := now, last_activity := now, out_circ_id := Some o',
                 pending_extend := None\<rparr>) st1)\<lparr>out_to_in := hm_insert o' cid (out_to_in st1)\<rparr>)))"

definition handle_extend :: "u32 \<Rightarrow> bytes \<Rightarrow> instant \<Rightarrow> bool \<Rightarrow> BridgeCircuitState \<Rightarrow> bridge_result" where
  "handle_extend cid b now relayed st =
     (case hm_get (circuits st) cid of
        None \<Rightarrow> (Err (UnknownCircuit cid), st)
      | Some e \<Rightarrow>
        if ce_state e \<noteq> Open then (Err (BadState cid (ce_state e) CMD_EXTEND), st)
        else if relay_mode st \<and> \<not> token_verified e then (Err (Unauthorized cid), st)
        else if out_circ_id e \<noteq> None then (Err (BadState cid (ce_state e) CMD_EXTEND), st)
        else if pending_extend e \<noteq> None then (Err (BadState cid (ce_state e) CMD_EXTEND), st)
        else if bp_max_pending_handshakes (bc_policy st) \<le> pending_count st
        then (Err (PendingCap (bp_max_pending_handshakes (bc_policy st))), st)
        else case ExtendHeader_decode_partial b of
               Inl x \<Rightarrow> (Err (ExtendFault x), st)
             | Inr (h, chunk) \<Rightarrow>
               let p = \<lparr>pe_next_hop_pk = eh_next_hop_pk h, pe_endpoint = eh_endpoint h, pe_total_len = eh_total_len h,
                        pe_accumulated = chunk, pe_started_at = now\<rparr>;
                   e1 = e\<lparr>extend_via_relay := relayed, last_activity := now\<rparr>
               in if length (pe_accumulated p) = pe_total_len p then dispatch_pending_extend cid p now (put_entry cid e1 st)
                  else (Ok [], put_entry cid (e1\<lparr>pending_extend := Some p\<rparr>) st))"

definition handle_extend_cont :: "u32 \<Rightarrow> bytes \<Rightarrow> instant \<Rightarrow> BridgeCircuitState \<Rightarrow> bridge_result" where
  "handle_extend_cont cid b now st =
     (case hm_get (circuits st) cid of
        None \<Rightarrow> (Err (UnknownCircuit cid), st)
      | Some e \<Rightarrow>
        if ce_state e \<noteq> Open then (Err (BadState cid (ce_state e) CMD_EXTEND_CONT), st)
        else case pending_extend e of
               None \<Rightarrow> (Err (BadState cid (ce_state e) CMD_EXTEND_CONT), st)
             | Some p \<Rightarrow>
               let e1 = e\<lparr>pending_extend := None\<rparr>; new_total = length (pe_accumulated p) + length b in
               if pe_total_len p < new_total
               then (Err (ExtendOverflow cid new_total (pe_total_len p)), put_entry cid e1 st)
               else
                 let p' = p\<lparr>pe_accumulated := pe_accumulated p @ b\<rparr>; e2 = e1\<lparr>last_activity := now\<rparr> in
                 if length (pe_accumulated p') = pe_total_len p' then dispatch_pending_extend cid p' now (put_entry cid e2 st)
                 else (Ok [], put_entry cid (e2\<lparr>pending_extend := Some p'\<rparr>) st))"

definition handle_extend_finish :: "u32 \<Rightarrow> bytes \<Rightarrow> instant \<Rightarrow> BridgeCircuitState \<Rightarrow> bridge_result" where
  "handle_extend_finish cid b now st =
     (case hm_get (circuits st) cid of
        None \<Rightarrow> (Err (UnknownCircuit cid), st)
      | Some e \<Rightarrow>
        if ce_state e \<noteq> Open then (Err (BadState cid (ce_state e) CMD_EXTEND_FINISH), st)
        else case ExtendFinishBody_decode b of
               Inl x \<Rightarrow> (Err (ExtendFault x), st)
             | Inr hs_msg3 \<Rightarrow>
               let st1 = put_entry cid (e\<lparr>last_activity := now\<rparr>) st in
               (case out_circ_id e of
                  Some o' \<Rightarrow> (Ok [ForwardExtendFinishToNext o' hs_msg3], st1)
                | None \<Rightarrow>
                    if relay_mode st then (Ok [VerifyExtendFinish cid hs_msg3], st1)
                    else (Err (BadState cid (ce_state e) CMD_EXTEND_FINISH), st1)))"

definition record_token_verified :: "u32 \<Rightarrow> BridgeCircuitState \<Rightarrow> (BridgeCircuitError + unit) \<times> BridgeCircuitState" where
  "record_token_verified cid st =
     (case hm_get (circuits st) cid of
        None \<Rightarrow> (Err (UnknownCircuit cid), st)
      | Some e \<Rightarrow> (Ok (), put_entry cid (e\<lparr>token_verified := True\<rparr>) st))"

text \<open>
  Teardown.  \<open>reap_circuit\<close> and \<open>handle_destroy_from_prev\<close> have the same body in the source; the handler for the
  next hop does not send a teardown back to it.
\<close>

definition handle_destroy_from_prev :: "u32 \<Rightarrow> instant \<Rightarrow> BridgeCircuitState \<Rightarrow> BridgeAction list \<times> BridgeCircuitState" where
  "handle_destroy_from_prev cid now st =
     (case hm_get (circuits st) cid of
        None \<Rightarrow> ([], st)
      | Some e \<Rightarrow>
          ((if ce_state e = Destroyed then []
            else (case out_circ_id e of None \<Rightarrow> [] | Some o' \<Rightarrow> [DestroyNextLink o']) @ [DestroyPrevLink cid]),
           put_entry cid (e\<lparr>ce_state := Destroyed, state_entered := now\<rparr>) st))"

definition reap_circuit :: "u32 \<Rightarrow> instant \<Rightarrow> BridgeCircuitState \<Rightarrow> BridgeAction list \<times> BridgeCircuitState" where
  "reap_circuit cid now st =
     (case hm_get (circuits st) cid of
        None \<Rightarrow> ([], st)
      | Some e \<Rightarrow>
          ((if ce_state e = Destroyed then []
            else (case out_circ_id e of None \<Rightarrow> [] | Some o' \<Rightarrow> [DestroyNextLink o']) @ [DestroyPrevLink cid]),
           put_entry cid (e\<lparr>ce_state := Destroyed, state_entered := now\<rparr>) st))"

definition handle_destroy_from_next :: "u32 \<Rightarrow> instant \<Rightarrow> BridgeCircuitState \<Rightarrow> BridgeAction list \<times> BridgeCircuitState" where
  "handle_destroy_from_next cid now st =
     (case hm_get (circuits st) cid of
        None \<Rightarrow> ([], st)
      | Some e \<Rightarrow>
          (if ce_state e = Destroyed then [] else [DestroyPrevLink cid],
           put_entry cid (e\<lparr>ce_state := Destroyed, state_entered := now\<rparr>) st))"

text \<open>What a hop does with the bytes under its layer, once its counter has moved.\<close>

definition relay_dispatch :: "u32 \<Rightarrow> bytes \<Rightarrow> instant \<Rightarrow> CircuitEntry \<Rightarrow> BridgeCircuitState \<Rightarrow> bridge_result" where
  "relay_dispatch cid peeled now e st =
     (let cmd = (case RelaySubCell_decode peeled of Inl x \<Rightarrow> CMD_RESERVED | Inr sub \<Rightarrow> sub_command sub);
          b = (case RelaySubCell_decode peeled of Inl x \<Rightarrow> [] | Inr sub \<Rightarrow> sub_body sub)
      in if cmd = CMD_EXTEND then handle_extend cid b now True st
         else if cmd = CMD_EXTEND_CONT then handle_extend_cont cid b now st
         else if cmd = CMD_EXTEND_FINISH then handle_extend_finish cid b now st
         else if cmd = CMD_DESTROY then map_prod Ok id (handle_destroy_from_prev cid now st)
         else if cmd = CMD_PADDING then (Ok [], st)
         else if relay_mode st \<and> \<not> token_verified e then (Err (Unauthorized cid), st)
         else case out_circ_id e of
                Some o' \<Rightarrow> (case Cell_new o' CMD_RELAY peeled of
                             Inl x \<Rightarrow> (Err (CellFault x), st)
                           | Inr c \<Rightarrow> (Ok [SendToNext o' c], st))
              | None \<Rightarrow> (Ok [RelayPayloadAtExit cid peeled], st))"

definition handle_relay_from_prev :: "circuit_crypto \<Rightarrow> u32 \<Rightarrow> bytes \<Rightarrow> instant \<Rightarrow> BridgeCircuitState \<Rightarrow> bridge_result" where
  "handle_relay_from_prev cr cid b now st =
     (case hm_get (circuits st) cid of
        None \<Rightarrow> (Err (UnknownCircuit cid), st)
      | Some e \<Rightarrow>
        if ce_state e \<noteq> Open then (Err (BadState cid (ce_state e) CMD_RELAY), st)
        else case prev_keys e of
               None \<Rightarrow> (Err (NoPrevKeys cid), st)
             | Some k \<Rightarrow>
               (case onion_open cr [hk_forward k] b DIR_CLIENT_TO_HOP 0 (forward_seq e) of
                  Inl x \<Rightarrow> (Err (OnionFault x), st)
                | Inr peeled \<Rightarrow>
                    if forward_seq e = - 1 then (Err (BridgeSeqExhausted cid), st)
                    else
                      let e1 = e\<lparr>forward_seq := forward_seq e + 1, last_activity := now\<rparr>
                      in relay_dispatch cid peeled now e1 (put_entry cid e1 st)))"

definition process_inbound_from_prev :: "circuit_crypto \<Rightarrow> Cell \<Rightarrow> instant \<Rightarrow> BridgeCircuitState \<Rightarrow> bridge_result" where
  "process_inbound_from_prev cr c now st =
     (let cid = c_circ_id c; cmd = c_command c; b = c_body c in
      if cmd = CMD_CREATE then handle_create cid b now st
      else if cmd = CMD_CREATE_CONT then handle_create_cont cid b now st
      else if cmd = CMD_EXTEND then handle_extend cid b now False st
      else if cmd = CMD_EXTEND_CONT then handle_extend_cont cid b now st
      else if cmd = CMD_EXTEND_FINISH then handle_extend_finish cid b now st
      else if cmd = CMD_DESTROY then map_prod Ok id (handle_destroy_from_prev cid now st)
      else if cmd = CMD_RELAY then handle_relay_from_prev cr cid b now st
      else case hm_get (circuits st) cid of
             None \<Rightarrow> (Err (UnknownCircuit cid), st)
           | Some e \<Rightarrow> (Err (BadState cid (ce_state e) cmd), st))"

section \<open>Handlers for cells of the next hop\<close>

definition handle_created_from_next :: "circuit_crypto \<Rightarrow> u32 \<Rightarrow> bytes \<Rightarrow> instant \<Rightarrow> BridgeCircuitState \<Rightarrow> bridge_result" where
  "handle_created_from_next cr cid b now st =
     (case HandshakeBody_decode_partial b of
        Inl x \<Rightarrow> (Err (ExtendFault x), st)
      | Inr (total_len, chunk) \<Rightarrow>
        (case hm_get (circuits st) cid of
           None \<Rightarrow> (Err (UnknownCircuit cid), st)
         | Some e \<Rightarrow>
           if ce_state e \<noteq> Extending then (Err (WrongState cid (ce_state e)), st)
           else
             let e1 = e\<lparr>last_activity := now\<rparr> in
             if length chunk < total_len
             then (Ok [], put_entry cid (e1\<lparr>pending_created := Some \<lparr>pm_total_len = total_len, pm_accumulated = chunk, pm_started_at = now\<rparr>\<rparr>) st)
             else emit_extended cr cid chunk now (put_entry cid e1 st)))"

definition handle_created_cont_from_next :: "circuit_crypto \<Rightarrow> u32 \<Rightarrow> bytes \<Rightarrow> instant \<Rightarrow> BridgeCircuitState \<Rightarrow> bridge_result" where
  "handle_created_cont_from_next cr cid b now st =
     (case hm_get (circuits st) cid of
        None \<Rightarrow> (Err (UnknownCircuit cid), st)
      | Some e \<Rightarrow>
        if ce_state e \<noteq> Extending then (Err (WrongState cid (ce_state e)), st)
        else case pending_created e of
               None \<Rightarrow> (Err (WrongState cid (ce_state e)), st)
             | Some p \<Rightarrow>
               let e1 = e\<lparr>pending_created := None\<rparr>; new_total = length (pm_accumulated p) + length b in
               if pm_total_len p < new_total
               then (Err (ExtendOverflow cid new_total (pm_total_len p)), put_entry cid e1 st)
               else
                 let p' = p\<lparr>pm_accumulated := pm_accumulated p @ b\<rparr>; e2 = e1\<lparr>last_activity := now\<rparr> in
                 if length (pm_accumulated p') = pm_total_len p' then emit_extended cr cid (pm_accumulated p') now (put_entry cid e2 st)
                 else (Ok [], put_entry cid (e2\<lparr>pending_created := Some p'\<rparr>) st))"

definition handle_relay_from_next :: "circuit_crypto \<Rightarrow> u32 \<Rightarrow> bytes \<Rightarrow> instant \<Rightarrow> BridgeCircuitState \<Rightarrow> bridge_result" where
  "handle_relay_from_next cr cid b now st =
     (case hm_get (circuits st) cid of
        None \<Rightarrow> (Err (UnknownCircuit cid), st)
      | Some e \<Rightarrow>
        if ce_state e \<noteq> Open then (Err (BadState cid (ce_state e) CMD_RELAY), st)
        else case prev_keys e of
               None \<Rightarrow> (Err (NoPrevKeys cid), st)
             | Some k \<Rightarrow>
               (case onion_seal cr [hk_reverse k] b DIR_HOP_TO_CLIENT 0 (reverse_seq e) of
                  Inl x \<Rightarrow> (Err (OnionFault x), st)
                | Inr wrapped \<Rightarrow>
                    if reverse_seq e = - 1 then (Err (BridgeSeqExhausted cid), st)
                    else
                      let st1 = put_entry cid (e\<lparr>reverse_seq := reverse_seq e + 1, last_activity := now\<rparr>) st in
                      (case Cell_new cid CMD_RELAY wrapped of
                         Inl x \<Rightarrow> (Err (CellFault x), st1)
                       | Inr c \<Rightarrow> (Ok [SendToPrev cid c], st1))))"

definition inject_exit_response :: "circuit_crypto \<Rightarrow> u32 \<Rightarrow> bytes \<Rightarrow> instant \<Rightarrow> BridgeCircuitState \<Rightarrow> bridge_result" where
  "inject_exit_response cr cid payload now st = handle_relay_from_next cr cid payload now st"

definition process_inbound_from_next :: "circuit_crypto \<Rightarrow> Cell \<Rightarrow> instant \<Rightarrow> BridgeCircuitState \<Rightarrow> bridge_result" where
  "process_inbound_from_next cr c now st =
     (case hm_get (out_to_in st) (c_circ_id c) of
        None \<Rightarrow> (Err (UnknownCircuit (c_circ_id c)), st)
      | Some cid \<Rightarrow>
        (let cmd = c_command c; b = c_body c in
         if cmd = CMD_CREATED then handle_created_from_next cr cid b now st
         else if cmd = CMD_CREATED_CONT then handle_created_cont_from_next cr cid b now st
         else if cmd = CMD_DESTROY then map_prod Ok id (handle_destroy_from_next cid now st)
         else if cmd = CMD_RELAY then handle_relay_from_next cr cid b now st
         else case hm_get (circuits st) cid of
                None \<Rightarrow> (Err (UnknownCircuit cid), st)
              | Some e \<Rightarrow> (Err (BadState cid (ce_state e) cmd), st)))"

section \<open>Completion and failure of handshakes\<close>

definition record_create_complete :: "u32 \<Rightarrow> HopKeys \<Rightarrow> bytes \<Rightarrow> instant \<Rightarrow> BridgeCircuitState \<Rightarrow> bridge_result" where
  "record_create_complete cid keys hs_msg2 now st =
     (case hm_get (circuits st) cid of
        None \<Rightarrow> (Err (UnknownCircuit cid), st)
      | Some e \<Rightarrow>
        if ce_state e \<noteq> Creating then (Err (WrongState cid (ce_state e)), st)
        else
          let st1 = put_entry cid (e\<lparr>ce_state := Open, state_entered := now, last_activity := now, prev_keys := Some keys\<rparr>) st in
          (case HandshakeBody_encode_fragmented hs_msg2 MAX_CELL_PAYLOAD of
             Inl x \<Rightarrow> (Err (ExtendFault x), st1)
           | Inr (first, conts) \<Rightarrow> (send_prev cid ((CMD_CREATED, first) # map (Pair CMD_CREATED_CONT) conts), st1)))"

definition record_create_failure :: "u32 \<Rightarrow> instant \<Rightarrow> BridgeCircuitState \<Rightarrow> bridge_result" where
  "record_create_failure cid now st =
     (case hm_get (circuits st) cid of
        None \<Rightarrow> (Err (UnknownCircuit cid), st)
      | Some e \<Rightarrow>
        if ce_state e \<noteq> Creating then (Err (WrongState cid (ce_state e)), st)
        else (Ok [DestroyPrevLink cid], put_entry cid (e\<lparr>ce_state := Destroyed, state_entered := now\<rparr>) st))"

definition record_extend_complete :: "circuit_crypto \<Rightarrow> u32 \<Rightarrow> bytes \<Rightarrow> instant \<Rightarrow> BridgeCircuitState \<Rightarrow> bridge_result" where
  "record_extend_complete cr cid hs_msg2 now st =
     (case hm_get (circuits st) cid of
        None \<Rightarrow> (Err (UnknownCircuit cid), st)
      | Some e \<Rightarrow>
        if ce_state e \<noteq> Extending then (Err (WrongState cid (ce_state e)), st)
        else emit_extended cr cid hs_msg2 now st)"

definition record_extend_failure :: "u32 \<Rightarrow> instant \<Rightarrow> BridgeCircuitState \<Rightarrow> bridge_result" where
  "record_extend_failure cid now st =
     (case hm_get (circuits st) cid of
        None \<Rightarrow> (Err (UnknownCircuit cid), st)
      | Some e \<Rightarrow>
        if ce_state e \<noteq> Extending then (Err (WrongState cid (ce_state e)), st)
        else (Ok (DestroyPrevLink cid # (case out_circ_id e of None \<Rightarrow> [] | Some o' \<Rightarrow> [DestroyNextLink o'])),
              put_entry cid (e\<lparr>ce_state := Destroyed, state_entered := now\<rparr>) st))"

section \<open>The periodic sweep\<close>

definition expired :: "BridgePolicy \<Rightarrow> instant \<Rightarrow> CircuitEntry \<Rightarrow> bool" where
  "expired p now e \<longleftrightarrow>
     (let stale = (\<lambda>t. bp_pending_extend_timeout p \<le> saturating_duration_since now t) in
      (case pending_extend e of None \<Rightarrow> False | Some x \<Rightarrow> stale (pe_started_at x)) \<or>
      (case pending_create e of None \<Rightarrow> False | Some x \<Rightarrow> stale (pm_started_at x)) \<or>
      (case pending_created e of None \<Rightarrow> False | Some x \<Rightarrow> stale (pm_started_at x)) \<or>
      (case ce_state e of
         Creating \<Rightarrow> bp_creating_timeout p \<le> saturating_duration_since now (state_entered e)
       | Extending \<Rightarrow> bp_extending_timeout p \<le> saturating_duration_since now (state_entered e)
       | Open \<Rightarrow> bp_idle_ttl p \<le> saturating_duration_since now (last_activity e)
       | Destroyed \<Rightarrow> True))"

fun reap_victims :: "(u32 \<times> CircuitEntryState) list \<Rightarrow> BridgeCircuitState \<Rightarrow> BridgeAction list \<times> BridgeCircuitState" where
  "reap_victims [] st = ([], st)"
| "reap_victims ((cid, s) # victims) st =
     (let o' = (case hm_get (circuits st) cid of None \<Rightarrow> None | Some e \<Rightarrow> out_circ_id e);
          acts = (if s \<noteq> Destroyed then [DestroyPrevLink cid] else []) @
                 (case o' of None \<Rightarrow> [] | Some x \<Rightarrow> if s \<noteq> Destroyed then [DestroyNextLink x] else []);
          st1 = st\<lparr>out_to_in := (case o' of None \<Rightarrow> out_to_in st | Some x \<Rightarrow> hm_remove x (out_to_in st)),
                   circuits := hm_remove cid (circuits st)\<rparr>
      in case reap_victims victims st1 of (rest, st2) \<Rightarrow> (acts @ rest, st2))"

text \<open>\<open>ord\<close> is the order in which the map of circuits is iterated.\<close>

definition bridge_tick :: "((u32, CircuitEntry) hashmap \<Rightarrow> (u32 \<times> CircuitEntry) list) \<Rightarrow> instant \<Rightarrow> BridgeCircuitState
    \<Rightarrow> BridgeAction list \<times> BridgeCircuitState" where
  "bridge_tick ord now st =
     reap_victims (map (\<lambda>(i, e). (i, ce_state e)) (filter (\<lambda>(i, e). expired (bc_policy st) now e) (ord (circuits st)))) st"

section \<open>Runs\<close>

datatype BridgeOp =
    FromPrev Cell instant
  | FromNext Cell instant
  | CreateComplete u32 HopKeys bytes instant
  | CreateFailure u32 instant
  | ExtendComplete u32 bytes instant
  | ExtendFailure u32 instant
  | InjectExit u32 bytes instant
  | TokenVerified u32
  | Reap u32 instant
  | Tick instant

type_synonym circuit_order = "(u32, CircuitEntry) hashmap \<Rightarrow> (u32 \<times> CircuitEntry) list"

fun bridge_step :: "circuit_crypto \<Rightarrow> circuit_order \<Rightarrow> BridgeOp \<Rightarrow> BridgeCircuitState \<Rightarrow> bridge_result" where
  "bridge_step cr ord (FromPrev c now) st = process_inbound_from_prev cr c now st"
| "bridge_step cr ord (FromNext c now) st = process_inbound_from_next cr c now st"
| "bridge_step cr ord (CreateComplete cid k m now) st = record_create_complete cid k m now st"
| "bridge_step cr ord (CreateFailure cid now) st = record_create_failure cid now st"
| "bridge_step cr ord (ExtendComplete cid m now) st = record_extend_complete cr cid m now st"
| "bridge_step cr ord (ExtendFailure cid now) st = record_extend_failure cid now st"
| "bridge_step cr ord (InjectExit cid m now) st = inject_exit_response cr cid m now st"
| "bridge_step cr ord (TokenVerified cid) st = map_prod (map_sum id (\<lambda>_. [])) id (record_token_verified cid st)"
| "bridge_step cr ord (Reap cid now) st = map_prod Ok id (reap_circuit cid now st)"
| "bridge_step cr ord (Tick now) st = map_prod Ok id (bridge_tick ord now st)"

fun bridge_run :: "circuit_crypto \<Rightarrow> circuit_order \<Rightarrow> BridgeOp list \<Rightarrow> BridgeCircuitState
    \<Rightarrow> (BridgeCircuitError + BridgeAction list) list \<times> BridgeCircuitState" where
  "bridge_run cr ord [] st = ([], st)"
| "bridge_run cr ord (op # ops) st =
     (case bridge_step cr ord op st of (r, st1) \<Rightarrow> (case bridge_run cr ord ops st1 of (rs, st2) \<Rightarrow> (r # rs, st2)))"

section \<open>The invariant\<close>

definition msg_bounded :: "PendingMsg option \<Rightarrow> bool" where
  "msg_bounded x = (case x of None \<Rightarrow> True
     | Some p \<Rightarrow> length (pm_accumulated p) < pm_total_len p \<and> pm_total_len p \<le> MAX_HANDSHAKE_BODY_LEN)"

definition extend_bounded :: "PendingExtend option \<Rightarrow> bool" where
  "extend_bounded x = (case x of None \<Rightarrow> True
     | Some p \<Rightarrow> length (pe_accumulated p) < pe_total_len p \<and> pe_total_len p \<le> MAX_HS_MSG1_LEN)"

text \<open>
  What holds of every entry: reassembly buffers are incomplete and bounded; keys are there when cells are accepted;
  an extension in progress or done excludes another one; and on a relay session both need the token of this hop.
\<close>

definition entry_ok :: "bool \<Rightarrow> CircuitEntry \<Rightarrow> bool" where
  "entry_ok relay e \<longleftrightarrow>
     extend_bounded (pending_extend e) \<and> msg_bounded (pending_create e) \<and> msg_bounded (pending_created e) \<and>
     (pending_extend e = None \<or> out_circ_id e = None) \<and>
     (relay \<longrightarrow> token_verified e \<or> out_circ_id e = None \<and> pending_extend e = None) \<and>
     (ce_state e = Creating \<longrightarrow> out_circ_id e = None \<and> pending_extend e = None) \<and>
     (ce_state e = Extending \<longrightarrow> out_circ_id e \<noteq> None) \<and>
     (ce_state e = Open \<or> ce_state e = Extending \<longrightarrow> prev_keys e \<noteq> None)"

definition bridge_inv :: "BridgeCircuitState \<Rightarrow> bool" where
  "bridge_inv st \<longleftrightarrow>
     hm_wf (circuits st) \<and> hm_wf (out_to_in st) \<and> hm_len (circuits st) \<le> unat (bp_max_circuits (bc_policy st)) \<and>
     (\<forall>i e. hm_get (circuits st) i = Some e \<longrightarrow> entry_ok (relay_mode st) e) \<and>
     (\<forall>x i. hm_get (out_to_in st) x = Some i \<longleftrightarrow> (\<exists>e. hm_get (circuits st) i = Some e \<and> out_circ_id e = Some x)) \<and>
     hm_get (out_to_in st) 0 = None"

lemma bridge_inv_entry: "bridge_inv st \<Longrightarrow> hm_get (circuits st) i = Some e \<Longrightarrow> entry_ok (relay_mode st) e"
  by (simp add: bridge_inv_def)

lemma put_entry_simps [simp]:
  "out_to_in (put_entry i e st) = out_to_in st" "bc_policy (put_entry i e st) = bc_policy st"
  "relay_mode (put_entry i e st) = relay_mode st" "out_circ_id_picker (put_entry i e st) = out_circ_id_picker st"
  "out_circ_id_seq (put_entry i e st) = out_circ_id_seq st"
  "circuits (put_entry i e st) = hm_insert i e (circuits st)"
  by (simp_all add: put_entry_def)

lemma put_inv:
  assumes inv: "bridge_inv st" and e: "hm_get (circuits st) i = Some e"
    and ok: "entry_ok (relay_mode st) e'" and out: "out_circ_id e' = out_circ_id e"
  shows "bridge_inv (put_entry i e' st)"
  using inv e ok out by (auto simp: bridge_inv_def hm_laws hm.len_ins_old)

lemma entry_ok_fields:
  assumes "entry_ok r e"
  shows "entry_ok r (e\<lparr>last_activity := t\<rparr>)" "entry_ok r (e\<lparr>forward_seq := s\<rparr>)" "entry_ok r (e\<lparr>reverse_seq := s\<rparr>)"
    "entry_ok r (e\<lparr>state_entered := t\<rparr>)" "entry_ok r (e\<lparr>extend_via_relay := b\<rparr>)" "entry_ok r (e\<lparr>token_verified := True\<rparr>)"
    "entry_ok r (e\<lparr>ce_state := Destroyed\<rparr>)" "entry_ok r (e\<lparr>pending_extend := None\<rparr>)" "entry_ok r (e\<lparr>pending_create := None\<rparr>)"
    "entry_ok r (e\<lparr>pending_created := None\<rparr>)" "msg_bounded m \<Longrightarrow> entry_ok r (e\<lparr>pending_create := m\<rparr>)"
    "msg_bounded m \<Longrightarrow> entry_ok r (e\<lparr>pending_created := m\<rparr>)"
    "ce_state e = Extending \<Longrightarrow> entry_ok r (e\<lparr>ce_state := Open\<rparr>)"
    "ce_state e = Creating \<Longrightarrow> entry_ok r (e\<lparr>ce_state := Open, prev_keys := Some k\<rparr>)"
    "extend_bounded p \<Longrightarrow> out_circ_id e = None \<Longrightarrow> \<not> r \<or> token_verified e \<Longrightarrow> ce_state e \<noteq> Creating \<Longrightarrow> entry_ok r (e\<lparr>pending_extend := p\<rparr>)"
  using assms by (auto simp: entry_ok_def msg_bounded_def extend_bounded_def)

lemma alloc_loop_fresh: "alloc_loop n pick taken s = (Some x, s') \<Longrightarrow> x \<noteq> 0 \<and> hm_get taken x = None"
  by (induction n arbitrary: s) (auto simp: Let_def hm_contains_def split: if_splits)

lemma allocate_out_circ_id_state: "\<exists>s. snd (allocate_out_circ_id st) = st\<lparr>out_circ_id_seq := s\<rparr>"
  by (auto simp: allocate_out_circ_id_def split: prod.splits option.splits)

lemma seq_inv: "bridge_inv (st\<lparr>out_circ_id_seq := s\<rparr>) = bridge_inv st"
  by (simp add: bridge_inv_def)

lemma dispatch_inv:
  assumes inv: "bridge_inv st" and e: "hm_get (circuits st) cid = Some e" "out_circ_id e = None" "prev_keys e \<noteq> None"
    and tok: "relay_mode st \<Longrightarrow> token_verified e"
  shows "bridge_inv (snd (dispatch_pending_extend cid p now st))"
proof (cases "alloc_loop 256 (out_circ_id_picker st) (out_to_in st) (out_circ_id_seq st)")
  case (Pair r s)
  show ?thesis
  proof (cases r)
    case None
    with Pair inv show ?thesis by (simp add: dispatch_pending_extend_def allocate_out_circ_id_def seq_inv)
  next
    case (Some x)
    with Pair have x: "x \<noteq> 0" "hm_get (out_to_in st) x = None" using alloc_loop_fresh by blast+
    let ?e = "e\<lparr>ce_state := Extending, state_entered := now, last_activity := now, out_circ_id := Some x, pending_extend := None\<rparr>"
    have ok: "entry_ok (relay_mode st) ?e"
      using bridge_inv_entry [OF inv e(1)] e(3) tok by (auto simp: entry_ok_def extend_bounded_def)
    have "snd (dispatch_pending_extend cid p now st) =
        (put_entry cid ?e (st\<lparr>out_circ_id_seq := s\<rparr>))\<lparr>out_to_in := hm_insert x cid (out_to_in st)\<rparr>"
      using Pair Some e(1) by (simp add: dispatch_pending_extend_def allocate_out_circ_id_def)
    moreover have "out_circ_id ea \<noteq> Some x" if "hm_get (circuits st) i = Some ea" for i ea
      using inv x(2) that unfolding bridge_inv_def by (metis option.distinct(1))
    ultimately show ?thesis
      using inv e x ok by (auto simp: bridge_inv_def put_entry_def hm_laws hm.len_ins_old)
  qed
qed

lemma put_new_inv:
  assumes inv: "bridge_inv st" and new: "hm_get (circuits st) i = None" "out_circ_id e = None" "entry_ok (relay_mode st) e"
    and room: "hm_len (circuits st) < unat (bp_max_circuits (bc_policy st))"
  shows "bridge_inv (put_entry i e st)"
  using assms by (auto simp: bridge_inv_def hm_laws hm.len_ins_new)

lemmas entry_simps = entry_ok_def msg_bounded_def extend_bounded_def

lemma handle_create_inv: "bridge_inv st \<Longrightarrow> bridge_inv (snd (handle_create cid b now st))"
proof -
  assume inv: "bridge_inv st"
  have room: "hm_len (circuits st) < unat (bp_max_circuits (bc_policy st))"
    if "\<not> bp_max_circuits (bc_policy st) \<le> word_of_nat (hm_len (circuits st))"
  proof -
    have "unat (bp_max_circuits (bc_policy st)) < 2 ^ LENGTH(32)" by (rule unsigned_less)
    then have "hm_len (circuits st) < 2 ^ 32" using inv by (simp add: bridge_inv_def)
    with that show ?thesis by (simp add: word_le_nat_alt unat_of_nat)
  qed
  have dec: "HandshakeBody_decode_partial b = Ok (n, chunk) \<Longrightarrow> n \<le> MAX_HANDSHAKE_BODY_LEN" for n chunk
    by (simp add: HandshakeBody_decode_partial_def msg_decode_partial_ok)
  show ?thesis
    using inv room dec
    by (auto simp: handle_create_def Let_def entry_simps intro!: put_new_inv split: option.splits sum.splits if_splits)
qed

lemma handle_create_cont_inv: "bridge_inv st \<Longrightarrow> bridge_inv (snd (handle_create_cont cid b now st))"
  using bridge_inv_entry [of st cid]
  by (auto simp: handle_create_cont_def Let_def entry_simps intro!: put_inv split: option.splits if_splits)

lemma ExtendHeader_total: "ExtendHeader_decode_partial b = Ok (h, chunk) \<Longrightarrow> eh_total_len h \<le> MAX_HS_MSG1_LEN \<and> length chunk \<le> eh_total_len h"
  by (auto simp: ExtendHeader_decode_partial_def Let_def split: if_splits sum.splits)

lemma handle_extend_inv:
  assumes inv: "bridge_inv st"
  shows "bridge_inv (snd (handle_extend cid b now relayed st))"
proof (cases "hm_get (circuits st) cid")
  case (Some e)
  note ok = bridge_inv_entry [OF inv Some]
  have keep: "bridge_inv (put_entry cid e' st)" if "entry_ok (relay_mode st) e'" "out_circ_id e' = out_circ_id e" for e'
    using put_inv [OF inv Some that] .
  have go: "bridge_inv (snd (dispatch_pending_extend cid p now (put_entry cid e' st)))"
    if "entry_ok (relay_mode st) e'" "out_circ_id e' = None" "out_circ_id e = None" "prev_keys e' \<noteq> None" "relay_mode st \<Longrightarrow> token_verified e'" for e' p
    by (rule dispatch_inv [OF keep]) (use that in \<open>auto simp: hm_laws\<close>)
  show ?thesis
    using ok Some inv
    by (auto simp: handle_extend_def Let_def entry_simps split: if_splits sum.splits dest!: ExtendHeader_total intro!: keep go)
qed (simp add: handle_extend_def inv)

lemma handle_extend_cont_inv:
  assumes inv: "bridge_inv st"
  shows "bridge_inv (snd (handle_extend_cont cid b now st))"
proof (cases "hm_get (circuits st) cid")
  case (Some e)
  note ok = bridge_inv_entry [OF inv Some]
  have keep: "bridge_inv (put_entry cid e' st)" if "entry_ok (relay_mode st) e'" "out_circ_id e' = out_circ_id e" for e'
    using put_inv [OF inv Some that] .
  have go: "bridge_inv (snd (dispatch_pending_extend cid p now (put_entry cid e' st)))"
    if "entry_ok (relay_mode st) e'" "out_circ_id e' = None" "out_circ_id e = None" "prev_keys e' \<noteq> None" "relay_mode st \<Longrightarrow> token_verified e'" for e' p
    by (rule dispatch_inv [OF keep]) (use that in \<open>auto simp: hm_laws\<close>)
  show ?thesis
    using ok Some inv
    by (auto simp: handle_extend_cont_def Let_def entry_simps split: if_splits option.splits intro!: keep go)
qed (simp add: handle_extend_cont_def inv)

lemma handle_extend_finish_inv: "bridge_inv st \<Longrightarrow> bridge_inv (snd (handle_extend_finish cid b now st))"
  using bridge_inv_entry [of st cid]
  by (auto simp: handle_extend_finish_def Let_def intro!: put_inv entry_ok_fields split: option.splits sum.splits if_splits)

lemma teardown_inv:
  assumes "bridge_inv st"
  shows "bridge_inv (snd (handle_destroy_from_prev cid now st))" "bridge_inv (snd (reap_circuit cid now st))"
    "bridge_inv (snd (handle_destroy_from_next cid now st))" "bridge_inv (snd (record_create_failure cid now st))"
    "bridge_inv (snd (record_extend_failure cid now st))" "bridge_inv (snd (record_token_verified cid st))"
  using assms bridge_inv_entry [of st cid]
  by (auto simp: handle_destroy_from_prev_def reap_circuit_def handle_destroy_from_next_def record_create_failure_def
      record_extend_failure_def record_token_verified_def intro!: put_inv entry_ok_fields split: option.splits)

lemma relay_dispatch_inv: "bridge_inv st \<Longrightarrow> bridge_inv (snd (relay_dispatch cid peeled now e st))"
  by (auto simp: relay_dispatch_def Let_def handle_extend_inv handle_extend_cont_inv handle_extend_finish_inv teardown_inv
      split: option.splits sum.splits)

lemma handle_relay_from_prev_inv: "bridge_inv st \<Longrightarrow> bridge_inv (snd (handle_relay_from_prev cr cid b now st))"
  using bridge_inv_entry [of st cid]
  by (auto simp: handle_relay_from_prev_def Let_def intro!: relay_dispatch_inv put_inv entry_ok_fields split: option.splits sum.splits)

lemma process_inbound_from_prev_inv: "bridge_inv st \<Longrightarrow> bridge_inv (snd (process_inbound_from_prev cr c now st))"
  by (simp add: process_inbound_from_prev_def Let_def handle_create_inv handle_create_cont_inv handle_extend_inv
      handle_extend_cont_inv handle_extend_finish_inv teardown_inv handle_relay_from_prev_inv split: option.splits)

lemma emit_extended_inv:
  assumes inv: "bridge_inv st" and e: "hm_get (circuits st) cid = Some e" "ce_state e = Extending"
  shows "bridge_inv (snd (emit_extended cr cid m now st))"
proof -
  let ?e = "e\<lparr>ce_state := Open, state_entered := now, last_activity := now, pending_created := None\<rparr>"
  have ok: "entry_ok (relay_mode st) ?e"
    using bridge_inv_entry [OF inv e(1)] e(2) by (intro entry_ok_fields)
  then have "bridge_inv (put_entry cid ?e st)" "bridge_inv (put_entry cid (?e\<lparr>reverse_seq := s\<rparr>) st)" for s
    using inv e(1) by (auto intro!: put_inv entry_ok_fields(3))
  then show ?thesis
    using e(1) by (simp add: emit_extended_def Let_def split: option.splits sum.splits prod.splits)
qed

lemma handle_created_inv:
  assumes inv: "bridge_inv st"
  shows "bridge_inv (snd (handle_created_from_next cr cid b now st))"
proof (cases "hm_get (circuits st) cid")
  case (Some e)
  note ok = bridge_inv_entry [OF inv Some]
  have emit: "bridge_inv (snd (emit_extended cr cid m now (put_entry cid (e\<lparr>last_activity := now\<rparr>) st)))" if "ce_state e = Extending" for m
    by (rule emit_extended_inv [where e = "e\<lparr>last_activity := now\<rparr>"]) (use that inv Some ok in \<open>auto simp: hm_laws intro!: put_inv entry_ok_fields\<close>)
  have "HandshakeBody_decode_partial b = Ok (n, chunk) \<Longrightarrow> n \<le> MAX_HANDSHAKE_BODY_LEN" for n chunk
    by (simp add: HandshakeBody_decode_partial_def msg_decode_partial_ok)
  with ok Some inv emit show ?thesis
    by (auto simp: handle_created_from_next_def Let_def msg_bounded_def intro!: put_inv entry_ok_fields split: sum.splits)
qed (simp add: handle_created_from_next_def inv split: sum.split)

lemma handle_created_cont_inv:
  assumes inv: "bridge_inv st"
  shows "bridge_inv (snd (handle_created_cont_from_next cr cid b now st))"
proof (cases "hm_get (circuits st) cid")
  case (Some e)
  note ok = bridge_inv_entry [OF inv Some]
  have emit: "bridge_inv (snd (emit_extended cr cid m now (put_entry cid (e\<lparr>pending_created := None, last_activity := now\<rparr>) st)))"
    if "ce_state e = Extending" for m
    by (rule emit_extended_inv [where e = "e\<lparr>pending_created := None, last_activity := now\<rparr>"]) (use that inv Some ok in \<open>auto simp: hm_laws intro!: put_inv entry_ok_fields\<close>)
  have keep: "bridge_inv (put_entry cid e' st)" if "entry_ok (relay_mode st) e'" "out_circ_id e' = out_circ_id e" for e'
    using put_inv [OF inv Some that] .
  show ?thesis
    using ok Some inv emit
    by (auto simp: handle_created_cont_from_next_def Let_def entry_simps intro!: keep split: option.splits)
qed (simp add: handle_created_cont_from_next_def inv)

lemma handle_relay_from_next_inv: "bridge_inv st \<Longrightarrow> bridge_inv (snd (handle_relay_from_next cr cid b now st))"
  using bridge_inv_entry [of st cid]
  by (auto simp: handle_relay_from_next_def Let_def intro!: put_inv entry_ok_fields split: option.splits sum.splits)

lemma process_inbound_from_next_inv: "bridge_inv st \<Longrightarrow> bridge_inv (snd (process_inbound_from_next cr c now st))"
  by (auto simp: process_inbound_from_next_def Let_def handle_created_inv handle_created_cont_inv teardown_inv
      handle_relay_from_next_inv split: option.splits)

lemma record_create_complete_inv:
  assumes inv: "bridge_inv st"
  shows "bridge_inv (snd (record_create_complete cid k m now st))"
proof (cases "hm_get (circuits st) cid")
  case (Some e)
  have "bridge_inv (put_entry cid (e\<lparr>ce_state := Open, state_entered := now, last_activity := now, prev_keys := Some k\<rparr>) st)"
    if "ce_state e = Creating"
    by (rule put_inv [OF inv Some]) (use bridge_inv_entry [OF inv Some] that in \<open>simp_all add: entry_simps\<close>)
  with Some inv show ?thesis by (auto simp: record_create_complete_def Let_def split: sum.splits)
qed (simp add: record_create_complete_def inv)

lemma record_extend_complete_inv: "bridge_inv st \<Longrightarrow> bridge_inv (snd (record_extend_complete cr cid m now st))"
  by (auto simp: record_extend_complete_def emit_extended_inv split: option.splits)

lemma reap_victims_inv: "bridge_inv st \<Longrightarrow> bridge_inv (snd (reap_victims victims st))"
proof (induction victims st rule: reap_victims.induct)
  case (2 cid s victims st)
  let ?o = "case hm_get (circuits st) cid of None \<Rightarrow> None | Some e \<Rightarrow> out_circ_id e"
  let ?st = "st\<lparr>out_to_in := (case ?o of None \<Rightarrow> out_to_in st | Some x \<Rightarrow> hm_remove x (out_to_in st)), circuits := hm_remove cid (circuits st)\<rparr>"
  have maps: "hm_get (out_to_in st) x = Some i \<longleftrightarrow> (\<exists>e. hm_get (circuits st) i = Some e \<and> out_circ_id e = Some x)" for x i
    using "2.prems" by (simp add: bridge_inv_def)
  have rev: "hm_get (out_to_in ?st) x = Some i \<longleftrightarrow> (\<exists>e. hm_get (circuits ?st) i = Some e \<and> out_circ_id e = Some x)" for x i
    using maps [of x i] maps [of x cid] by (auto simp: hm_laws split: option.splits)
  have "hm_get (out_to_in ?st) 0 = None" "hm_wf (out_to_in ?st)"
    using "2.prems" by (auto simp: bridge_inv_def hm_laws split: option.splits)
  moreover have "hm_wf (circuits ?st)" "hm_len (circuits ?st) \<le> unat (bp_max_circuits (bc_policy ?st))"
    using "2.prems" hm.len_del_le [of "circuits st" cid] by (auto simp: bridge_inv_def hm_laws)
  moreover have "hm_get (circuits ?st) i = Some e \<Longrightarrow> entry_ok (relay_mode ?st) e" for i e
    using "2.prems" by (auto simp: bridge_inv_def hm_laws split: if_splits)
  ultimately have "bridge_inv ?st" unfolding bridge_inv_def using rev by blast
  from "2.IH" [OF refl refl refl this] show ?case
    by (auto simp: Let_def split: prod.split)
qed simp

lemma bridge_step_inv: "bridge_inv st \<Longrightarrow> bridge_inv (snd (bridge_step cr ord op st))"
  by (cases op) (simp_all add: process_inbound_from_prev_inv process_inbound_from_next_inv record_create_complete_inv teardown_inv
    record_extend_complete_inv inject_exit_response_def handle_relay_from_next_inv bridge_tick_def reap_victims_inv)

lemma bridge_run_inv: "bridge_inv st \<Longrightarrow> bridge_inv (snd (bridge_run cr ord ops st))"
  by (induction ops arbitrary: st) (simp_all add: split_def bridge_step_inv)

text \<open>
  C13: The state of a connection's circuits stays consistent.  After any sequence of cells from both sides, reports
  of the runtime and sweeps, for every iteration order of the map: the table of outgoing identifiers is exactly the
  inverse of the circuits' own, no circuit is above the limit, every reassembly buffer is shorter than a
  bounded announced length, cells are only accepted with keys in place, and on a relay session no circuit without a
  verified token is extended or being extended.
\<close>

theorem bridge_consistent: "bridge_inv (snd (bridge_run cr ord ops (set_relay_mode relay (BridgeCircuitState_new seed p))))"
  by (rule bridge_run_inv) (simp add: bridge_inv_def set_relay_mode_def BridgeCircuitState_new_def)

section \<open>The token of a relayed hop\<close>

text \<open>The actions by which a circuit has an effect beyond this hop.\<close>

fun reaches_network :: "BridgeAction \<Rightarrow> bool" where
  "reaches_network (RelayPayloadAtExit cid b) = True"
| "reaches_network (SendToNext x c) = True"
| "reaches_network (OpenNextHop cid x pk ep m) = True"
| "reaches_network (ForwardExtendFinishToNext x m) = True"
| "reaches_network a = False"

definition unverified :: "u32 \<Rightarrow> BridgeCircuitState \<Rightarrow> bool" where
  "unverified i st \<longleftrightarrow> relay_mode st \<and> (\<forall>e. hm_get (circuits st) i = Some e \<longrightarrow> \<not> token_verified e)"

lemma unverified_put:
  "unverified i st \<Longrightarrow> \<not> token_verified e \<or> i \<noteq> j \<Longrightarrow> unverified i (put_entry j e st)"
  by (auto simp: unverified_def hm_laws)

lemma unverified_put_old:
  assumes "unverified i st" "hm_get (circuits st) j = Some e" "token_verified e' = token_verified e"
  shows "unverified i (put_entry j e' st)"
  using assms by (auto simp: unverified_def hm_laws)

lemma unverified_dispatch: "unverified i st \<Longrightarrow> unverified i (snd (dispatch_pending_extend cid p now st))"
  by (auto simp: dispatch_pending_extend_def allocate_out_circ_id_def unverified_def hm_laws split: sum.splits option.splits prod.splits)

lemma unverified_create: "unverified i st \<Longrightarrow> unverified i (snd (handle_create cid b now st))"
  by (auto simp: handle_create_def Let_def unverified_def hm_laws split: option.splits sum.splits)

lemma unverified_conts:
  assumes "unverified i st"
  shows "unverified i (snd (handle_create_cont cid b now st))" "unverified i (snd (handle_extend cid b now r st))"
    "unverified i (snd (handle_extend_cont cid b now st))" "unverified i (snd (handle_extend_finish cid b now st))"
  using assms
  by (auto simp: handle_create_cont_def handle_extend_def handle_extend_cont_def handle_extend_finish_def Let_def
      intro!: unverified_dispatch elim!: unverified_put_old split: option.splits sum.splits)

lemma unverified_teardown:
  assumes "unverified i st"
  shows "unverified i (snd (handle_destroy_from_prev cid now st))" "unverified i (snd (reap_circuit cid now st))"
    "unverified i (snd (handle_destroy_from_next cid now st))" "unverified i (snd (record_create_failure cid now st))"
    "unverified i (snd (record_extend_failure cid now st))" "unverified i (snd (record_create_complete cid k m now st))"
  using assms
  by (auto simp: handle_destroy_from_prev_def reap_circuit_def handle_destroy_from_next_def record_create_failure_def
      record_extend_failure_def record_create_complete_def Let_def elim!: unverified_put_old split: option.splits sum.splits)

lemma unverified_emit: "unverified i st \<Longrightarrow> unverified i (snd (emit_extended cr cid m now st))"
  by (auto simp: emit_extended_def Let_def elim!: unverified_put_old split: option.splits sum.splits prod.splits)

lemma unverified_relay:
  assumes "unverified i st"
  shows "unverified i (snd (relay_dispatch cid b now e st))" "unverified i (snd (handle_relay_from_next cr cid b now st))"
    "unverified i (snd (handle_created_from_next cr cid b now st))" "unverified i (snd (handle_created_cont_from_next cr cid b now st))"
    "unverified i (snd (record_extend_complete cr cid b now st))"
  using assms
  by (auto simp: relay_dispatch_def handle_relay_from_next_def handle_created_from_next_def handle_created_cont_from_next_def
      record_extend_complete_def Let_def unverified_conts unverified_teardown intro!: unverified_emit elim!: unverified_put_old
      split: option.splits sum.splits)

lemma unverified_relay_prev: "unverified i st \<Longrightarrow> unverified i (snd (handle_relay_from_prev cr cid b now st))"
  by (auto simp: handle_relay_from_prev_def Let_def intro!: unverified_relay(1) elim!: unverified_put_old split: option.splits sum.splits)

lemma unverified_reap: "unverified i st \<Longrightarrow> unverified i (snd (reap_victims vs st))"
proof (induction vs st rule: reap_victims.induct)
  case (2 cid s vs st)
  have keep: "unverified i (st\<lparr>out_to_in := m, circuits := hm_remove cid (circuits st)\<rparr>)" for m
    using "2.prems" by (simp add: unverified_def hm_laws)
  from "2.IH" [OF refl refl refl keep] show ?case by (simp only: reap_victims.simps Let_def split_def snd_conv)
qed simp

lemma unverified_step: "unverified i st \<Longrightarrow> op \<noteq> TokenVerified i \<Longrightarrow> unverified i (snd (bridge_step cr ord op st))"
  by (cases op) (auto simp: process_inbound_from_prev_def process_inbound_from_next_def Let_def inject_exit_response_def
    bridge_tick_def record_token_verified_def unverified_create unverified_conts unverified_teardown unverified_relay
    unverified_relay_prev unverified_reap intro!: unverified_put split: option.splits)

lemma unverified_entry:
  assumes "bridge_inv st" "unverified i st" "hm_get (circuits st) i = Some e"
  shows "relay_mode st" "\<not> token_verified e" "out_circ_id e = None" "pending_extend e = None"
  using bridge_inv_entry [OF assms(1,3)] assms(2,3) by (auto simp: unverified_def entry_ok_def)

fun quiet :: "BridgeCircuitError + BridgeAction list \<Rightarrow> bool" where
  "quiet (Inl e) = True"
| "quiet (Inr acts) = (\<not> list_ex reaches_network acts)"

lemma quiet_control:
  assumes "bridge_inv st" "unverified i st"
  shows "quiet (fst (handle_extend i b now r st))" "quiet (fst (handle_extend_cont i b now st))"
    "quiet (fst (handle_extend_finish i b now st))" "\<not> list_ex reaches_network (fst (handle_destroy_from_prev i now st))"
    "quiet (fst (handle_create i b now st))" "quiet (fst (handle_create_cont i b now st))"
  using unverified_entry [OF assms]
  by (auto simp: handle_extend_def handle_extend_cont_def handle_extend_finish_def handle_destroy_from_prev_def handle_create_def
      handle_create_cont_def Let_def split: option.splits sum.splits if_splits)

lemma quiet_dispatch:
  assumes "bridge_inv st" "unverified i st" "\<not> token_verified e"
  shows "quiet (fst (relay_dispatch i b now e st))"
proof -
  have "relay_mode st" using assms(2) by (simp add: unverified_def)
  with quiet_control [OF assms(1,2)] assms(3) show ?thesis
    by (simp add: relay_dispatch_def Let_def)
qed

lemma quiet_relay:
  assumes inv: "bridge_inv st" and un: "unverified i st"
  shows "quiet (fst (handle_relay_from_prev cr i b now st))"
proof (cases "hm_get (circuits st) i")
  case (Some e)
  let ?e = "e\<lparr>forward_seq := forward_seq e + 1, last_activity := now\<rparr>"
  have "bridge_inv (put_entry i ?e st)" "unverified i (put_entry i ?e st)"
    using inv un Some by (auto intro!: put_inv entry_ok_fields bridge_inv_entry [OF inv Some] elim: unverified_put_old)
  then have "quiet (fst (relay_dispatch i peeled now ?e (put_entry i ?e st)))" for peeled
    by (rule quiet_dispatch) (use unverified_entry(2) [OF inv un Some] in simp)
  with Some show ?thesis
    by (simp add: handle_relay_from_prev_def Let_def split: option.splits sum.splits)
qed (simp add: handle_relay_from_prev_def)

lemma quiet_prev:
  assumes "bridge_inv st" "unverified (c_circ_id c) st"
  shows "quiet (fst (process_inbound_from_prev cr c now st))"
  using quiet_control [OF assms] quiet_relay [OF assms]
  by (simp add: process_inbound_from_prev_def Let_def split: option.split)

lemma quiet_run:
  assumes "bridge_inv st" "unverified i st" "TokenVerified i \<notin> set ops"
    and "(FromPrev c now, r) \<in> set (zip ops (fst (bridge_run cr ord ops st)))" "c_circ_id c = i"
  shows "quiet r"
  using assms
proof (induction ops arbitrary: st)
  case (Cons op ops)
  let ?st = "snd (bridge_step cr ord op st)"
  consider "op = FromPrev c now" "r = fst (bridge_step cr ord op st)"
    | "(FromPrev c now, r) \<in> set (zip ops (fst (bridge_run cr ord ops ?st)))"
    using Cons.prems(4) by (auto simp: split_def)
  then show ?case
  proof cases
    case 1
    then show ?thesis using quiet_prev [OF Cons.prems(1)] Cons.prems(2,5) by simp
  next
    case 2
    have "op \<noteq> TokenVerified i" "TokenVerified i \<notin> set ops" using Cons.prems(3) by auto
    with 2 show ?thesis
      using Cons.IH [OF bridge_step_inv [OF Cons.prems(1)] unverified_step [OF Cons.prems(2)]] Cons.prems(5) by metis
  qed
qed simp

text \<open>
  C8: A relayed hop serves no circuit without its own token.  On a relay session, in any state and from a moment at
  which a circuit identifier is not in use, no cell of that circuit makes the bridge deliver a payload to the network,
  forward a cell or a handshake message to a next hop, or open one, until the runtime has reported that the
  token for this hop was verified, whatever else happens on the connection in between.
\<close>

theorem token_gate:
  assumes "bridge_inv st" "relay_mode st" "hm_get (circuits st) (c_circ_id c) = None"
    and "TokenVerified (c_circ_id c) \<notin> set ops"
    and "(FromPrev c now, Ok acts) \<in> set (zip ops (fst (bridge_run cr ord ops st)))"
  shows "\<not> list_ex reaches_network acts"
  using quiet_run [OF assms(1) _ assms(4,5) refl] assms(2,3) by (simp add: unverified_def)

section \<open>Reassembly\<close>

text \<open>
  Three handlers collect a message that is spread over cells: continuations of \<open>CREATE\<close>, of \<open>EXTEND\<close> and of
  \<open>CREATED\<close>.  What they share is an interface: a continuation that does not complete the announced length is
  stored silently, one that completes it has the effect of the whole message, and one that exceeds it is an error.
\<close>

fun feed :: "('x \<Rightarrow> 's \<Rightarrow> 'r \<times> 's) \<Rightarrow> 'x list \<Rightarrow> 's \<Rightarrow> 'r list \<times> 's" where
  "feed f [] s = ([], s)"
| "feed f (x # xs) s = (case f x s of (r, s1) \<Rightarrow> (case feed f xs s1 of (rs, s2) \<Rightarrow> (r # rs, s2)))"

locale reassembler =
  fixes cont :: "instant \<Rightarrow> bytes \<Rightarrow> BridgeCircuitState \<Rightarrow> bridge_result"
    and buffered :: "nat \<Rightarrow> bytes \<Rightarrow> BridgeCircuitState \<Rightarrow> bool"
    and finished :: "bytes \<Rightarrow> BridgeCircuitError + BridgeAction list \<Rightarrow> bool"
  assumes cont_more: "buffered n acc st \<Longrightarrow> length acc + length b < n \<Longrightarrow>
      fst (cont t b st) = Ok [] \<and> buffered n (acc @ b) (snd (cont t b st))"
    and cont_done: "buffered n acc st \<Longrightarrow> length acc + length b = n \<Longrightarrow> finished (acc @ b) (fst (cont t b st))"
    and cont_over: "buffered n acc st \<Longrightarrow> n < length acc + length b \<Longrightarrow> \<exists>e. fst (cont t b st) = Err e"
begin

lemma reassembles:
  assumes "buffered n acc st" "list_all (\<lambda>(t, b). b \<noteq> []) bs" "bs \<noteq> []" "length acc + length (concat (map snd bs)) = n"
  shows "\<exists>r. fst (feed (\<lambda>(t, b). cont t b) bs st) = replicate (length bs - 1) (Ok []) @ [r] \<and> finished (acc @ concat (map snd bs)) r"
  using assms
proof (induction bs arbitrary: acc st)
  case (Cons x bs)
  obtain t b where x: "x = (t, b)" by (cases x)
  show ?case
  proof (cases "bs = []")
    case True
    with Cons.prems x cont_done [of n acc st b t] show ?thesis by (simp add: split_def)
  next
    case False
    then have "0 < length (concat (map snd bs))" using Cons.prems(2) by (cases bs) auto
    moreover have "length (concat (map snd (x # bs))) = length b + length (concat (map snd bs))" by (simp add: x)
    ultimately have "length acc + length b < n" using Cons.prems(4) by linarith
    note more = cont_more [OF Cons.prems(1) this, of t]
    have "\<exists>r. fst (feed (\<lambda>(t, b). cont t b) bs (snd (cont t b st))) = replicate (length bs - 1) (Ok []) @ [r] \<and>
        finished ((acc @ b) @ concat (map snd bs)) r"
      by (rule Cons.IH) (use more Cons.prems False x in auto)
    moreover have "replicate (length bs) (Ok [] :: BridgeCircuitError + BridgeAction list) = Ok [] # replicate (length bs - 1) (Ok [])"
      using False by (cases bs) auto
    ultimately show ?thesis using more x by (auto simp: split_def)
  qed
qed simp

end

text \<open>The states in which a circuit is collecting a message: the buffer grows and the time of activity moves.\<close>

definition creating_with :: "u32 \<Rightarrow> nat \<Rightarrow> bytes \<Rightarrow> BridgeCircuitState \<Rightarrow> bool" where
  "creating_with cid n acc st \<longleftrightarrow>
     (\<exists>e p. hm_get (circuits st) cid = Some e \<and> ce_state e = Creating \<and> pending_create e = Some p \<and> pm_total_len p = n \<and>
        pm_accumulated p = acc \<and> length acc < n)"

interpretation create: reassembler "\<lambda>t b. handle_create_cont cid b t" "creating_with cid" "\<lambda>m r. r = Ok [PerformHandshake cid m]"
  for cid
  by unfold_locales (auto simp: creating_with_def handle_create_cont_def Let_def hm_laws)

definition extending_with ::
  "u32 \<Rightarrow> bytes \<Rightarrow> HopEndpoint \<Rightarrow> (u64 \<Rightarrow> u32) \<Rightarrow> (u32, u32) hashmap \<Rightarrow> u64 \<Rightarrow> nat \<Rightarrow> bytes \<Rightarrow> BridgeCircuitState \<Rightarrow> bool" where
  "extending_with cid pk ep pick taken s n acc st \<longleftrightarrow>
     (\<exists>e p. hm_get (circuits st) cid = Some e \<and> ce_state e = Open \<and> pending_extend e = Some p \<and> pe_total_len p = n \<and>
        pe_accumulated p = acc \<and> pe_next_hop_pk p = pk \<and> pe_endpoint p = ep \<and> length acc < n \<and>
        out_circ_id_picker st = pick \<and> out_to_in st = taken \<and> out_circ_id_seq st = s)"

text \<open>The result of dispatching an extension: the next hop is opened under the allocated identifier, if there is one.\<close>

definition opens_next :: "u32 \<Rightarrow> bytes \<Rightarrow> HopEndpoint \<Rightarrow> (u64 \<Rightarrow> u32) \<Rightarrow> (u32, u32) hashmap \<Rightarrow> u64 \<Rightarrow> bytes
    \<Rightarrow> BridgeCircuitError + BridgeAction list \<Rightarrow> bool" where
  "opens_next cid pk ep pick taken s m r \<longleftrightarrow>
     r = (case fst (alloc_loop 256 pick taken s) of None \<Rightarrow> Err (OutCircIdExhausted 256) | Some x \<Rightarrow> Ok [OpenNextHop cid x pk ep m])"

lemma dispatch_opens:
  assumes "hm_get (circuits st) cid = Some e"
  shows "opens_next cid (pe_next_hop_pk p) (pe_endpoint p) (out_circ_id_picker st) (out_to_in st) (out_circ_id_seq st)
    (pe_accumulated p) (fst (dispatch_pending_extend cid p now st))"
  using assms by (auto simp: opens_next_def dispatch_pending_extend_def allocate_out_circ_id_def split: prod.splits option.splits)

interpretation extend: reassembler "\<lambda>t b. handle_extend_cont cid b t" "extending_with cid pk ep pick taken s"
  "opens_next cid pk ep pick taken s" for cid pk ep pick taken s
proof (unfold_locales, goal_cases)
  case (1 n acc st b t)
  then show ?case by (auto simp: extending_with_def handle_extend_cont_def Let_def hm_laws)
next
  case (2 n acc st b t)
  then obtain e p where e: "hm_get (circuits st) cid = Some e" "ce_state e = Open" "pending_extend e = Some p" "pe_total_len p = n"
      "pe_accumulated p = acc" "pe_next_hop_pk p = pk" "pe_endpoint p = ep" "out_circ_id_picker st = pick" "out_to_in st = taken"
      "out_circ_id_seq st = s" by (auto simp: extending_with_def)
  let ?st = "put_entry cid (e\<lparr>pending_extend := None, last_activity := t\<rparr>) st"
  have "hm_get (circuits ?st) cid = Some (e\<lparr>pending_extend := None, last_activity := t\<rparr>)" by (simp add: hm_laws)
  from dispatch_opens [OF this, of "p\<lparr>pe_accumulated := acc @ b\<rparr>" t] e 2(2) show ?case
    by (simp add: handle_extend_cont_def Let_def)
next
  case (3 n acc st b t)
  then show ?case by (auto simp: extending_with_def handle_extend_cont_def Let_def)
qed

text \<open>What a first hop sends back when the message of the next hop is complete.\<close>

definition extended_reply :: "u32 \<Rightarrow> bytes \<Rightarrow> BridgeCircuitError + BridgeAction list" where
  "extended_reply cid m =
     (case ExtendedBody_encode_fragmented m MAX_CELL_PAYLOAD of
        Inl x \<Rightarrow> Err (ExtendFault x)
      | Inr (first, conts) \<Rightarrow> send_prev cid ((CMD_EXTENDED, first) # map (Pair CMD_EXTENDED_CONT) conts))"

definition awaiting_created :: "u32 \<Rightarrow> nat \<Rightarrow> bytes \<Rightarrow> BridgeCircuitState \<Rightarrow> bool" where
  "awaiting_created cid n acc st \<longleftrightarrow>
     (\<exists>e p. hm_get (circuits st) cid = Some e \<and> ce_state e = Extending \<and> \<not> extend_via_relay e \<and> pending_created e = Some p \<and>
        pm_total_len p = n \<and> pm_accumulated p = acc \<and> length acc < n)"

lemma emit_extended_first_hop:
  "hm_get (circuits st) cid = Some e \<Longrightarrow> \<not> extend_via_relay e \<Longrightarrow> fst (emit_extended cr cid m now st) = extended_reply cid m"
  by (auto simp: emit_extended_def extended_reply_def Let_def split: sum.splits)

interpretation created: reassembler "\<lambda>t b. handle_created_cont_from_next cr cid b t" "awaiting_created cid"
  "\<lambda>m r. r = extended_reply cid m" for cr cid
proof (unfold_locales, goal_cases)
  case (2 n acc st b t)
  then obtain e p where e: "hm_get (circuits st) cid = Some e" "ce_state e = Extending" "\<not> extend_via_relay e"
      "pending_created e = Some p" "pm_total_len p = n" "pm_accumulated p = acc" by (auto simp: awaiting_created_def)
  let ?e = "e\<lparr>pending_created := None, last_activity := t\<rparr>"
  have "fst (emit_extended cr cid (acc @ b) t (put_entry cid ?e st)) = extended_reply cid (acc @ b)"
    by (rule emit_extended_first_hop [where e = ?e]) (use e in \<open>simp_all add: hm_laws\<close>)
  with e 2(2) show ?case by (simp add: handle_created_cont_from_next_def Let_def)
qed (auto simp: awaiting_created_def handle_created_cont_from_next_def Let_def hm_laws)

text \<open>The cells of a split message: a first one and its continuations, with their times of arrival.\<close>

definition msg_cells :: "u32 \<Rightarrow> u8 \<Rightarrow> (instant \<times> bytes) list \<Rightarrow> BridgeOp list" where
  "msg_cells cid cmd bs = map (\<lambda>(t, b). FromPrev \<lparr>c_circ_id = cid, c_command = cmd, c_body = b\<rparr> t) bs"

lemma msg_cells_run:
  "fst (bridge_run cr ord (msg_cells cid CMD_CREATE_CONT bs) st) = fst (feed (\<lambda>(t, b). handle_create_cont cid b t) bs st)"
  "fst (bridge_run cr ord (msg_cells cid CMD_EXTEND_CONT bs) st) = fst (feed (\<lambda>(t, b). handle_extend_cont cid b t) bs st)"
  by (induction bs arbitrary: st) (simp_all add: msg_cells_def process_inbound_from_prev_def split_def)

text \<open>
  A handshake message survives being split.  The cells into which a first message is encoded, arriving in order at
  any times, make a bridge with room for the circuit start exactly one handshake, when the last cell is in, with
  exactly that message.
\<close>

lemma create_reassembled:
  assumes enc: "HandshakeBody_encode_fragmented m MAX_CELL_PAYLOAD = Ok (first, map snd bs)"
    and new: "hm_get (circuits st) cid = None"
    and room: "word_of_nat (hm_len (circuits st)) < bp_max_circuits (bc_policy st)"
      "pending_count st < bp_max_pending_handshakes (bc_policy st)"
  shows "fst (bridge_run cr ord (FromPrev \<lparr>c_circ_id = cid, c_command = CMD_CREATE, c_body = first\<rparr> t # msg_cells cid CMD_CREATE_CONT bs) st) =
    replicate (length bs) (Ok []) @ [Ok [PerformHandshake cid m]]"
proof -
  note p = HandshakeBody_pieces [OF enc]
  let ?r = "handle_create cid first t st" and ?k = "MAX_CELL_PAYLOAD - 2"
  have c: "fst ?r = Ok (if length (take ?k m) < length m then [] else [PerformHandshake cid (take ?k m)])"
    "length (take ?k m) < length m \<Longrightarrow> creating_with cid (length m) (take ?k m) (snd ?r)"
    using new room [folded not_le] p(1) by (auto simp: handle_create_def Let_def creating_with_def hm_laws)
  have run: "fst (bridge_run cr ord (FromPrev \<lparr>c_circ_id = cid, c_command = CMD_CREATE, c_body = first\<rparr> t # msg_cells cid CMD_CREATE_CONT bs) st) =
      fst ?r # fst (feed (\<lambda>(t, b). handle_create_cont cid b t) bs (snd ?r))"
    by (simp add: process_inbound_from_prev_def split_def msg_cells_run del: feed.simps)
  show ?thesis
  proof (cases "bs = []")
    case True
    then have "m = take ?k m" using p(2) append_take_drop_id [of ?k m] by simp
    with c(1) run True show ?thesis by simp
  next
    case False
    have ne: "list_all (\<lambda>(t, b). b \<noteq> []) bs" using p(4) by (fastforce simp: list_all_iff)
    then have "drop ?k m \<noteq> []" using p(2) False by (cases bs) (auto simp flip: p(2))
    then have l: "length (take ?k m) < length m" by simp
    have "length (take ?k m) + length (concat (map snd bs)) = length m" using p(2) by simp
    from create.reassembles [OF c(2) [OF l] ne False this]
    have "fst (feed (\<lambda>(t, b). handle_create_cont cid b t) bs (snd ?r)) = replicate (length bs - 1) (Ok []) @ [Ok [PerformHandshake cid m]]"
      using p(2) by simp
    moreover have "replicate (length bs) (Ok [] :: BridgeCircuitError + BridgeAction list) = Ok [] # replicate (length bs - 1) (Ok [])"
      using False by (cases bs) auto
    ultimately show ?thesis using run c(1) l by simp
  qed
qed

lemma create_reassembled_witness:
  "fst (bridge_run demo_circuit_crypto id (FromPrev \<lparr>c_circ_id = 1, c_command = CMD_CREATE, c_body = to_be (1100 :: u16) @ replicate 1015 7\<rparr> 3
     # msg_cells 1 CMD_CREATE_CONT [(5, replicate 85 7)]) (BridgeCircuitState_new 0 BridgePolicy_default)) =
   [Ok [], Ok [PerformHandshake 1 (replicate 1100 7)]]"
proof -
  have "cont_bodies 1017 (replicate 85 (7 :: u8)) = [replicate 85 7]"
    by (subst cont_bodies.simps, subst cont_bodies.simps) simp
  then have "HandshakeBody_encode_fragmented (replicate 1100 7) MAX_CELL_PAYLOAD =
      Ok (to_be (1100 :: u16) @ replicate 1015 7, map snd [(5 :: nat, replicate 85 7)])"
    by (simp add: HandshakeBody_encode_fragmented_def fragment_def Let_def cell_lens body_lens)
  from create_reassembled [OF this, of "BridgeCircuitState_new 0 BridgePolicy_default" 1 demo_circuit_crypto id 3] show ?thesis
    by (simp add: BridgeCircuitState_new_def BridgePolicy_default_def pending_count_def del: bridge_run.simps)
qed

text \<open>
  C19: An extension reaches the next hop as the client sent it.  The cells into which the request to extend a circuit is
  encoded, arriving in order at any times at a hop that may extend it, make the hop open exactly one connection, when
  the last cell is in, to the key and endpoint of the request and with exactly its handshake message.
\<close>

theorem extend_reassembled:
  assumes enc: "ExtendBody_encode_fragmented x MAX_CELL_PAYLOAD = Ok (first, map snd bs)"
    and wf: "length (eb_next_hop_pk x) = 32" "endpoint_wf (eb_endpoint x)" "length (eb_hs_msg1 x) \<le> MAX_HS_MSG1_LEN"
    and e: "hm_get (circuits st) cid = Some e" "ce_state e = Open" "out_circ_id e = None" "pending_extend e = None"
    and tok: "\<not> relay_mode st \<or> token_verified e" and room: "pending_count st < bp_max_pending_handshakes (bc_policy st)"
    and alloc: "alloc_loop 256 (out_circ_id_picker st) (out_to_in st) (out_circ_id_seq st) = (Some i, s)"
  shows "fst (bridge_run cr ord (FromPrev \<lparr>c_circ_id = cid, c_command = CMD_EXTEND, c_body = first\<rparr> t # msg_cells cid CMD_EXTEND_CONT bs) st) =
    replicate (length bs) (Ok []) @ [Ok [OpenNextHop cid i (eb_next_hop_pk x) (eb_endpoint x) (eb_hs_msg1 x)]]"
proof -
  let ?m = "eb_hs_msg1 x" and ?k = "MAX_CELL_PAYLOAD - (34 + HopEndpoint_wire_len (eb_endpoint x))"
  note p = ExtendBody_pieces [OF enc wf(1,2)]
  let ?r = "handle_extend cid first t False st"
  let ?buf = "extending_with cid (eb_next_hop_pk x) (eb_endpoint x) (out_circ_id_picker st) (out_to_in st) (out_circ_id_seq st)"
  let ?open = "opens_next cid (eb_next_hop_pk x) (eb_endpoint x) (out_circ_id_picker st) (out_to_in st) (out_circ_id_seq st)"
  have fin: "?open a r \<longleftrightarrow> r = Ok [OpenNextHop cid i (eb_next_hop_pk x) (eb_endpoint x) a]" for a r
    using alloc by (simp add: opens_next_def)
  have run: "fst (bridge_run cr ord (FromPrev \<lparr>c_circ_id = cid, c_command = CMD_EXTEND, c_body = first\<rparr> t # msg_cells cid CMD_EXTEND_CONT bs) st) =
      fst ?r # fst (feed (\<lambda>(t, b). handle_extend_cont cid b t) bs (snd ?r))"
    by (simp add: process_inbound_from_prev_def split_def msg_cells_run del: feed.simps)
  note start = handle_extend_def [of cid first t False st, unfolded e(1) option.case p(1) [OF wf(3)] sum.case prod.case Let_def]
  show ?thesis
  proof (cases "length (take ?k ?m) = length ?m")
    case True
    then have m: "take ?k ?m = ?m" by simp
    then have "concat (map snd bs) = []" using p(2) append_take_drop_id [of ?k ?m] by auto
    then have bs: "bs = []" using p(4) by (cases bs) auto
    let ?e = "e\<lparr>extend_via_relay := False, last_activity := t\<rparr>"
    have "hm_get (circuits (put_entry cid ?e st)) cid = Some ?e" by (simp add: hm_laws)
    from dispatch_opens [OF this, of "\<lparr>pe_next_hop_pk = eb_next_hop_pk x, pe_endpoint = eb_endpoint x, pe_total_len = length ?m,
        pe_accumulated = ?m, pe_started_at = t\<rparr>" t]
    have "fst ?r = Ok [OpenNextHop cid i (eb_next_hop_pk x) (eb_endpoint x) ?m]"
      using e tok room [folded not_le] m fin unfolding start by simp
    with run bs show ?thesis by simp
  next
    case False
    then have l: "length (take ?k ?m) < length ?m" by simp
    have c: "fst ?r = Ok []" "?buf (length ?m) (take ?k ?m) (snd ?r)"
      unfolding start using e tok room [folded not_le] False l by (auto simp: extending_with_def hm_laws)
    have ne: "list_all (\<lambda>(t, b). b \<noteq> []) bs" using p(4) by (fastforce simp: list_all_iff)
    have nb: "bs \<noteq> []" using p(2) l by auto
    have "length (take ?k ?m) + length (concat (map snd bs)) = length ?m" using p(2) by simp
    from extend.reassembles [OF c(2) ne nb this]
    have "fst (feed (\<lambda>(t, b). handle_extend_cont cid b t) bs (snd ?r)) =
        replicate (length bs - 1) (Ok []) @ [Ok [OpenNextHop cid i (eb_next_hop_pk x) (eb_endpoint x) ?m]]"
      using p(2) by (simp add: fin)
    moreover have "replicate (length bs) (Ok [] :: BridgeCircuitError + BridgeAction list) = Ok [] # replicate (length bs - 1) (Ok [])"
      using nb by (cases bs) auto
    ultimately show ?thesis using run c(1) by simp
  qed
qed

definition demo_entry :: CircuitEntry where
  "demo_entry =
     \<lparr>out_circ_id = None, ce_state = Open,
      prev_keys = Some \<lparr>hk_forward = \<lparr>ol_key = replicate 32 1, ol_iv = replicate 12 0\<rparr>, hk_reverse = \<lparr>ol_key = replicate 32 2, ol_iv = replicate 12 0\<rparr>\<rparr>,
      forward_seq = 0, reverse_seq = 0, state_entered = 0, last_activity = 0, pending_extend = None, pending_create = None,
      pending_created = None, token_verified = True, extend_via_relay = False\<rparr>"

definition demo_bridge :: "(u32 \<times> CircuitEntry) list \<Rightarrow> BridgeCircuitState" where
  "demo_bridge es = (set_out_circ_id_picker ucast (BridgeCircuitState_new 0 BridgePolicy_default))\<lparr>circuits := es\<rparr>"

lemmas demo_bridge_simps = demo_bridge_def set_out_circ_id_picker_def BridgeCircuitState_new_def BridgePolicy_default_def

theorem extend_reassembled_witness:
  "fst (bridge_run demo_circuit_crypto id
     (FromPrev \<lparr>c_circ_id = 1, c_command = CMD_EXTEND,
        c_body = replicate 32 0 @ [1, 1, 2, 3, 4] @ to_be (80 :: u16) @ to_be (1000 :: u16) @ replicate 976 9\<rparr> 3
      # msg_cells 1 CMD_EXTEND_CONT [(5, replicate 24 9)]) (demo_bridge [(1, demo_entry)])) =
   [Ok [], Ok [OpenNextHop 1 1 (replicate 32 0) (Ipv4 [1, 2, 3, 4] 80) (replicate 1000 9)]]"
proof -
  let ?x = "\<lparr>eb_next_hop_pk = replicate 32 0, eb_endpoint = Ipv4 [1, 2, 3, 4] 80, eb_hs_msg1 = replicate 1000 9\<rparr>"
  have "cont_bodies 1017 (replicate 24 (9 :: u8)) = [replicate 24 9]"
    by (subst cont_bodies.simps, subst cont_bodies.simps) simp
  then have enc: "ExtendBody_encode_fragmented ?x MAX_CELL_PAYLOAD =
      Ok (replicate 32 0 @ [1, 1, 2, 3, 4] @ to_be (80 :: u16) @ to_be (1000 :: u16) @ replicate 976 9, map snd [(5 :: nat, replicate 24 9)])"
    by (simp add: ExtendBody_encode_fragmented_def fragment_def Let_def cell_lens)
  have s: "hm_get (circuits (demo_bridge [(1, demo_entry)])) 1 = Some demo_entry" "pending_count (demo_bridge [(1, demo_entry)]) = 0"
    by (simp_all add: demo_bridge_simps hm_get_def pending_count_def demo_entry_def)
  have room: "pending_count (demo_bridge [(1, demo_entry)]) < bp_max_pending_handshakes (bc_policy (demo_bridge [(1, demo_entry)]))"
    unfolding s(2) by (simp add: demo_bridge_simps)
  have "alloc_loop 256 (out_circ_id_picker (demo_bridge [(1, demo_entry)])) (out_to_in (demo_bridge [(1, demo_entry)]))
      (out_circ_id_seq (demo_bridge [(1, demo_entry)])) = (Some 1, 1)"
    using alloc_loop.simps(2) [of 255] by (simp add: demo_bridge_simps hm_contains_def)
  from extend_reassembled [OF enc _ _ _ s(1) _ _ _ _ room this, of demo_circuit_crypto id 3] show ?thesis
    by (simp add: body_lens demo_entry_def del: bridge_run.simps)
qed

text \<open>Concrete runs.\<close>

lemmas bridge_eval = process_inbound_from_prev_def handle_create_def HandshakeBody_decode_partial_def msg_decode_partial_def
  from_be_def be_nat_def record_create_complete_def HandshakeBody_encode_fragmented_def fragment_def cont_bodies.simps [of _ "[]"]
  handle_extend_finish_def ExtendFinishBody_decode_def hm_eval put_entry_def pending_count_def cell_lens body_lens Cell_new_def
  Let_def demo_bridge_simps to_be_def

theorem token_gate_witness:
  "bridge_inv (set_relay_mode True (BridgeCircuitState_new 0 BridgePolicy_default)) \<and>
   fst (bridge_run demo_circuit_crypto id
     [FromPrev \<lparr>c_circ_id = 1, c_command = CMD_CREATE, c_body = [0, 1, 7]\<rparr> 0,
      CreateComplete 1 \<lparr>hk_forward = \<lparr>ol_key = [], ol_iv = []\<rparr>, hk_reverse = \<lparr>ol_key = [], ol_iv = []\<rparr>\<rparr> [] 0,
      FromPrev \<lparr>c_circ_id = 1, c_command = CMD_EXTEND_FINISH, c_body = [0, 1, 9]\<rparr> 0]
     (set_relay_mode True (BridgeCircuitState_new 0 BridgePolicy_default))) ! 2 = Ok [VerifyExtendFinish 1 [9]] \<and>
   \<not> list_ex reaches_network [VerifyExtendFinish 1 [9]]"
proof -
  let ?st = "set_relay_mode True (BridgeCircuitState_new 0 BridgePolicy_default)"
  let ?k = "\<lparr>hk_forward = \<lparr>ol_key = [], ol_iv = []\<rparr>, hk_reverse = \<lparr>ol_key = [], ol_iv = []\<rparr>\<rparr>"
  let ?c = "\<lparr>c_circ_id = 1, c_command = CMD_EXTEND_FINISH, c_body = [0, 1, 9]\<rparr>"
  let ?ops = "[FromPrev \<lparr>c_circ_id = 1, c_command = CMD_CREATE, c_body = [0, 1, 7]\<rparr> 0, CreateComplete 1 ?k [] 0, FromPrev ?c 0]"
  have inv: "bridge_inv ?st" by (simp add: bridge_inv_def set_relay_mode_def BridgeCircuitState_new_def)
  have run: "fst (bridge_run demo_circuit_crypto id ?ops ?st) =
      [Ok [PerformHandshake 1 [7]], Ok [SendToPrev 1 \<lparr>c_circ_id = 1, c_command = CMD_CREATED, c_body = to_be (0 :: u16)\<rparr>], Ok [VerifyExtendFinish 1 [9]]]"
    by (simp add: bridge_eval set_relay_mode_def)
  have "(FromPrev ?c 0, Ok [VerifyExtendFinish 1 [9]]) \<in> set (zip ?ops (fst (bridge_run demo_circuit_crypto id ?ops ?st)))"
    unfolding run by simp
  from token_gate [OF inv _ _ _ this] have "\<not> list_ex reaches_network [VerifyExtendFinish 1 [9]]"
    by (simp add: set_relay_mode_def BridgeCircuitState_new_def)
  with inv run show ?thesis by simp
qed

definition extend_twice :: "BridgeOp list" where
  "extend_twice =
     (let k = \<lparr>hk_forward = \<lparr>ol_key = [], ol_iv = []\<rparr>, hk_reverse = \<lparr>ol_key = [], ol_iv = []\<rparr>\<rparr>;
          request = replicate 32 0 @ [1, 1, 2, 3, 4, 0, 80, 0, 2, 9]
      in [FromPrev \<lparr>c_circ_id = 1, c_command = CMD_CREATE, c_body = [0, 1, 7]\<rparr> 0, CreateComplete 1 k [] 0,
          FromPrev \<lparr>c_circ_id = 2, c_command = CMD_CREATE, c_body = [0, 1, 7]\<rparr> 0, CreateComplete 2 k [] 0,
          FromPrev \<lparr>c_circ_id = 1, c_command = CMD_EXTEND, c_body = request\<rparr> 0,
          FromPrev \<lparr>c_circ_id = 2, c_command = CMD_EXTEND, c_body = request\<rparr> 0,
          FromPrev \<lparr>c_circ_id = 1, c_command = CMD_EXTEND_CONT, c_body = [8]\<rparr> 0,
          FromPrev \<lparr>c_circ_id = 2, c_command = CMD_EXTEND_CONT, c_body = [8]\<rparr> 0])"

lemma request_decodes:
  "ExtendHeader_decode_partial (replicate 32 0 @ [1, 1, 2, 3, 4, 0, 80, 0, 2, 9]) =
     Ok (\<lparr>eh_next_hop_pk = replicate 32 0, eh_endpoint = Ipv4 [1, 2, 3, 4] 80, eh_total_len = 2\<rparr>, [9])"
  by (simp add: ExtendHeader_decode_partial_def HopEndpoint_decode_def Let_def from_be_def be_nat_def body_lens)


end
