(* ===== verification/Circuit_Path.thy ===== *)
theory Circuit_Path
  imports Circuit_Bridge
begin

text \<open>
  A circuit end to end: the client of \<open>circuit.rs\<close> and the bridges of \<open>bridge_circuit.rs\<close> on its path, connected
  by the cells they send each other.  The theory shows that a payload the client seals comes out at the exit, that a
  payload of the exit comes out at the client, and that the counters of the client and of every hop agree afterwards,
  for every number of hops and also when hops were added after cells had been sent.  It also shows what goes wrong when the
  bytes under a layer happen to look like a control message.
\<close>

section \<open>The path of a cell\<close>

text \<open>
  A cell from the client is handled by the first bridge; when that bridge's action is to send a cell to the next hop,
  the next bridge handles it.  The result is that of the last bridge reached.
\<close>

fun carry_forward :: "circuit_crypto \<Rightarrow> instant \<Rightarrow> Cell \<Rightarrow> BridgeCircuitState list
    \<Rightarrow> (BridgeCircuitError + BridgeAction list) \<times> BridgeCircuitState list" where
  "carry_forward cr now c [] = (Ok [], [])"
| "carry_forward cr now c (b # bs) =
     (case process_inbound_from_prev cr c now b of
        (Inr [SendToNext x c'], b') \<Rightarrow>
          if bs = [] then (Ok [SendToNext x c'], [b']) else map_prod id ((#) b') (carry_forward cr now c' bs)
      | (r, b') \<Rightarrow> (r, b' # bs))"

text \<open>A payload of the exit is wrapped there, and by every bridge before it on the way back.\<close>

fun carry_back :: "circuit_crypto \<Rightarrow> instant \<Rightarrow> u32 \<Rightarrow> bytes \<Rightarrow> BridgeCircuitState list
    \<Rightarrow> (BridgeCircuitError + BridgeAction list) \<times> BridgeCircuitState list" where
  "carry_back cr now exit_id m [] = (Ok [], [])"
| "carry_back cr now exit_id m (b # bs) =
     (if bs = [] then map_prod id (\<lambda>b'. [b']) (inject_exit_response cr exit_id m now b)
      else case carry_back cr now exit_id m bs of
             (Inr [SendToPrev x c], bs') \<Rightarrow> map_prod id (\<lambda>b'. b' # bs') (process_inbound_from_next cr c now b)
           | (r, bs') \<Rightarrow> (r, b # bs'))"

text \<open>What the client keeps of its hops: the two layers and the two counters of each.\<close>

type_synonym hop = "OnionLayer \<times> OnionLayer \<times> u64 \<times> u64"

fun circuit_hops :: "OnionLayer list \<Rightarrow> OnionLayer list \<Rightarrow> u64 list \<Rightarrow> u64 list \<Rightarrow> hop list" where
  "circuit_hops (f # fs) (r # rs) (s # ss) (t # ts) = (f, r, s, t) # circuit_hops fs rs ss ts"
| "circuit_hops _ _ _ _ = []"

definition hops :: "Circuit \<Rightarrow> hop list" where
  "hops c = circuit_hops (ci_forward c) (ci_reverse c) (ci_c2h_seq c) (ci_h2c_seq c)"

definition circuit_ok :: "Circuit \<Rightarrow> bool" where
  "circuit_ok c \<longleftrightarrow> length (ci_reverse c) = length (ci_forward c) \<and> length (ci_c2h_seq c) = length (ci_forward c) \<and>
     length (ci_h2c_seq c) = length (ci_forward c) \<and> ci_epoch c = 0 \<and> \<not> ci_destroyed c \<and> ci_forward c \<noteq> []"

text \<open>
  The entry of a circuit at a bridge agrees with what the client keeps of that hop.  \<open>aligned hs cid bs\<close> says so of all
  hops, where \<open>cid\<close> is the identifier on the link into the first, and that each hop's links are connected to the next.
\<close>

definition hop_entry :: "hop \<Rightarrow> u32 \<Rightarrow> BridgeCircuitState \<Rightarrow> CircuitEntry \<Rightarrow> bool" where
  "hop_entry h cid b e \<longleftrightarrow>
     (case h of (f, r, s, t) \<Rightarrow>
        cid \<noteq> 0 \<and> hm_get (circuits b) cid = Some e \<and> ce_state e = Open \<and> prev_keys e = Some \<lparr>hk_forward = f, hk_reverse = r\<rparr> \<and>
        forward_seq e = s \<and> reverse_seq e = t \<and> (\<not> relay_mode b \<or> token_verified e))"

fun aligned :: "hop list \<Rightarrow> u32 \<Rightarrow> BridgeCircuitState list \<Rightarrow> bool" where
  "aligned [h] cid [b] = (\<exists>e. hop_entry h cid b e \<and> out_circ_id e = None)"
| "aligned (h # h' # hs) cid (b # b' # bs) =
     (\<exists>e x. hop_entry h cid b e \<and> out_circ_id e = Some x \<and> hm_get (out_to_in b) x = Some cid \<and> aligned (h' # hs) x (b' # bs))"
| "aligned _ _ _ = False"

text \<open>The identifier under which the last bridge of a path knows the circuit.\<close>

fun exit_circ :: "u32 \<Rightarrow> BridgeCircuitState list \<Rightarrow> u32" where
  "exit_circ cid (b # b' # bs) = (case hm_get (circuits b) cid of None \<Rightarrow> cid | Some e \<Rightarrow>
     (case out_circ_id e of None \<Rightarrow> cid | Some x \<Rightarrow> exit_circ x (b' # bs)))"
| "exit_circ cid _ = cid"

section \<open>Bytes that are not a control message\<close>

text \<open>The bytes under a layer are forwarded unless they parse as one of the sub-cells a hop acts on itself.\<close>

definition plain :: "bytes \<Rightarrow> bool" where
  "plain b \<longleftrightarrow> (case RelaySubCell_decode b of Inl e \<Rightarrow> True
     | Inr s \<Rightarrow> sub_command s \<notin> {CMD_EXTEND, CMD_EXTEND_CONT, CMD_EXTEND_FINISH, CMD_DESTROY, CMD_PADDING})"

lemma relay_dispatch_plain:
  assumes "plain b" "\<not> relay_mode st \<or> token_verified e"
  shows "relay_dispatch cid b now e st =
    (case out_circ_id e of
       Some x \<Rightarrow> (case Cell_new x CMD_RELAY b of Inl y \<Rightarrow> (Err (CellFault y), st) | Inr c \<Rightarrow> (Ok [SendToNext x c], st))
     | None \<Rightarrow> (Ok [RelayPayloadAtExit cid b], st))"
  using assms by (cases "RelaySubCell_decode b") (auto simp: relay_dispatch_def plain_def Let_def)

section \<open>Layers and hops\<close>

lemma seal_hops_append:
  "seal_hops cr e (xs @ ys) m = (case seal_hops cr e xs m of Inl x \<Rightarrow> Err x | Inr p \<Rightarrow> seal_hops cr e ys p)"
  by (induction xs arbitrary: m) (auto split: sum.splits)

text \<open>The onion for a list of hops: every layer adds sixteen bytes, and the first layer opens to the onion for the rest.\<close>

lemma seal_hops_total:
  assumes "onion_aead cr" "e \<le> ONION_MAX_EPOCH"
  shows "length m + 16 * length hs < 2 ^ 32 - 16 \<Longrightarrow>
    \<exists>w. seal_hops cr e (rev hs) m = Ok w \<and> length w = length m + 16 * length hs"
proof (induction hs)
  case (Cons h hs)
  then obtain p where p: "seal_hops cr e (rev hs) m = Ok p" "length p = length m + 16 * length hs" by auto
  obtain l s where h: "h = (l, s)" by (cases h)
  have "length p < 2 ^ 32 - 16" using p(2) Cons.prems by simp
  from onion_seal1 [OF assms(1) this assms(2)] obtain w where
    "onion_seal cr [l] p DIR_CLIENT_TO_HOP e s = Ok w" "length w = length p + 16" by blast
  with p h show ?case by (simp add: seal_hops_append)
qed simp

lemma seal_hops_peel:
  assumes "onion_aead cr" "e \<le> ONION_MAX_EPOCH" "length m + 16 * length hs < 2 ^ 32 - 16"
    and "seal_hops cr e (rev ((l, s) # hs)) m = Ok w"
  obtains p where "seal_hops cr e (rev hs) m = Ok p" "onion_open cr [l] w DIR_CLIENT_TO_HOP e s = Ok p"
    "length p = length m + 16 * length hs"
proof -
  obtain p where p: "seal_hops cr e (rev hs) m = Ok p" "length p = length m + 16 * length hs"
    using seal_hops_total [OF assms(1,2,3)] by blast
  then have "onion_seal cr [l] p DIR_CLIENT_TO_HOP e s = Ok w"
    using assms(4) by (simp add: seal_hops_append split: sum.splits)
  moreover have "length p + 16 * length [l] < 2 ^ 32" using p(2) assms(3) by simp
  ultimately have "onion_open cr [l] w DIR_CLIENT_TO_HOP e s = Ok p"
    by (simp add: onion_seal_open [OF assms(1)])
  with p that show ?thesis by blast
qed

abbreviation fwd :: "hop \<Rightarrow> OnionLayer \<times> u64" where "fwd \<equiv> \<lambda>(f, r, s, t). (f, s)"
abbreviation bwd :: "hop \<Rightarrow> OnionLayer \<times> u64" where "bwd \<equiv> \<lambda>(f, r, s, t). (r, t)"
abbreviation sent :: "hop \<Rightarrow> hop" where "sent \<equiv> \<lambda>(f, r, s, t). (f, r, s + 1, t)"
abbreviation received :: "hop \<Rightarrow> hop" where "received \<equiv> \<lambda>(f, r, s, t). (f, r, s, t + 1)"

text \<open>Under every layer of the onion for these hops there are plain bytes, the payload itself included.\<close>

fun onion_plain :: "circuit_crypto \<Rightarrow> hop list \<Rightarrow> bytes \<Rightarrow> bool" where
  "onion_plain cr [] m = True"
| "onion_plain cr (h # hs) m =
     ((case seal_hops cr 0 (rev (map fwd hs)) m of Inl e \<Rightarrow> False | Inr p \<Rightarrow> plain p) \<and> onion_plain cr hs m)"

lemma hop_forward:
  fixes now :: instant
  assumes e: "hop_entry (f, r, s, t) cid b e" and p: "onion_open cr [f] w DIR_CLIENT_TO_HOP 0 s = Ok p" "s \<noteq> - 1" "plain p"
  defines "b' \<equiv> put_entry cid (e\<lparr>forward_seq := s + 1, last_activity := now\<rparr>) b"
  shows "process_inbound_from_prev cr \<lparr>c_circ_id = cid, c_command = CMD_RELAY, c_body = w\<rparr> now b =
      (case out_circ_id e of
         Some x \<Rightarrow> (case Cell_new x CMD_RELAY p of Inl y \<Rightarrow> (Err (CellFault y), b') | Inr c \<Rightarrow> (Ok [SendToNext x c], b'))
       | None \<Rightarrow> (Ok [RelayPayloadAtExit cid p], b'))"
    "hop_entry (f, r, s + 1, t) cid b' (e\<lparr>forward_seq := s + 1, last_activity := now\<rparr>)"
proof -
  let ?e = "e\<lparr>forward_seq := s + 1, last_activity := now\<rparr>"
  have k: "hm_get (circuits b) cid = Some e" "ce_state e = Open" "prev_keys e = Some \<lparr>hk_forward = f, hk_reverse = r\<rparr>"
    "forward_seq e = s" "\<not> relay_mode b \<or> token_verified e"
    using e by (simp_all add: hop_entry_def)
  have "process_inbound_from_prev cr \<lparr>c_circ_id = cid, c_command = CMD_RELAY, c_body = w\<rparr> now b = relay_dispatch cid p now ?e b'"
    using k p by (simp add: process_inbound_from_prev_def handle_relay_from_prev_def Let_def b'_def)
  moreover have "\<not> relay_mode b' \<or> token_verified ?e" using k(5) by (simp add: b'_def)
  ultimately show "process_inbound_from_prev cr \<lparr>c_circ_id = cid, c_command = CMD_RELAY, c_body = w\<rparr> now b =
      (case out_circ_id e of
         Some x \<Rightarrow> (case Cell_new x CMD_RELAY p of Inl y \<Rightarrow> (Err (CellFault y), b') | Inr c \<Rightarrow> (Ok [SendToNext x c], b'))
       | None \<Rightarrow> (Ok [RelayPayloadAtExit cid p], b'))"
    using relay_dispatch_plain [OF p(3)] by simp
  show "hop_entry (f, r, s + 1, t) cid b' ?e" using e by (simp add: hop_entry_def b'_def hm_laws)
qed

lemma aligned_id: "aligned hs cid bs \<Longrightarrow> cid \<noteq> 0"
  by (induction hs cid bs rule: aligned.induct) (auto simp: hop_entry_def split: prod.splits)

lemma path_forward:
  assumes laws: "onion_aead cr"
  shows "aligned hs cid bs \<Longrightarrow> list_all (\<lambda>(f, r, s, t). s \<noteq> - 1) hs \<Longrightarrow> length m + 16 * length hs \<le> MAX_CELL_PAYLOAD \<Longrightarrow>
    onion_plain cr hs m \<Longrightarrow> seal_hops cr 0 (rev (map fwd hs)) m = Ok w \<Longrightarrow>
    \<exists>bs'. carry_forward cr now \<lparr>c_circ_id = cid, c_command = CMD_RELAY, c_body = w\<rparr> bs =
        (Ok [RelayPayloadAtExit (exit_circ cid bs) m], bs') \<and> aligned (map sent hs) cid bs'"
proof (induction hs cid bs arbitrary: w rule: aligned.induct)
  case (1 h cid b)
  obtain f r s t where h: "h = (f, r, s, t)" by (cases h)
  obtain e where e: "hop_entry (f, r, s, t) cid b e" "out_circ_id e = None" using "1.prems"(1) h by auto
  have "seal_hops cr 0 (rev ((f, s) # map fwd [])) m = Ok w" using "1.prems"(5) h by simp
  then obtain p where p: "seal_hops cr 0 (rev []) m = Ok p" "onion_open cr [f] w DIR_CLIENT_TO_HOP 0 s = Ok p"
    by (rule seal_hops_peel [OF laws, rotated 2]) (use "1.prems"(3) in \<open>simp_all add: cell_lens\<close>)
  have pm: "p = m" using p(1) by simp
  have "s \<noteq> - 1" "plain m" using "1.prems"(2,4) h by auto
  note k = hop_forward [OF e(1) p(2)]
  show ?case
    using k(1) [unfolded pm] k(2) [unfolded pm] e(2) \<open>s \<noteq> - 1\<close> \<open>plain m\<close> h by (auto simp: hop_entry_def)
next
  case (2 h h' hs cid b b' bs)
  obtain f r s t where h: "h = (f, r, s, t)" by (cases h)
  obtain e x where e: "hop_entry (f, r, s, t) cid b e" "out_circ_id e = Some x" "hm_get (out_to_in b) x = Some cid"
      and al: "aligned (h' # hs) x (b' # bs)" using "2.prems"(1) h by auto
  have "seal_hops cr 0 (rev ((f, s) # map fwd (h' # hs))) m = Ok w" using "2.prems"(5) h by simp
  then obtain p where p: "seal_hops cr 0 (rev (map fwd (h' # hs))) m = Ok p" "onion_open cr [f] w DIR_CLIENT_TO_HOP 0 s = Ok p"
      "length p = length m + 16 * length (map fwd (h' # hs))"
    by (rule seal_hops_peel [OF laws, rotated 2]) (use "2.prems"(3) in \<open>simp_all add: cell_lens\<close>)
  have s: "s \<noteq> - 1" and pl: "plain p" using "2.prems"(2,4) h p(1) by auto
  note k = hop_forward [OF e(1) p(2) s pl]
  have c: "Cell_new x CMD_RELAY p = Ok \<lparr>c_circ_id = x, c_command = CMD_RELAY, c_body = p\<rparr>"
    using aligned_id [OF al] p(3) "2.prems"(3) by (simp add: Cell_new_def)
  have "\<exists>bs'. carry_forward cr now \<lparr>c_circ_id = x, c_command = CMD_RELAY, c_body = p\<rparr> (b' # bs) =
      (Ok [RelayPayloadAtExit (exit_circ x (b' # bs)) m], bs') \<and> aligned (map sent (h' # hs)) x bs'"
    by (rule "2.IH" [OF al]) (use "2.prems" p(1) in auto)
  then obtain bs' where bs': "carry_forward cr now \<lparr>c_circ_id = x, c_command = CMD_RELAY, c_body = p\<rparr> (b' # bs) =
      (Ok [RelayPayloadAtExit (exit_circ x (b' # bs)) m], bs')" "aligned (map sent (h' # hs)) x bs'" by blast
  have ex: "exit_circ cid (b # b' # bs) = exit_circ x (b' # bs)" using e by (simp add: hop_entry_def)
  obtain c1 cs where cs: "bs' = c1 # cs" using bs'(2) by (cases bs') auto
  show ?case
    unfolding ex using k(1,2) [of now] c e bs' h cs by (auto simp: hop_entry_def)
qed auto

lemma hop_back:
  fixes now :: instant
  assumes e: "hop_entry (f, r, s, t) cid b e" and w: "onion_seal cr [r] p DIR_HOP_TO_CLIENT 0 t = Ok w" "t \<noteq> - 1" "length w \<le> MAX_CELL_PAYLOAD"
  defines "e' \<equiv> e\<lparr>reverse_seq := t + 1, last_activity := now\<rparr>"
  shows "handle_relay_from_next cr cid p now b =
      (Ok [SendToPrev cid \<lparr>c_circ_id = cid, c_command = CMD_RELAY, c_body = w\<rparr>], put_entry cid e' b)"
    "hop_entry (f, r, s, t + 1) cid (put_entry cid e' b) e'"
  using e w by (simp_all add: hop_entry_def handle_relay_from_next_def Let_def Cell_new_def e'_def hm_laws)

lemma path_back:
  assumes laws: "onion_aead cr"
  shows "aligned hs cid bs \<Longrightarrow> list_all (\<lambda>(f, r, s, t). t \<noteq> - 1) hs \<Longrightarrow> length m + 16 * length hs \<le> MAX_CELL_PAYLOAD \<Longrightarrow>
    \<exists>w bs'. carry_back cr now (exit_circ cid bs) m bs =
        (Ok [SendToPrev cid \<lparr>c_circ_id = cid, c_command = CMD_RELAY, c_body = w\<rparr>], bs') \<and>
      length w = length m + 16 * length hs \<and> open_hops cr 0 (map bwd hs) w = Ok m \<and> aligned (map received hs) cid bs'"
proof (induction hs cid bs rule: aligned.induct)
  case (1 h cid b)
  obtain f r s t where h: "h = (f, r, s, t)" by (cases h)
  obtain e where e: "hop_entry (f, r, s, t) cid b e" "out_circ_id e = None" using "1.prems"(1) h by auto
  have "length m < 2 ^ 32 - 16" using "1.prems"(3) by (simp add: cell_lens)
  then obtain w where w: "onion_seal cr [r] m DIR_HOP_TO_CLIENT 0 t = Ok w" "length w = length m + 16"
      "onion_open cr [r] w DIR_HOP_TO_CLIENT 0 t = Ok m" by (rule onion_seal1 [OF laws, where e = 0]) simp_all
  have "t \<noteq> - 1" "length w \<le> MAX_CELL_PAYLOAD" using "1.prems"(2,3) h w(2) by auto
  note k = hop_back [OF e(1) w(1) this, of now]
  let ?e = "e\<lparr>reverse_seq := t + 1, last_activity := now\<rparr>"
  have "out_circ_id ?e = None" using e(2) by simp
  with k(2) h have "aligned (map received [h]) cid [put_entry cid ?e b]" by auto
  with k(1) w h show ?case by (simp add: inject_exit_response_def)
next
  case (2 h h' hs cid b b' bs)
  obtain f r s t where h: "h = (f, r, s, t)" by (cases h)
  obtain e x where e: "hop_entry (f, r, s, t) cid b e" "out_circ_id e = Some x" "hm_get (out_to_in b) x = Some cid"
      and al: "aligned (h' # hs) x (b' # bs)" using "2.prems"(1) h by auto
  have "\<exists>w bs'. carry_back cr now (exit_circ x (b' # bs)) m (b' # bs) =
        (Ok [SendToPrev x \<lparr>c_circ_id = x, c_command = CMD_RELAY, c_body = w\<rparr>], bs') \<and>
      length w = length m + 16 * length (h' # hs) \<and> open_hops cr 0 (map bwd (h' # hs)) w = Ok m \<and> aligned (map received (h' # hs)) x bs'"
    by (rule "2.IH" [OF al]) (use "2.prems" in auto)
  then obtain p bs' where p: "carry_back cr now (exit_circ x (b' # bs)) m (b' # bs) =
        (Ok [SendToPrev x \<lparr>c_circ_id = x, c_command = CMD_RELAY, c_body = p\<rparr>], bs')"
      "length p = length m + 16 * length (h' # hs)" "open_hops cr 0 (map bwd (h' # hs)) p = Ok m" "aligned (map received (h' # hs)) x bs'"
    by blast
  have "length p < 2 ^ 32 - 16" using "2.prems"(3) p(2) by (simp add: cell_lens)
  then obtain w where w: "onion_seal cr [r] p DIR_HOP_TO_CLIENT 0 t = Ok w" "length w = length p + 16"
      "onion_open cr [r] w DIR_HOP_TO_CLIENT 0 t = Ok p" by (rule onion_seal1 [OF laws, where e = 0]) simp_all
  have "t \<noteq> - 1" "length w \<le> MAX_CELL_PAYLOAD" using "2.prems"(2,3) h w(2) p(2) by auto
  note k = hop_back [OF e(1) w(1) this, of now]
  have ex: "exit_circ cid (b # b' # bs) = exit_circ x (b' # bs)" using e by (simp add: hop_entry_def)
  obtain c1 cs where cs: "bs' = c1 # cs" using p(4) by (cases bs') auto
  let ?b = "put_entry cid (e\<lparr>reverse_seq := t + 1, last_activity := now\<rparr>) b"
  have "carry_back cr now (exit_circ cid (b # b' # bs)) m (b # b' # bs) =
      (Ok [SendToPrev cid \<lparr>c_circ_id = cid, c_command = CMD_RELAY, c_body = w\<rparr>], ?b # bs')"
    unfolding ex carry_back.simps(2) [of cr now _ m b] p(1) using k(1) e(3) by (simp add: process_inbound_from_next_def)
  moreover have "out_circ_id (e\<lparr>reverse_seq := t + 1, last_activity := now\<rparr>) = Some x" "hm_get (out_to_in ?b) x = Some cid"
    using e by simp_all
  then have "aligned (map received (h # h' # hs)) cid (?b # bs')" using k(2) p(4) h cs by auto
  ultimately show ?case using w p h by auto
qed auto

section \<open>The client and its circuit\<close>

lemma circuit_hops_maps:
  assumes "length rs = length fs" "length ss = length fs" "length ts = length fs"
  shows "map fwd (circuit_hops fs rs ss ts) = zip fs ss" "map bwd (circuit_hops fs rs ss ts) = zip rs ts"
    "map sent (circuit_hops fs rs ss ts) = circuit_hops fs rs (map (\<lambda>s. s + 1) ss) ts"
    "map received (circuit_hops fs rs ss ts) = circuit_hops fs rs ss (map (\<lambda>s. s + 1) ts)"
    "list_all (\<lambda>(f, r, s, t). s \<noteq> - 1) (circuit_hops fs rs ss ts) = list_all (\<lambda>s. s \<noteq> - 1) ss"
    "list_all (\<lambda>(f, r, s, t). t \<noteq> - 1) (circuit_hops fs rs ss ts) = list_all (\<lambda>s. s \<noteq> - 1) ts"
    "length (circuit_hops fs rs ss ts) = length fs"
  using assms by (induction fs rs ss ts rule: circuit_hops.induct) (auto simp: neq_Nil_conv)

lemma advance_seqs_ok: "list_all (\<lambda>s. s \<noteq> - 1) ss \<Longrightarrow> advance_seqs ss = (True, map (\<lambda>s. s + 1) ss)"
  by (induction ss) auto

lemma aligned_length: "aligned hs cid bs \<Longrightarrow> length bs = length hs"
  by (induction hs cid bs rule: aligned.induct) auto


text \<open>
  C5: A payload of the exit comes out at the client.  Under the same agreement, the exit and every bridge before it
  wrap the payload, the client opens the cell it receives to exactly that payload, and the circuit agrees with the
  bridges again.
\<close>

theorem circuit_backward:
  assumes laws: "onion_aead cr" and c: "circuit_ok c" and al: "aligned (hops c) cid bs"
    and t: "list_all (\<lambda>t. t \<noteq> - 1) (ci_h2c_seq c)" and l: "length m + 16 * length bs \<le> MAX_CELL_PAYLOAD"
  shows "\<exists>w c' bs'. carry_back cr now (exit_circ cid bs) m bs =
      (Ok [SendToPrev cid \<lparr>c_circ_id = cid, c_command = CMD_RELAY, c_body = w\<rparr>], bs') \<and>
    relay_open cr w c = (Ok m, c') \<and> circuit_ok c' \<and> aligned (hops c') cid bs'"
proof -
  have len: "length (ci_reverse c) = length (ci_forward c)" "length (ci_c2h_seq c) = length (ci_forward c)"
    "length (ci_h2c_seq c) = length (ci_forward c)" and ep: "ci_epoch c = 0" "\<not> ci_destroyed c" "ci_reverse c \<noteq> []"
    using c by (auto simp: circuit_ok_def)
  note m = circuit_hops_maps [OF len, folded hops_def]
  let ?c = "c\<lparr>ci_h2c_seq := map (\<lambda>s. s + 1) (ci_h2c_seq c)\<rparr>"
  obtain w bs' where w: "carry_back cr now (exit_circ cid bs) m bs =
      (Ok [SendToPrev cid \<lparr>c_circ_id = cid, c_command = CMD_RELAY, c_body = w\<rparr>], bs')"
      "open_hops cr 0 (zip (ci_reverse c) (ci_h2c_seq c)) w = Ok m" "aligned (map received (hops c)) cid bs'"
    using path_back [OF laws al, of m now] m(2,6) t l aligned_length [OF al] by auto
  have "relay_open cr w c = (Ok m, ?c)" using ep w(2) advance_seqs_ok [OF t] by (simp add: relay_open_def)
  moreover have "hops ?c = map received (hops c)" "circuit_ok ?c" using m(4) c by (simp_all add: hops_def circuit_ok_def)
  ultimately show ?thesis using w by metis
qed

text \<open>A circuit of two hops, of which the first had carried five cells before the second was added.\<close>

definition demo_layer :: "u8 \<Rightarrow> OnionLayer" where
  "demo_layer b = \<lparr>ol_key = replicate 32 b, ol_iv = replicate 12 0\<rparr>"

definition demo_circuit :: Circuit where
  "demo_circuit =
     \<lparr>ci_forward = [demo_layer 1, demo_layer 1], ci_reverse = [demo_layer 2, demo_layer 2], ci_c2h_seq = [5, 0], ci_h2c_seq = [3, 0],
      ci_epoch = 0, ci_destroyed = False\<rparr>"

definition demo_path :: "BridgeCircuitState list" where
  "demo_path =
     [(demo_bridge [(1, demo_entry\<lparr>out_circ_id := Some 7, forward_seq := 5, reverse_seq := 3\<rparr>)])\<lparr>out_to_in := [(7, 1)]\<rparr>,
      demo_bridge [(7, demo_entry)]]"

lemma demo_path_aligned: "circuit_ok demo_circuit" "aligned (hops demo_circuit) 1 demo_path"
  by (simp_all add: circuit_ok_def demo_circuit_def hops_def demo_path_def hop_entry_def hm_get_def demo_bridge_simps demo_entry_def
      demo_layer_def)

lemma demo_path_plain: "onion_plain demo_circuit_crypto (hops demo_circuit) [7]"
  by (simp add: hops_def demo_circuit_def plain_def onion_seal_def demo_circuit_crypto_def RelaySubCell_decode_def Let_def
      body_lens from_be_def be_nat_def)


theorem circuit_backward_witness:
  "circuit_ok demo_circuit \<and> aligned (hops demo_circuit) 1 demo_path \<and>
   (\<exists>w c' bs'. carry_back demo_circuit_crypto 9 (exit_circ 1 demo_path) [7] demo_path =
       (Ok [SendToPrev 1 \<lparr>c_circ_id = 1, c_command = CMD_RELAY, c_body = w\<rparr>], bs') \<and>
     relay_open demo_circuit_crypto w demo_circuit = (Ok [7], c') \<and> circuit_ok c' \<and> aligned (hops c') 1 bs')"
proof -
  have "list_all (\<lambda>t. t \<noteq> - 1) (ci_h2c_seq demo_circuit)" "length [7 :: u8] + 16 * length demo_path \<le> MAX_CELL_PAYLOAD"
    by (simp_all add: demo_circuit_def demo_path_def cell_lens)
  from circuit_backward [OF demo_circuit_laws demo_path_aligned this] demo_path_aligned
  show ?thesis by blast
qed

section \<open>Adding a hop\<close>

lemma dispatch_entry:
  assumes "dispatch_pending_extend cid p t b = (Ok [OpenNextHop i x pk ep m], b1)" "hm_get (circuits b) cid = Some e"
  shows "hm_get (circuits b1) cid = Some (e\<lparr>ce_state := Extending, state_entered := t, last_activity := t, out_circ_id := Some x,
      pending_extend := None\<rparr>)" "hm_get (out_to_in b1) x = Some cid" "relay_mode b1 = relay_mode b" "x \<noteq> 0"
  using assms by (auto simp: dispatch_pending_extend_def allocate_out_circ_id_def hm_laws split: prod.splits option.splits
      dest: alloc_loop_fresh)

lemma last_request_cell:
  assumes "process_inbound_from_prev cr cl t b = (Ok [OpenNextHop i x pk ep m], b1)" "c_circ_id cl = cid"
    and "c_command cl = CMD_EXTEND \<or> c_command cl = CMD_EXTEND_CONT"
    and e: "hop_entry (f, r, s, t') cid b e" "\<not> extend_via_relay e"
  shows "\<exists>e1. hm_get (circuits b1) cid = Some e1 \<and> ce_state e1 = Extending \<and> out_circ_id e1 = Some x \<and> prev_keys e1 = prev_keys e \<and>
    forward_seq e1 = s \<and> reverse_seq e1 = t' \<and> token_verified e1 = token_verified e \<and> \<not> extend_via_relay e1 \<and>
    hm_get (out_to_in b1) x = Some cid \<and> relay_mode b1 = relay_mode b \<and> x \<noteq> 0"
proof -
  have k: "hm_get (circuits b) cid = Some e" "ce_state e = Open" "forward_seq e = s" "reverse_seq e = t'"
    using e by (simp_all add: hop_entry_def)
  have "\<exists>p e0. dispatch_pending_extend cid p t (put_entry cid e0 b) = (Ok [OpenNextHop i x pk ep m], b1) \<and> prev_keys e0 = prev_keys e \<and>
      forward_seq e0 = s \<and> reverse_seq e0 = t' \<and> token_verified e0 = token_verified e \<and> \<not> extend_via_relay e0"
  proof (cases "c_command cl = CMD_EXTEND")
    case True
    with assms(1,2) k e(2) show ?thesis
      by (fastforce simp: process_inbound_from_prev_def handle_extend_def Let_def split: if_splits sum.splits prod.splits)
  next
    case False
    with assms(1-3) k e(2) show ?thesis
      by (fastforce simp: process_inbound_from_prev_def handle_extend_cont_def Let_def split: if_splits option.splits)
  qed
  then obtain p e0 where d: "dispatch_pending_extend cid p t (put_entry cid e0 b) = (Ok [OpenNextHop i x pk ep m], b1)"
      and e0: "prev_keys e0 = prev_keys e" "forward_seq e0 = s" "reverse_seq e0 = t'" "token_verified e0 = token_verified e"
        "\<not> extend_via_relay e0" by blast
  have "hm_get (circuits (put_entry cid e0 b)) cid = Some e0" by (simp add: hm_laws)
  from dispatch_entry [OF d this] e0 show ?thesis by auto
qed

lemma extended_entry:
  assumes "hm_get (circuits b) cid = Some e" "ce_state e = Extending" "\<not> extend_via_relay e"
  shows "hm_get (circuits (snd (record_extend_complete cr cid m t b))) cid =
      Some (e\<lparr>ce_state := Open, state_entered := t, last_activity := t, pending_created := None\<rparr>)"
    "out_to_in (snd (record_extend_complete cr cid m t b)) = out_to_in b"
    "relay_mode (snd (record_extend_complete cr cid m t b)) = relay_mode b"
  using assms by (auto simp: record_extend_complete_def emit_extended_def Let_def hm_laws split: sum.splits)

lemma created_entry:
  assumes "handle_create x first t b = (Ok acts, b1)" "record_create_complete x k m t1 b1 = (Ok acts', b2)" "record_token_verified x b2 = (Ok (), b3)"
    and "x \<noteq> 0"
  shows "\<exists>e. hop_entry (hk_forward k, hk_reverse k, 0, 0) x b3 e \<and> out_circ_id e = None"
proof -
  from assms(1) obtain e1 where e1: "hm_get (circuits b1) x = Some e1" "ce_state e1 = Creating" "forward_seq e1 = 0" "reverse_seq e1 = 0"
      "out_circ_id e1 = None"
    by (auto simp: handle_create_def Let_def hm_laws split: option.splits if_splits sum.splits prod.splits)
  let ?e2 = "e1\<lparr>ce_state := Open, state_entered := t1, last_activity := t1, prev_keys := Some k\<rparr>"
  have "b2 = put_entry x ?e2 b1"
    using assms(2) e1(1,2) by (auto simp: record_create_complete_def Let_def split: sum.splits prod.splits)
  then have "b3 = put_entry x (?e2\<lparr>token_verified := True\<rparr>) b2"
    using assms(3) by (simp add: record_token_verified_def hm_laws)
  with e1 assms(4) show ?thesis by (auto simp: hop_entry_def hm_laws)
qed

lemma circuit_hops_snoc:
  assumes "length rs = length fs" "length ss = length fs" "length ts = length fs"
  shows "circuit_hops (fs @ [f]) (rs @ [r]) (ss @ [s]) (ts @ [t]) = circuit_hops fs rs ss ts @ [(f, r, s, t)]"
  using assms by (induction fs rs ss ts rule: circuit_hops.induct) (auto simp: neq_Nil_conv)

text \<open>
  C14: A circuit can grow after it has carried cells.  When the only hop of a circuit has taken the last cell of a request to
  extend, the new hop has created the circuit, finished the handshake and verified the token, and the first hop has
  returned the reply, then extending the client's circuit by the same keys gives a circuit of two hops that agrees with both
  bridges: the counters of the new hop start at zero, those of the first hop stay where they were.
\<close>

theorem circuit_telescopes:
  assumes c: "circuit_ok c" "aligned (hops c) cid [b]"
    and req: "process_inbound_from_prev cr cl t b = (Ok [OpenNextHop i x pk ep m1], b1)" "c_circ_id cl = cid"
      "c_command cl = CMD_EXTEND \<or> c_command cl = CMD_EXTEND_CONT" "hm_get (circuits b) cid = Some e" "\<not> extend_via_relay e"
    and new: "handle_create x first t n = (Ok acts, n1)" "record_create_complete x k m2 t1 n1 = (Ok acts', n2)"
      "record_token_verified x n2 = (Ok (), n3)"
    and rep: "record_extend_complete cr cid m2 t2 b1 = (Ok reply, b2)" and ext: "Circuit_extend k c = (Ok (), c')"
  shows "circuit_ok c' \<and> aligned (hops c') cid [b2, n3] \<and> hops c' = hops c @ [(hk_forward k, hk_reverse k, 0, 0)]"
proof -
  obtain f r s u where h: "hops c = [(f, r, s, u)]" and he: "hop_entry (f, r, s, u) cid b e"
    using c(2) req(4) by (cases "hops c") (auto simp: hop_entry_def split: list.splits elim!: aligned.elims)
  obtain e1 where e1: "hm_get (circuits b1) cid = Some e1" "ce_state e1 = Extending" "out_circ_id e1 = Some x" "prev_keys e1 = prev_keys e"
      "forward_seq e1 = s" "reverse_seq e1 = u" "token_verified e1 = token_verified e" "\<not> extend_via_relay e1"
      "hm_get (out_to_in b1) x = Some cid" "relay_mode b1 = relay_mode b" "x \<noteq> 0"
    using last_request_cell [OF req(1-3) he req(5)] by blast
  let ?e2 = "e1\<lparr>ce_state := Open, state_entered := t2, last_activity := t2, pending_created := None\<rparr>"
  have b2: "hm_get (circuits b2) cid = Some ?e2" "hm_get (out_to_in b2) x = Some cid" "relay_mode b2 = relay_mode b"
    using extended_entry [OF e1(1,2,8), of cr m2 t2] rep e1(9,10) by simp_all
  have "hop_entry (f, r, s, u) cid b2 ?e2" using he b2 e1 by (simp add: hop_entry_def)
  moreover obtain e3 where "hop_entry (hk_forward k, hk_reverse k, 0, 0) x n3 e3" "out_circ_id e3 = None"
    using created_entry [OF new e1(11)] by blast
  ultimately have "aligned [(f, r, s, u), (hk_forward k, hk_reverse k, 0, 0)] cid [b2, n3]"
    using e1(3) b2(2) by fastforce
  moreover have "hops c' = hops c @ [(hk_forward k, hk_reverse k, 0, 0)]" "circuit_ok c'"
    using ext c(1) by (auto simp: Circuit_extend_def circuit_ok_def hops_def circuit_hops_snoc split: if_splits)
  ultimately show ?thesis using h by simp
qed

definition demo_keys :: HopKeys where
  "demo_keys = \<lparr>hk_forward = demo_layer 1, hk_reverse = demo_layer 2\<rparr>"

definition demo_request :: Cell where
  "demo_request = \<lparr>c_circ_id = 1, c_command = CMD_EXTEND, c_body = replicate 32 0 @ [1, 1, 2, 3, 4, 0, 80, 0, 1, 9]\<rparr>"

lemma demo_request_decodes:
  "ExtendHeader_decode_partial (c_body demo_request) =
     Ok (\<lparr>eh_next_hop_pk = replicate 32 0, eh_endpoint = Ipv4 [1, 2, 3, 4] 80, eh_total_len = 1\<rparr>, [9])"
  by (simp add: demo_request_def ExtendHeader_decode_partial_def HopEndpoint_decode_def Let_def from_be_def be_nat_def body_lens)

theorem circuit_telescopes_witness:
  "let e = demo_entry\<lparr>forward_seq := 5, reverse_seq := 3\<rparr>;
       c = demo_circuit\<lparr>ci_forward := [demo_layer 1], ci_reverse := [demo_layer 2], ci_c2h_seq := [5], ci_h2c_seq := [3]\<rparr>;
       c' = snd (Circuit_extend demo_keys c);
       b1 = snd (process_inbound_from_prev demo_circuit_crypto demo_request 8 (demo_bridge [(1, e)]));
       b2 = snd (record_extend_complete demo_circuit_crypto 1 [] 9 b1);
       n1 = snd (handle_create 1 [0, 1, 9] 8 (demo_bridge []));
       n2 = snd (record_create_complete 1 demo_keys [] 8 n1)
   in circuit_ok c' \<and> aligned (hops c') 1 [b2, snd (record_token_verified 1 n2)] \<and>
      hops c' = hops c @ [(hk_forward demo_keys, hk_reverse demo_keys, 0, 0)]"
proof -
  let ?e = "demo_entry\<lparr>forward_seq := 5, reverse_seq := 3\<rparr>"
  let ?c = "demo_circuit\<lparr>ci_forward := [demo_layer 1], ci_reverse := [demo_layer 2], ci_c2h_seq := [5], ci_h2c_seq := [3]\<rparr>"
  let ?b = "demo_bridge [(1, ?e)]"
  let ?b1 = "snd (process_inbound_from_prev demo_circuit_crypto demo_request 8 ?b)"
  let ?n1 = "snd (handle_create 1 [0, 1, 9] 8 (demo_bridge []))"
  let ?n2 = "snd (record_create_complete 1 demo_keys [] 8 ?n1)"
  have c: "circuit_ok ?c" "aligned (hops ?c) 1 [?b]"
    by (simp_all add: circuit_ok_def demo_circuit_def hops_def hop_entry_def hm_get_def demo_bridge_simps demo_entry_def demo_layer_def)
  have open_req: "fst (process_inbound_from_prev demo_circuit_crypto demo_request 8 ?b) =
      Ok [OpenNextHop 1 1 (replicate 32 0) (Ipv4 [1, 2, 3, 4] 80) [9]]"
    "fst (record_extend_complete demo_circuit_crypto 1 [] 9 ?b1) = extended_reply 1 []"
    using alloc_loop.simps(2) [of 255] demo_request_decodes
    by (simp_all add: demo_request_def bridge_eval handle_extend_def dispatch_pending_extend_def allocate_out_circ_id_def demo_entry_def
        record_extend_complete_def emit_extended_def extended_reply_def ExtendedBody_encode_fragmented_def)
  have reply: "\<exists>acts. extended_reply 1 [] = Ok acts"
    by (simp add: extended_reply_def ExtendedBody_encode_fragmented_def bridge_eval)
  have new: "fst (handle_create 1 [0, 1, 9] 8 (demo_bridge [])) = Ok [PerformHandshake 1 [9]]"
    "\<exists>acts. fst (record_create_complete 1 demo_keys [] 8 ?n1) = Ok acts" "fst (record_token_verified 1 ?n2) = Ok ()"
    by (simp_all add: bridge_eval record_token_verified_def)
  have e: "hm_get (circuits ?b) 1 = Some ?e" "\<not> extend_via_relay ?e" "c_circ_id demo_request = 1"
    "c_command demo_request = CMD_EXTEND \<or> c_command demo_request = CMD_EXTEND_CONT"
    by (simp_all add: demo_bridge_simps hm_get_def demo_entry_def demo_request_def)
  have ext: "Circuit_extend demo_keys ?c = (Ok (), snd (Circuit_extend demo_keys ?c))"
    by (simp add: Circuit_extend_def demo_circuit_def MAX_CIRCUIT_HOPS_def)
  obtain acts acts' where a: "fst (record_create_complete 1 demo_keys [] 8 ?n1) = Ok acts" "extended_reply 1 [] = Ok acts'"
    using new(2) reply by blast
  show ?thesis
    unfolding Let_def
    by (rule circuit_telescopes [OF c _ e(3,4,1,2) _ _ _ _ ext]) (auto simp: prod_eq_iff open_req new a)
qed

section \<open>Bytes mistaken for a control message\<close>

text \<open>
  A hop recognises a control message for itself only by its form.  When the onion for the next hop happens to have the form
  of a padding sub-cell, the hop drops the cell; the client has advanced the counter of the next hop, which has not
  seen the cell, and the two no longer agree.
\<close>

lemma onion_mistaken_for_padding:
  assumes al: "aligned [(f, r, s, t), (f', r', s', t')] cid [b, b']" and s: "s \<noteq> - 1"
    and p: "onion_open cr [f] w DIR_CLIENT_TO_HOP 0 s = Ok p" "RelaySubCell_decode p = Ok sub" "sub_command sub = CMD_PADDING"
  shows "\<exists>b1. carry_forward cr now \<lparr>c_circ_id = cid, c_command = CMD_RELAY, c_body = w\<rparr> [b, b'] = (Ok [], [b1, b']) \<and>
    \<not> aligned [(f, r, s + 1, t), (f', r', s' + 1, t')] cid [b1, b']"
proof -
  obtain e x where e: "hop_entry (f, r, s, t) cid b e" "out_circ_id e = Some x" "aligned [(f', r', s', t')] x [b']"
    using al by auto
  let ?e = "e\<lparr>forward_seq := s + 1, last_activity := now\<rparr>"
  have "carry_forward cr now \<lparr>c_circ_id = cid, c_command = CMD_RELAY, c_body = w\<rparr> [b, b'] = (Ok [], [put_entry cid ?e b, b'])"
    using e(1) s p by (simp add: hop_entry_def process_inbound_from_prev_def handle_relay_from_prev_def relay_dispatch_def Let_def)
  moreover have "\<not> aligned [(f, r, s + 1, t), (f', r', s' + 1, t')] cid [put_entry cid ?e b, b']"
    using e by (auto simp: hop_entry_def hm_laws)
  ultimately show ?thesis by blast
qed

end
