(* ===== verification/Mux_Frame.thy ===== *)
theory Mux_Frame
  imports Mirage_Prelude
begin

text \<open>
  The mux frame wire format of \<open>crates/mux/src/frame.rs\<close>: a 7-byte header
  (\<open>frame_len\<close> u16, \<open>stream_id\<close> u32, command byte) and a body, at most 16384 bytes in all.
  Shown here: the decoder and the encoder are inverse to each other in both directions on the
  frames \<open>MuxFrame::new\<close> admits, and the codec is self-delimiting.
\<close>

section \<open>Constants, commands, errors\<close>

definition MAX_MUX_FRAME_LEN :: nat where "MAX_MUX_FRAME_LEN = 16384"
definition MUX_HEADER_LEN :: nat where "MUX_HEADER_LEN = 2 + 4 + 1"
definition MAX_MUX_FRAME_BODY :: nat where "MAX_MUX_FRAME_BODY = MAX_MUX_FRAME_LEN - MUX_HEADER_LEN"

lemmas mux_consts = MAX_MUX_FRAME_LEN_def MUX_HEADER_LEN_def MAX_MUX_FRAME_BODY_def

datatype MuxCmd = Begin | BeginOk | Data | WindowUpdate | EndLocal | Reset

datatype MuxFrameError =
    Truncated nat nat
  | TooLarge nat
  | TooSmall nat
  | BodyLength
  | UnknownCommand u8
  | ReservedStreamId

fun MuxCmd_to_byte :: "MuxCmd \<Rightarrow> u8" where
  "MuxCmd_to_byte Begin = 0x01"
| "MuxCmd_to_byte BeginOk = 0x02"
| "MuxCmd_to_byte Data = 0x03"
| "MuxCmd_to_byte WindowUpdate = 0x04"
| "MuxCmd_to_byte EndLocal = 0x05"
| "MuxCmd_to_byte Reset = 0x06"

definition MuxCmd_from_byte :: "u8 \<Rightarrow> MuxFrameError + MuxCmd" where
  "MuxCmd_from_byte b =
     (if b = 0x01 then Ok Begin
      else if b = 0x02 then Ok BeginOk
      else if b = 0x03 then Ok Data
      else if b = 0x04 then Ok WindowUpdate
      else if b = 0x05 then Ok EndLocal
      else if b = 0x06 then Ok Reset
      else Err (UnknownCommand b))"

section \<open>Frames\<close>

record MuxFrame =
  stream_id :: u32
  command :: MuxCmd
  body :: bytes

definition MuxFrame_new :: "u32 \<Rightarrow> MuxCmd \<Rightarrow> bytes \<Rightarrow> MuxFrameError + MuxFrame" where
  "MuxFrame_new sid cmd b =
     (if sid = 0 then Err ReservedStreamId
      else if MUX_HEADER_LEN + length b > MAX_MUX_FRAME_LEN
        then Err (TooLarge (MUX_HEADER_LEN + length b))
      else Ok \<lparr>stream_id = sid, command = cmd, body = b\<rparr>)"

definition wire_size :: "MuxFrame \<Rightarrow> nat" where
  "wire_size f = MUX_HEADER_LEN + length (body f)"

definition MuxFrame_encode :: "MuxFrame \<Rightarrow> bytes" where
  "MuxFrame_encode f =
     to_be (word_of_nat (wire_size f) :: u16) @ to_be (stream_id f)
       @ [MuxCmd_to_byte (command f)] @ body f"

text \<open>
  \<open>encode_into\<close> writes four slices of the caller's buffer; \<open>copy_at\<close> is
  \<open>buf[off..off+len].copy_from_slice\<close>.
\<close>

definition copy_at :: "nat \<Rightarrow> bytes \<Rightarrow> bytes \<Rightarrow> bytes" where
  "copy_at off src buf = take off buf @ src @ drop (off + length src) buf"

definition MuxFrame_encode_into :: "MuxFrame \<Rightarrow> bytes \<Rightarrow> (MuxFrameError + nat) \<times> bytes" where
  "MuxFrame_encode_into f buf =
     (let total = wire_size f in
      if length buf < total then (Err (Truncated total (length buf)), buf)
      else
        let b1 = copy_at 0 (to_be (word_of_nat total :: u16)) buf;
            b2 = copy_at 2 (to_be (stream_id f)) b1;
            b3 = copy_at 6 [MuxCmd_to_byte (command f)] b2;
            b4 = copy_at MUX_HEADER_LEN (body f) b3
        in (Ok total, b4))"

definition MuxFrame_decode_one :: "bytes \<Rightarrow> MuxFrameError + (MuxFrame \<times> nat)" where
  "MuxFrame_decode_one buf =
     (if length buf < MUX_HEADER_LEN then Err (Truncated MUX_HEADER_LEN (length buf))
      else
        let frame_len = unat (from_be [buf ! 0, buf ! 1] :: u16) in
        if frame_len < MUX_HEADER_LEN then Err (TooSmall frame_len)
        else if frame_len > MAX_MUX_FRAME_LEN then Err (TooLarge frame_len)
        else if length buf < frame_len then Err (Truncated frame_len (length buf))
        else
          let sid = from_be [buf ! 2, buf ! 3, buf ! 4, buf ! 5] :: u32 in
          if sid = 0 then Err ReservedStreamId
          else case MuxCmd_from_byte (buf ! 6) of
            Err e \<Rightarrow> Err e
          | Ok cmd \<Rightarrow>
              Ok (\<lparr>stream_id = sid, command = cmd,
                   body = drop MUX_HEADER_LEN (take frame_len buf)\<rparr>, frame_len))"

text \<open>The frames \<open>MuxFrame::new\<close> returns.\<close>

definition wf_frame :: "MuxFrame \<Rightarrow> bool" where
  "wf_frame f = (stream_id f \<noteq> 0 \<and> wire_size f \<le> MAX_MUX_FRAME_LEN)"

definition is_truncated :: "MuxFrameError \<Rightarrow> bool" where
  "is_truncated e = (case e of Truncated _ _ \<Rightarrow> True | _ \<Rightarrow> False)"

section \<open>Lemmas\<close>

lemma MuxCmd_from_to_byte [simp]: "MuxCmd_from_byte (MuxCmd_to_byte c) = Ok c"
  by (cases c) (simp_all add: MuxCmd_from_byte_def)

lemma MuxCmd_to_from_byte: "MuxCmd_from_byte b = Ok c \<Longrightarrow> MuxCmd_to_byte c = b"
  by (auto simp: MuxCmd_from_byte_def split: if_splits)

lemma MuxFrame_new_Ok:
  "MuxFrame_new sid c b = Ok f \<longleftrightarrow>
     sid \<noteq> 0 \<and> length b \<le> MAX_MUX_FRAME_BODY \<and> f = \<lparr>stream_id = sid, command = c, body = b\<rparr>"
  by (auto simp: MuxFrame_new_def mux_consts)

lemma wf_frame_alt: "wf_frame f \<longleftrightarrow> stream_id f \<noteq> 0 \<and> length (body f) \<le> MAX_MUX_FRAME_BODY"
  by (auto simp: wf_frame_def wire_size_def mux_consts)

lemma MuxFrame_new_wf: "MuxFrame_new sid c b = Ok f \<Longrightarrow> wf_frame f"
  by (auto simp: MuxFrame_new_Ok wf_frame_alt)

lemma length_encode [simp]: "length (MuxFrame_encode f) = wire_size f"
  by (simp add: MuxFrame_encode_def wire_size_def MUX_HEADER_LEN_def)

lemma wire_size_bound: "wf_frame f \<Longrightarrow> wire_size f < 2 ^ 16"
  by (simp add: wf_frame_def MAX_MUX_FRAME_LEN_def)

lemma wire_size_ge: "MUX_HEADER_LEN \<le> wire_size f"
  by (simp add: wire_size_def)

lemma to_be_u16_shape: "\<exists>a b. to_be (w :: u16) = [a, b]"
proof -
  have "length (to_be w) = Suc (Suc 0)" by simp
  then show ?thesis unfolding length_Suc_conv by blast
qed

lemma to_be_u32_shape: "\<exists>a b c d. to_be (w :: u32) = [a, b, c, d]"
proof -
  have "length (to_be w) = Suc (Suc (Suc (Suc 0)))" by simp
  then show ?thesis unfolding length_Suc_conv by blast
qed

lemma list7E:
  assumes "7 \<le> length xs"
  obtains a b c d e f g ys where "xs = [a, b, c, d, e, f, g] @ ys"
proof -
  have "Suc (Suc (Suc (Suc (Suc (Suc (Suc 0)))))) \<le> length xs" using assms by simp
  then have "\<exists>a b c d e f g ys. xs = [a, b, c, d, e, f, g] @ ys"
    unfolding Suc_le_length_iff by auto
  then show ?thesis using that by blast
qed

lemma decode_encode:
  assumes "wf_frame f"
  shows "MuxFrame_decode_one (MuxFrame_encode f @ rest) = Ok (f, wire_size f)"
proof -
  obtain a b where ab: "to_be (word_of_nat (wire_size f) :: u16) = [a, b]"
    using to_be_u16_shape by blast
  obtain p q r s where pqrs: "to_be (stream_id f) = [p, q, r, s]"
    using to_be_u32_shape by blast
  have len: "unat (from_be [a, b] :: u16) = wire_size f"
    using wire_size_bound [OF assms] ab [symmetric]
    by (simp add: unat_of_nat)
  have sid: "from_be [p, q, r, s] = stream_id f"
    using pqrs [symmetric] by simp
  have enc: "MuxFrame_encode f @ rest =
      a # b # p # q # r # s # MuxCmd_to_byte (command f) # (body f @ rest)"
    by (simp add: MuxFrame_encode_def ab pqrs)
  have bnd: "7 \<le> wire_size f" "wire_size f \<le> MAX_MUX_FRAME_LEN" "stream_id f \<noteq> 0"
    using assms wire_size_ge [of f] by (simp_all add: wf_frame_def MUX_HEADER_LEN_def)
  have bdy: "drop 7 (take (wire_size f) (a # b # p # q # r # s # MuxCmd_to_byte (command f) # (body f @ rest))) = body f"
    by (simp add: drop_take wire_size_def MUX_HEADER_LEN_def)
  have long: "\<not> length (MuxFrame_encode f @ rest) < wire_size f"
    by simp
  show ?thesis
    using bnd long bdy len sid unfolding enc
    by (simp add: MuxFrame_decode_one_def MUX_HEADER_LEN_def)
qed

lemma decode_one_OkE:
  assumes "MuxFrame_decode_one buf = Ok (f, n)"
  obtains cmd where "7 \<le> length buf" "n = unat (from_be [buf ! 0, buf ! 1] :: u16)"
    "7 \<le> n" "n \<le> MAX_MUX_FRAME_LEN" "n \<le> length buf"
    "(from_be [buf ! 2, buf ! 3, buf ! 4, buf ! 5] :: u32) \<noteq> 0"
    "MuxCmd_from_byte (buf ! 6) = Ok cmd"
    "f = \<lparr>stream_id = from_be [buf ! 2, buf ! 3, buf ! 4, buf ! 5], command = cmd,
          body = drop 7 (take n buf)\<rparr>"
  using assms
  by (auto simp: MuxFrame_decode_one_def MUX_HEADER_LEN_def Let_def not_less
      split: if_splits sum.splits)

lemma decode_ok:
  assumes "MuxFrame_decode_one buf = Ok (f, n)"
  shows "wf_frame f" "n = wire_size f" "take n buf = MuxFrame_encode f"
proof -
  obtain cmd where len: "7 \<le> length buf" and n: "n = unat (from_be [buf ! 0, buf ! 1] :: u16)"
    and fl: "7 \<le> n" "n \<le> MAX_MUX_FRAME_LEN" "n \<le> length buf"
    and sid: "(from_be [buf ! 2, buf ! 3, buf ! 4, buf ! 5] :: u32) \<noteq> 0"
    and cmd: "MuxCmd_from_byte (buf ! 6) = Ok cmd"
    and f: "f = \<lparr>stream_id = from_be [buf ! 2, buf ! 3, buf ! 4, buf ! 5], command = cmd,
          body = drop 7 (take n buf)\<rparr>"
    using assms by (rule decode_one_OkE)
  obtain a b c d e g h ys where buf: "buf = [a, b, c, d, e, g, h] @ ys"
    using len by (rule list7E)
  show size: "n = wire_size f"
    using fl by (simp add: f wire_size_def MUX_HEADER_LEN_def)
  show "wf_frame f"
    using fl(2) sid size [symmetric] by (simp add: wf_frame_def f)
  have be: "to_be (from_be [a, b] :: u16) = [a, b]" "to_be (from_be [c, d, e, g] :: u32) = [c, d, e, g]"
    by (rule to_be_from_be; simp)+
  have w: "wire_size f = unat (from_be [a, b] :: u16)"
    using size n by (simp add: buf)
  have "word_of_nat (wire_size f) = (from_be [a, b] :: u16)"
    unfolding w by simp
  then have "MuxFrame_encode f = [a, b, c, d, e, g, h] @ drop 7 (take n buf)"
    using be MuxCmd_to_from_byte [OF cmd] by (simp add: MuxFrame_encode_def f buf)
  moreover have "take 7 (take n buf) = [a, b, c, d, e, g, h]"
    using fl(1) by (simp add: min_def buf)
  ultimately show "take n buf = MuxFrame_encode f"
    using append_take_drop_id [of 7 "take n buf"] by simp
qed

lemma decode_fatal:
  assumes "MuxFrame_decode_one buf = Err e" and "\<not> is_truncated e"
  shows "MuxFrame_decode_one (buf @ suf) = Err e"
proof -
  have "7 \<le> length buf"
    using assms by (auto simp: MuxFrame_decode_one_def MUX_HEADER_LEN_def is_truncated_def
        split: if_splits)
  then show ?thesis
    using assms by (auto simp: MuxFrame_decode_one_def MUX_HEADER_LEN_def is_truncated_def nth_append
        Let_def split: if_splits sum.splits)
qed

lemma decode_consumes: "MuxFrame_decode_one buf = Ok (f, n) \<Longrightarrow> 0 < n \<and> n \<le> length buf"
  by (auto simp: MuxFrame_decode_one_def MUX_HEADER_LEN_def Let_def split: if_splits sum.splits)

text \<open>
  The inner loop of the connection reader (\<open>reader_task\<close>): decode frames off the front of the
  accumulated bytes until more input is needed; the flag says that a wire violation was met.
\<close>

function decode_frames :: "bytes \<Rightarrow> MuxFrame list \<times> bytes \<times> bool" where
  "decode_frames acc =
     (case MuxFrame_decode_one acc of
        Err e \<Rightarrow> ([], acc, \<not> is_truncated e)
      | Ok (f, n) \<Rightarrow> (case decode_frames (drop n acc) of (fs, rest, dead) \<Rightarrow> (f # fs, rest, dead)))"
  by pat_completeness auto
termination
  by (relation "measure length") (auto dest: decode_consumes)

declare decode_frames.simps [simp del]

interpretation frames: prefix_codec MuxFrame_encode MuxFrame_decode_one wf_frame is_truncated decode_frames
proof (unfold_locales, goal_cases)
  case (1 x rest)
  then show ?case by (simp add: decode_encode)
next
  case (2 buf x n)
  then show ?case using decode_ok [OF 2] by simp
next
  case (3 buf e suf)
  then show ?case using decode_fatal by blast
next
  case (4 x)
  then show ?case
    using length_encode [of x] wire_size_ge [of x]
    by (auto simp: MUX_HEADER_LEN_def simp del: length_encode)
next
  case 5
  then show ?case by (simp add: MuxFrame_decode_one_def MUX_HEADER_LEN_def is_truncated_def)
next
  case (6 buf)
  then show ?case by (rule decode_frames.simps)
qed

lemma encode_into_eq:
  assumes "wire_size f \<le> length buf"
  shows "MuxFrame_encode_into f buf = (Ok (wire_size f), MuxFrame_encode f @ drop (wire_size f) buf)"
  using assms
  by (simp add: MuxFrame_encode_into_def Let_def copy_at_def MuxFrame_encode_def wire_size_def
      MUX_HEADER_LEN_def drop_drop take_drop add.commute)

text \<open>
  The outer loop of \<open>reader_task\<close> over the chunks the carrier delivers: each chunk is appended
  to the bytes left over from the previous one, and a wire violation ends the loop.
\<close>

fun read_chunks :: "bytes \<Rightarrow> bytes list \<Rightarrow> MuxFrame list \<times> bytes \<times> bool" where
  "read_chunks acc [] = ([], acc, False)"
| "read_chunks acc (c # cs) =
     (case decode_frames (acc @ c) of (fs, rest, dead) \<Rightarrow>
        if dead then (fs, rest, True)
        else case read_chunks rest cs of (fs', rest', dead') \<Rightarrow> (fs @ fs', rest', dead'))"

lemma decode_frames_append:
  "decode_frames (a @ b) =
     (case decode_frames a of (fs, r, dead) \<Rightarrow>
        if dead then (fs, r @ b, True)
        else case decode_frames (r @ b) of (fs', r', dead') \<Rightarrow> (fs @ fs', r', dead'))"
proof -
  obtain fs r dead where a: "decode_frames a = (fs, r, dead)" by (cases "decode_frames a") auto
  show ?thesis
    by (cases dead) (use a frames.loop_dead [of a fs r b] frames.loop_chunk [of a fs r b] in auto)
qed

lemma read_chunks_frames:
  assumes "decode_frames acc = ([], acc, False)"
  shows "(case read_chunks acc cs of (fs, _, dead) \<Rightarrow> (fs, dead)) =
         (case decode_frames (acc @ concat cs) of (fs, _, dead) \<Rightarrow> (fs, dead))"
  using assms
proof (induction cs arbitrary: acc)
  case (Cons c cs)
  obtain fs r dead where c: "decode_frames (acc @ c) = (fs, r, dead)"
    by (cases "decode_frames (acc @ c)") auto
  have r: "decode_frames r = ([], r, False)" if "\<not> dead"
    using frames.loop_idem [of "acc @ c" fs r] that c by simp
  show ?case
  proof (cases dead)
    case True
    then show ?thesis
      using c decode_frames_append [of "acc @ c" "concat cs"] by simp
  next
    case False
    then show ?thesis
      using c Cons.IH [OF r [OF False]] decode_frames_append [of "acc @ c" "concat cs"]
      by (auto split: prod.splits)
  qed
qed auto

text \<open>
  C25: decoding succeeds exactly on the encodings of the frames the constructor admits: it returns
  a frame and a length if and only if the buffer starts with that frame's encoding, the frame has
  a nonzero stream id and fits the frame size limit, and the length is the frame's wire size.
\<close>

theorem decode_one_iff:
  "MuxFrame_decode_one buf = Ok (f, n) \<longleftrightarrow>
     wf_frame f \<and> n = wire_size f \<and> take n buf = MuxFrame_encode f"
proof
  assume "MuxFrame_decode_one buf = Ok (f, n)"
  then show "wf_frame f \<and> n = wire_size f \<and> take n buf = MuxFrame_encode f"
    by (blast dest: decode_ok)
next
  assume f: "wf_frame f \<and> n = wire_size f \<and> take n buf = MuxFrame_encode f"
  then have "buf = MuxFrame_encode f @ drop n buf" by (metis append_take_drop_id)
  then show "MuxFrame_decode_one buf = Ok (f, n)"
    using f decode_encode [of f "drop n buf"] by simp
qed

text \<open>
  C26: the reader is insensitive to how the carrier cuts the byte stream into reads: feeding the
  chunks one at a time yields the same frames, and the same verdict on wire violations, as
  decoding the whole byte stream at once.
\<close>

theorem read_chunks_chunking:
  "(case read_chunks [] cs of (fs, _, dead) \<Rightarrow> (fs, dead)) =
   (case decode_frames (concat cs) of (fs, _, dead) \<Rightarrow> (fs, dead))"
  using read_chunks_frames [of "[]" cs] by (simp add: frames.loop_Nil)

end
