(* ===== verification/Mux_Target.thy ===== *)
theory Mux_Target
  imports Mirage_Prelude
begin

text \<open>
  The destination carried in a \<open>Begin\<close> frame (\<open>crates/mux/src/target.rs\<close>): a SOCKS5-style
  address with strict hostname validation and a canonical wire form.  Shown here: decoding
  accepts exactly the bytes that encoding produces, so addresses and wire forms are in
  bijection.
\<close>

section \<open>Model\<close>

datatype TargetError =
    Wire string
  | DomainLength nat
  | DomainEncoding
  | DomainNotLdh
  | ZeroPort
  | Ipv4MappedIpv6

datatype MuxTarget =
    Ipv4 bytes u16
  | Ipv6 bytes u16
  | Domain bytes u16

text \<open>
  The addresses are the Rust arrays \<open>[u8; 4]\<close> and \<open>[u8; 16]\<close>, a domain is a \<open>String\<close>.
\<close>

fun target_typed :: "MuxTarget \<Rightarrow> bool" where
  "target_typed (Ipv4 addr port) = (length addr = 4)"
| "target_typed (Ipv6 addr port) = (length addr = 16)"
| "target_typed (Domain domain port) = valid_utf8 domain"

fun target_port :: "MuxTarget \<Rightarrow> u16" where
  "target_port (Ipv4 addr port) = port"
| "target_port (Ipv6 addr port) = port"
| "target_port (Domain domain port) = port"

fun wire_len :: "MuxTarget \<Rightarrow> nat" where
  "wire_len (Ipv4 addr port) = 1 + (4 + 2)"
| "wire_len (Ipv6 addr port) = 1 + (16 + 2)"
| "wire_len (Domain domain port) = 1 + (1 + length domain + 2)"

definition is_ipv4_mapped :: "bytes \<Rightarrow> bool" where
  "is_ipv4_mapped addr = (take 10 addr = replicate 10 0 \<and> addr ! 10 = 0xff \<and> addr ! 11 = 0xff)"

definition is_ascii_alphanumeric :: "u8 \<Rightarrow> bool" where
  "is_ascii_alphanumeric b =
     ((0x30 \<le> b \<and> b \<le> 0x39) \<or> (0x41 \<le> b \<and> b \<le> 0x5A) \<or> (0x61 \<le> b \<and> b \<le> 0x7A))"

abbreviation DOT :: u8 where "DOT \<equiv> 0x2E"
abbreviation HYPHEN :: u8 where "HYPHEN \<equiv> 0x2D"

definition ldh_label :: "bytes \<Rightarrow> bool" where
  "ldh_label label =
     (if label = [] \<or> length label > 63 then False
      else if hd label = HYPHEN \<or> last label = HYPHEN then False
      else list_all (\<lambda>b. is_ascii_alphanumeric b \<or> b = HYPHEN) label)"

definition is_ldh_hostname :: "bytes \<Rightarrow> bool" where
  "is_ldh_hostname host =
     (if host = [] \<or> length host > 253 then False
      else if hd host = DOT \<or> last host = DOT then False
      else list_all ldh_label (split_on DOT host))"

definition MuxTarget_encode :: "MuxTarget \<Rightarrow> TargetError + bytes" where
  "MuxTarget_encode t =
     (if target_port t = 0 then Err ZeroPort
      else case t of
        Ipv4 addr port \<Rightarrow> Ok ([0x01] @ addr @ to_be port)
      | Domain domain port \<Rightarrow>
          if domain = [] \<or> length domain > 253 then Err (DomainLength (length domain))
          else if \<not> is_ldh_hostname domain then Err DomainNotLdh
          else Ok ([0x03] @ [word_of_nat (length domain)] @ domain @ to_be port)
      | Ipv6 addr port \<Rightarrow>
          if is_ipv4_mapped addr then Err Ipv4MappedIpv6
          else Ok ([0x04] @ addr @ to_be port))"

definition port_at :: "bytes \<Rightarrow> nat \<Rightarrow> TargetError + u16" where
  "port_at buf port_off =
     (if length buf < port_off + 2 then Err (Wire ''truncated at port'')
      else
        let port = from_be [buf ! port_off, buf ! (port_off + 1)] in
        if port = 0 then Err ZeroPort
        else if length buf \<noteq> port_off + 2 then Err (Wire ''trailing bytes after port'')
        else Ok port)"

definition MuxTarget_decode :: "bytes \<Rightarrow> TargetError + MuxTarget" where
  "MuxTarget_decode buf =
     (if buf = [] then Err (Wire ''empty'')
      else if buf ! 0 = 0x01 then
        if length buf < 1 + 4 + 2 then Err (Wire ''ipv4 truncated'')
        else case port_at buf 5 of
          Err e \<Rightarrow> Err e
        | Ok port \<Rightarrow> Ok (Ipv4 (take 4 (drop 1 buf)) port)
      else if buf ! 0 = 0x03 then
        if length buf < 2 then Err (Wire ''domain truncated at len'')
        else
          let dlen = unat (buf ! 1) in
          if dlen = 0 \<or> dlen > 253 then Err (DomainLength dlen)
          else if length buf < 2 + dlen + 2 then Err (Wire ''domain truncated'')
          else
            let domain = take dlen (drop 2 buf) in
            if \<not> valid_utf8 domain then Err DomainEncoding
            else if \<not> is_ldh_hostname domain then Err DomainNotLdh
            else case port_at buf (2 + dlen) of
              Err e \<Rightarrow> Err e
            | Ok port \<Rightarrow> Ok (Domain domain port)
      else if buf ! 0 = 0x04 then
        if length buf < 1 + 16 + 2 then Err (Wire ''ipv6 truncated'')
        else
          let addr = take 16 (drop 1 buf) in
          if is_ipv4_mapped addr then Err Ipv4MappedIpv6
          else case port_at buf 17 of
            Err e \<Rightarrow> Err e
          | Ok port \<Rightarrow> Ok (Ipv6 addr port)
      else Err (Wire (if buf ! 0 = 0x02 then ''atyp 0x02 reserved (legacy)'' else ''unknown atyp'')))"

section \<open>Lemmas\<close>

lemma ldh_ascii:
  assumes "is_ldh_hostname host"
  shows "\<forall>b \<in> set host. b < 0x80"
proof
  fix b assume "b \<in> set host"
  then consider "b = DOT" | l where "l \<in> set (split_on DOT host)" "b \<in> set l"
    using set_split_on [of host DOT] by blast
  then show "b < 0x80"
  proof cases
    case 2
    then have "is_ascii_alphanumeric b \<or> b = HYPHEN"
      using assms by (auto simp: is_ldh_hostname_def ldh_label_def list_all_iff split: if_splits)
    then show ?thesis
      by (auto simp: is_ascii_alphanumeric_def intro: le_less_trans)
  qed simp
qed

lemma ldh_utf8: "is_ldh_hostname host \<Longrightarrow> valid_utf8 host"
  by (intro valid_utf8_ascii ldh_ascii)

lemma drop_two: "length buf = off + 2 \<Longrightarrow> drop off buf = [buf ! off, buf ! (off + 1)]"
  by (intro nth_equalityI) (auto simp: less_Suc_eq numeral_2_eq_2)

lemma port_at_Ok:
  "port_at buf off = Ok p \<longleftrightarrow> p \<noteq> 0 \<and> length buf = off + 2 \<and> drop off buf = to_be p"
proof -
  have "to_be (from_be (drop off buf) :: u16) = drop off buf" if "length buf = off + 2"
    using that by (intro to_be_from_be) simp
  then show ?thesis
    using drop_two [of buf off] by (auto simp: port_at_def Let_def)
qed

lemma encode_length:
  "target_typed t \<Longrightarrow> MuxTarget_encode t = Ok bs \<Longrightarrow> length bs = wire_len t"
  by (cases t) (auto simp: MuxTarget_encode_def split: if_splits)

lemma unat_len_domain: "length (d :: bytes) \<le> 253 \<Longrightarrow> unat (word_of_nat (length d) :: u8) = length d"
  by (simp add: unat_of_nat)

lemma target_decode_encode:
  assumes "target_typed t" and "MuxTarget_encode t = Ok bs"
  shows "MuxTarget_decode bs = Ok t"
proof (cases t)
  case (Ipv4 addr port)
  then have bs: "bs = 0x01 # addr @ to_be port" "length addr = 4" "port \<noteq> 0"
    using assms by (auto simp: MuxTarget_encode_def split: if_splits)
  then have "port_at bs 5 = Ok port" by (simp add: port_at_Ok)
  with bs Ipv4 show ?thesis by (simp add: MuxTarget_decode_def)
next
  case (Ipv6 addr port)
  then have bs: "bs = 0x04 # addr @ to_be port" "length addr = 16" "port \<noteq> 0" "\<not> is_ipv4_mapped addr"
    using assms by (auto simp: MuxTarget_encode_def split: if_splits)
  then have "port_at bs 17 = Ok port" by (simp add: port_at_Ok)
  with bs Ipv6 show ?thesis by (simp add: MuxTarget_decode_def)
next
  case (Domain d port)
  then have bs: "bs = 0x03 # word_of_nat (length d) # d @ to_be port" "d \<noteq> []" "length d \<le> 253"
    "port \<noteq> 0" "is_ldh_hostname d"
    using assms by (auto simp: MuxTarget_encode_def split: if_splits)
  then have "port_at bs (2 + length d) = Ok port" by (simp add: port_at_Ok)
  with bs Domain unat_len_domain [of d] ldh_utf8 [of d] show ?thesis
    by (simp add: MuxTarget_decode_def)
qed

lemma target_encode_decode:
  assumes "MuxTarget_decode bs = Ok t"
  shows "target_typed t \<and> MuxTarget_encode t = Ok bs"
proof -
  obtain b0 rest where bs: "bs = b0 # rest"
    using assms by (cases bs) (auto simp: MuxTarget_decode_def)
  consider "b0 = 0x01" | "b0 = 0x03" | "b0 = 0x04"
    using assms bs by (auto simp: MuxTarget_decode_def split: if_splits)
  then show ?thesis
  proof cases
    case 1
    then obtain port where p: "port_at bs 5 = Ok port" "t = Ipv4 (take 4 rest) port"
      using assms bs by (auto simp: MuxTarget_decode_def split: if_splits sum.splits)
    then have "rest = take 4 rest @ to_be port" "length rest = 6" "port \<noteq> 0"
      using append_take_drop_id [of 4 rest] by (simp_all add: port_at_Ok bs)
    with p 1 bs show ?thesis by (simp add: MuxTarget_encode_def)
  next
    case 3
    then obtain port where p: "port_at bs 17 = Ok port" "t = Ipv6 (take 16 rest) port"
        "\<not> is_ipv4_mapped (take 16 rest)"
      using assms bs by (auto simp: MuxTarget_decode_def Let_def split: if_splits sum.splits)
    then have "rest = take 16 rest @ to_be port" "length rest = 18" "port \<noteq> 0"
      using append_take_drop_id [of 16 rest] by (simp_all add: port_at_Ok bs)
    with p 3 bs show ?thesis by (simp add: MuxTarget_encode_def)
  next
    case 2
    then obtain n rest' where rest: "rest = n # rest'"
      using assms bs by (cases rest) (auto simp: MuxTarget_decode_def)
    let ?d = "take (unat n) rest'"
    obtain port where p: "port_at bs (2 + unat n) = Ok port" "t = Domain ?d port"
        "unat n \<noteq> 0" "unat n \<le> 253" "is_ldh_hostname ?d" "valid_utf8 ?d"
      using assms bs rest 2 by (auto simp: MuxTarget_decode_def Let_def split: if_splits sum.splits)
    then have r: "rest' = ?d @ to_be port" "length rest' = unat n + 2" "port \<noteq> 0"
      using append_take_drop_id [of "unat n" rest'] by (simp_all add: port_at_Ok bs rest)
    then have "length ?d = unat n" by simp
    moreover from this p(3) have "?d \<noteq> []" by auto
    ultimately show ?thesis using p r bs rest 2 by (simp add: MuxTarget_encode_def)
  qed
qed

text \<open>
  The wire form of a target is canonical: decoding a byte string yields a target if and only
  if encoding that target yields exactly this byte string.  In particular the encoder never
  produces bytes the decoder refuses, and one address has one wire form.
\<close>

lemma target_canonical:
  "MuxTarget_decode bs = Ok t \<longleftrightarrow> target_typed t \<and> MuxTarget_encode t = Ok bs"
  using target_decode_encode target_encode_decode by blast

end
