(* ===== verification/Mux_Stream.thy ===== *)
theory Mux_Stream
  imports Mirage_Prelude
begin

text \<open>
  Stream identifiers, their role-based allocation (\<open>crates/mux/src/stream.rs\<close>) and the
  connection policy (\<open>crates/mux/src/policy.rs\<close>).  Shown here: what the \<open>n\<close>-th allocation
  returns, for every \<open>n\<close>, and hence that ids are pairwise distinct until the role's half of the
  id space is used up, and how the allocator behaves after that.
\<close>

section \<open>Stream ids\<close>

datatype StreamRole = Initiator | Responder

text \<open>A \<open>StreamId\<close> is a nonzero \<open>u32\<close>; \<open>StreamId_new\<close> is its only constructor.\<close>

definition StreamId_new :: "u32 \<Rightarrow> u32 option" where
  "StreamId_new i = (if i = 0 then None else Some i)"

definition is_initiator :: "u32 \<Rightarrow> bool" where
  "is_initiator i = (i mod 2 = 0)"

definition is_responder :: "u32 \<Rightarrow> bool" where
  "is_responder i = (i mod 2 = 1)"

record StreamIdAllocator =
  alloc_role :: StreamRole
  alloc_next :: u32

definition StreamIdAllocator_new :: "StreamRole \<Rightarrow> StreamIdAllocator" where
  "StreamIdAllocator_new role =
     \<lparr>alloc_role = role, alloc_next = (case role of Initiator \<Rightarrow> 2 | Responder \<Rightarrow> 1)\<rparr>"

definition StreamIdAllocator_next :: "StreamIdAllocator \<Rightarrow> u32 option \<times> StreamIdAllocator" where
  "StreamIdAllocator_next a =
     (let i = alloc_next a;
          a' = a\<lparr>alloc_next := i + 2\<rparr>;
          ok = (case alloc_role a of
                  Initiator \<Rightarrow> i mod 2 = 0 \<and> i \<noteq> 0
                | Responder \<Rightarrow> i mod 2 = 1)
      in if \<not> ok then (None, a') else (StreamId_new i, a'))"

section \<open>Policy\<close>

definition DEFAULT_INITIAL_WINDOW :: u32 where "DEFAULT_INITIAL_WINDOW = 65536"
definition DEFAULT_MAX_CONCURRENT_STREAMS :: u32 where "DEFAULT_MAX_CONCURRENT_STREAMS = 256"
definition DEFAULT_STREAM_IDLE_TIMEOUT :: duration where
  "DEFAULT_STREAM_IDLE_TIMEOUT = 120 * 1000000000"
definition DEFAULT_MAX_PENDING_OUTBOUND :: nat where "DEFAULT_MAX_PENDING_OUTBOUND = 1024"
definition DEFAULT_DRR_QUANTUM_BYTES :: nat where "DEFAULT_DRR_QUANTUM_BYTES = 4096"

record MuxPolicy =
  initial_window :: u32
  max_concurrent_streams :: u32
  stream_idle_timeout :: duration
  max_pending_outbound :: nat
  drr_quantum_bytes :: nat

definition MuxPolicy_default :: MuxPolicy where
  "MuxPolicy_default =
     \<lparr>initial_window = DEFAULT_INITIAL_WINDOW,
      max_concurrent_streams = DEFAULT_MAX_CONCURRENT_STREAMS,
      stream_idle_timeout = DEFAULT_STREAM_IDLE_TIMEOUT,
      max_pending_outbound = DEFAULT_MAX_PENDING_OUTBOUND,
      drr_quantum_bytes = DEFAULT_DRR_QUANTUM_BYTES\<rparr>"

lemmas policy_defaults = MuxPolicy_default_def DEFAULT_INITIAL_WINDOW_def
  DEFAULT_MAX_CONCURRENT_STREAMS_def DEFAULT_STREAM_IDLE_TIMEOUT_def
  DEFAULT_MAX_PENDING_OUTBOUND_def DEFAULT_DRR_QUANTUM_BYTES_def

section \<open>Runs of the allocator\<close>

text \<open>The results of \<open>n\<close> successive calls.\<close>

fun alloc_run :: "nat \<Rightarrow> StreamIdAllocator \<Rightarrow> u32 option list \<times> StreamIdAllocator" where
  "alloc_run 0 a = ([], a)"
| "alloc_run (Suc n) a =
     (let (r, a') = StreamIdAllocator_next a; (rs, a'') = alloc_run n a' in (r # rs, a''))"

fun local_parity :: "StreamRole \<Rightarrow> u32 \<Rightarrow> bool" where
  "local_parity Initiator i = (i mod 2 = 0)"
| "local_parity Responder i = (i mod 2 = 1)"

lemma parity_unat: "(i :: u32) mod 2 = 0 \<longleftrightarrow> even (unat i)" "(i :: u32) mod 2 = 1 \<longleftrightarrow> odd (unat i)"
proof -
  have "unat (i mod 2) = unat i mod 2" by (simp add: unat_mod_distrib)
  then show "i mod 2 = 0 \<longleftrightarrow> even (unat i)" "i mod 2 = 1 \<longleftrightarrow> odd (unat i)"
    by (auto simp: word_unat_eq_iff even_iff_mod_2_eq_zero odd_iff_mod_2_eq_one)
qed

definition alloc_result :: "StreamRole \<Rightarrow> u32 \<Rightarrow> u32 option" where
  "alloc_result role i = (if local_parity role i \<and> i \<noteq> 0 then Some i else None)"

lemma next_result:
  "StreamIdAllocator_next a =
     (alloc_result (alloc_role a) (alloc_next a), a\<lparr>alloc_next := alloc_next a + 2\<rparr>)"
  by (cases "alloc_role a")
    (auto simp: StreamIdAllocator_next_def alloc_result_def StreamId_new_def Let_def)

lemma alloc_run_eq:
  "alloc_run n a =
     (map (\<lambda>k. alloc_result (alloc_role a) (alloc_next a + 2 * word_of_nat k)) [0..<n],
      a\<lparr>alloc_next := alloc_next a + 2 * word_of_nat n\<rparr>)"
proof (induction n arbitrary: a)
  case (Suc n)
  have "map (\<lambda>k. alloc_result (alloc_role a) (alloc_next a + 2 * word_of_nat k)) [0..<Suc n] =
    alloc_result (alloc_role a) (alloc_next a) #
      map (\<lambda>k. alloc_result (alloc_role a) (alloc_next a + 2 + 2 * word_of_nat k)) [0..<n]"
    by (simp add: upt_conv_Cons map_Suc_upt [symmetric] algebra_simps del: upt_Suc)
  with Suc show ?case by (simp add: next_result algebra_simps)
qed simp

lemma alloc_nth:
  "k < n \<Longrightarrow> fst (alloc_run n a) ! k = alloc_result (alloc_role a) (alloc_next a + 2 * word_of_nat k)"
  by (simp add: alloc_run_eq)

lemma parity_add2 [simp]: "local_parity role (i + 2 * j) = local_parity role i"
  by (cases role) (simp_all flip: even_iff_mod_2_eq_zero odd_iff_mod_2_eq_one)

lemma parity_add_2 [simp]: "local_parity role (i + 2) = local_parity role i"
  using parity_add2 [of role i 1] by simp

lemma parity_exclusive: "local_parity Initiator i \<longleftrightarrow> \<not> local_parity Responder i"
  by (simp flip: even_iff_mod_2_eq_zero odd_iff_mod_2_eq_one)

definition first_id :: "StreamRole \<Rightarrow> nat" where
  "first_id role = (case role of Initiator \<Rightarrow> 2 | Responder \<Rightarrow> 1)"

lemma alloc_new_simps [simp]:
  "alloc_role (StreamIdAllocator_new role) = role"
  "alloc_next (StreamIdAllocator_new role) = word_of_nat (first_id role)"
  by (cases role; simp add: StreamIdAllocator_new_def first_id_def)+

lemma first_id_parity: "local_parity role (word_of_nat (first_id role))"
  by (cases role) (simp_all add: first_id_def)

lemma unat_id:
  "first_id role + 2 * k < 2 ^ 32 \<Longrightarrow>
     unat (word_of_nat (first_id role) + 2 * word_of_nat k :: u32) = first_id role + 2 * k"
proof -
  assume "first_id role + 2 * k < 2 ^ 32"
  then have "unat (word_of_nat (first_id role + 2 * k) :: u32) = first_id role + 2 * k"
    by (simp only: unat_of_nat) simp
  then show ?thesis by simp
qed

lemma alloc_result_new:
  assumes "first_id role + 2 * k < 2 ^ 32"
  shows "alloc_result role (word_of_nat (first_id role) + 2 * word_of_nat k) =
    Some (word_of_nat (first_id role + 2 * k))"
proof -
  have "unat (word_of_nat (first_id role) + 2 * word_of_nat k :: u32) \<noteq> 0"
    unfolding unat_id [OF assms] by (cases role) (simp_all add: first_id_def)
  then have "(word_of_nat (first_id role) + 2 * word_of_nat k :: u32) \<noteq> 0" by auto
  then show ?thesis by (simp add: alloc_result_def first_id_parity)
qed

text \<open>
  The first \<open>2^31 - 1\<close> calls of a fresh allocator all succeed and return pairwise distinct,
  nonzero ids of the role's own parity, in increasing order.
\<close>

lemma alloc_fresh:
  assumes "n < 2 ^ 31"
  shows "\<exists>ids. fst (alloc_run n (StreamIdAllocator_new role)) = map Some ids \<and>
           sorted_wrt (<) ids \<and> (\<forall>i \<in> set ids. i \<noteq> 0 \<and> local_parity role i)"
proof -
  have bnd: "first_id role + 2 * k < 2 ^ 32" if "k < n" for k
    using assms that by (cases role) (simp_all add: first_id_def)
  let ?ids = "map (\<lambda>k. word_of_nat (first_id role) + 2 * word_of_nat k :: u32) [0..<n]"
  have res: "alloc_result role (word_of_nat (first_id role) + 2 * word_of_nat k) =
      Some (word_of_nat (first_id role) + 2 * word_of_nat k)" if "k < n" for k
    using alloc_result_new [OF bnd [OF that]] by simp
  have "fst (alloc_run n (StreamIdAllocator_new role)) = map Some ?ids"
    by (simp add: alloc_run_eq res)
  moreover have "sorted_wrt (<) ?ids"
  proof -
    have "word_of_nat (first_id role) + 2 * word_of_nat i
        < (word_of_nat (first_id role) + 2 * word_of_nat j :: u32)" if "i < j" "j < n" for i j
      using that bnd [of i] bnd [of j] by (simp only: word_less_nat_alt unat_id)
    then show ?thesis by (auto simp: sorted_wrt_iff_nth_less)
  qed
  moreover have "\<forall>i \<in> set ?ids. i \<noteq> 0 \<and> local_parity role i"
  proof
    fix i assume "i \<in> set ?ids"
    then obtain k where "k < n" "i = word_of_nat (first_id role) + 2 * word_of_nat k" by auto
    with res [of k] show "i \<noteq> 0 \<and> local_parity role i"
      by (simp add: alloc_result_def split: if_splits)
  qed
  ultimately show ?thesis by blast
qed

lemma alloc_fresh_witness:
  "(3::nat) < 2 ^ 31 \<and>
   (\<exists>ids. fst (alloc_run 3 (StreamIdAllocator_new Responder)) = map Some ids \<and>
      sorted_wrt (<) ids \<and> (\<forall>i \<in> set ids. i \<noteq> 0 \<and> local_parity Responder i)) \<and>
   fst (alloc_run 3 (StreamIdAllocator_new Responder)) = [Some 1, Some 3, Some 5]"
proof -
  have "(3::nat) < 2 ^ 31" by simp
  moreover from alloc_fresh [OF this, of Responder]
  have "\<exists>ids. fst (alloc_run 3 (StreamIdAllocator_new Responder)) = map Some ids \<and>
      sorted_wrt (<) ids \<and> (\<forall>i \<in> set ids. i \<noteq> 0 \<and> local_parity Responder i)" .
  moreover have "fst (alloc_run 3 (StreamIdAllocator_new Responder)) = [Some 1, Some 3, Some 5]"
    by code_simp
  ultimately show ?thesis by blast
qed

text \<open>
  After that the ids repeat.  A responder's allocator never reports exhaustion at all and
  hands out id 1 again on call \<open>2^31\<close>; an initiator's allocator reports exhaustion once and then
  starts over at id 2.
\<close>

lemma alloc_wraps:
  "None \<notin> set (fst (alloc_run n (StreamIdAllocator_new Responder))) \<and>
   fst (alloc_run (Suc (2 ^ 31)) (StreamIdAllocator_new Responder)) ! (2 ^ 31) = Some 1 \<and>
   fst (alloc_run (Suc (2 ^ 31)) (StreamIdAllocator_new Initiator)) ! (2 ^ 31 - 1) = None \<and>
   fst (alloc_run (Suc (2 ^ 31)) (StreamIdAllocator_new Initiator)) ! (2 ^ 31) = Some 2"
proof (intro conjI)
  have nz: "(1 + 2 * i :: u32) \<noteq> 0" for i
  proof
    assume "1 + 2 * i = (0 :: u32)"
    then have "even (1 + 2 * i)" by (simp only: dvd_0_right)
    then show False by simp
  qed
  then show "None \<notin> set (fst (alloc_run n (StreamIdAllocator_new Responder)))"
    by (auto simp: alloc_run_eq alloc_result_def first_id_def)
  show "fst (alloc_run (Suc (2 ^ 31)) (StreamIdAllocator_new Responder)) ! (2 ^ 31) = Some 1"
    unfolding alloc_nth [OF lessI] by (simp add: first_id_def alloc_result_def)
  show "fst (alloc_run (Suc (2 ^ 31)) (StreamIdAllocator_new Initiator)) ! (2 ^ 31 - 1) = None"
    by (subst alloc_nth) (simp_all add: first_id_def alloc_result_def)
  show "fst (alloc_run (Suc (2 ^ 31)) (StreamIdAllocator_new Initiator)) ! (2 ^ 31) = Some 2"
    unfolding alloc_nth [OF lessI] by (simp add: first_id_def alloc_result_def)
qed

end
