(* ===== verification/Mux_Drr.thy ===== *)
theory Mux_Drr
  imports Mux_Frame "HOL-Library.Multiset"
begin

text \<open>
  The deficit round-robin scheduler that drains the outbound queue
  (\<open>deficit_round_robin\<close> in \<open>crates/mux/src/state.rs\<close>).  Shown here: the walk terminates, the
  output is a permutation of the input that keeps the order within every stream, and the first
  frame of a stream never waits behind more than one quantum of any other stream.
\<close>

section \<open>Model\<close>

definition frame_cost :: "MuxFrame \<Rightarrow> nat" where
  "frame_cost f = max (length (body f)) 1"

definition queue_of :: "(u32, MuxFrame list) hashmap \<Rightarrow> u32 \<Rightarrow> MuxFrame list" where
  "queue_of queues sid = (case hm_get queues sid of None \<Rightarrow> [] | Some q \<Rightarrow> q)"

definition deficit_of :: "(u32, nat) hashmap \<Rightarrow> u32 \<Rightarrow> nat" where
  "deficit_of deficit sid = (case hm_get deficit sid of None \<Rightarrow> 0 | Some d \<Rightarrow> d)"

text \<open>The first loop: group the frames per stream, remembering the order of first appearance.\<close>

fun drr_group ::
  "MuxFrame list \<Rightarrow> u32 list \<Rightarrow> (u32, MuxFrame list) hashmap \<Rightarrow> u32 list \<times> (u32, MuxFrame list) hashmap" where
  "drr_group [] order queues = (order, queues)"
| "drr_group (f # fs) order queues =
     (let sid = stream_id f;
          q = queue_of queues sid;
          order' = (if q = [] then order @ [sid] else order)
      in drr_group fs order' (hm_insert sid (q @ [f]) queues))"

text \<open>
  The inner loop: emit frames from the front of one queue while the credit lasts.  Returns the
  rest of the queue, the credit left, and the frames emitted.
\<close>

fun drr_serve :: "MuxFrame list \<Rightarrow> nat \<Rightarrow> MuxFrame list \<times> nat \<times> MuxFrame list" where
  "drr_serve [] d = ([], d, [])"
| "drr_serve (f # q) d =
     (let cost = frame_cost f in
      if cost > d then (f # q, d, [])
      else let (q', d', sent) = drr_serve q (d - cost) in (q', d', f # sent))"

definition queue_cost :: "MuxFrame list \<Rightarrow> nat" where
  "queue_cost q = sum_list (map frame_cost q)"

lemma queue_cost_simps [simp]:
  "queue_cost [] = 0"
  "queue_cost (f # q) = frame_cost f + queue_cost q"
  "queue_cost (q @ q') = queue_cost q + queue_cost q'"
  by (simp_all add: queue_cost_def)

lemma drr_serve_split:
  "drr_serve q d = (q', d', sent) \<Longrightarrow>
     q = sent @ q' \<and> queue_cost sent + d' = d \<and> (q' \<noteq> [] \<longrightarrow> d' < queue_cost q')"
proof (induction q d arbitrary: q' d' sent rule: drr_serve.induct)
  case (2 f q d)
  show ?case
  proof (cases "frame_cost f > d")
    case True
    with 2 show ?thesis by (auto simp: Let_def)
  next
    case False
    obtain q1 d1 s1 where r: "drr_serve q (d - frame_cost f) = (q1, d1, s1)"
      by (cases "drr_serve q (d - frame_cost f)") auto
    from 2(1) [OF refl False r] False r 2(2) show ?thesis by (auto simp: Let_def)
  qed
qed auto

lemma frame_cost_pos [simp]: "0 < frame_cost f"
  by (simp add: frame_cost_def)

lemma queue_of_insert [simp]:
  "queue_of (hm_insert s q queues) t = (if t = s then q else queue_of queues t)"
  by (simp add: queue_of_def hm_simps)

lemma deficit_of_insert [simp]:
  "deficit_of (hm_insert s d deficit) t = (if t = s then d else deficit_of deficit t)"
  by (simp add: deficit_of_def hm_simps)

text \<open>
  The credit a queue still lacks to be emitted completely; it shrinks by one quantum at every
  visit that leaves the queue nonempty.
\<close>

definition owed :: "(u32, MuxFrame list) hashmap \<Rightarrow> (u32, nat) hashmap \<Rightarrow> u32 \<Rightarrow> nat" where
  "owed queues deficit s = 1 + (queue_cost (queue_of queues s) - deficit_of deficit s)"

lemma owed_served_empty:
  "owed (hm_insert s [] queues) (hm_insert s 0 deficit) t \<le> owed queues deficit t"
  by (simp add: owed_def)

lemma owed_served:
  assumes "hm_get queues s = Some q" and "0 < quantum"
    and "drr_serve q (deficit_of deficit s + quantum) = (q', d', sent)" and "q' \<noteq> []"
  shows "owed (hm_insert s q' queues) (hm_insert s d' deficit) t \<le> owed queues deficit t"
    and "owed (hm_insert s q' queues) (hm_insert s d' deficit) s < owed queues deficit s"
proof -
  have "queue_of queues s = q" using assms(1) by (simp add: queue_of_def)
  with assms drr_serve_split [OF assms(3)]
  show "owed (hm_insert s q' queues) (hm_insert s d' deficit) t \<le> owed queues deficit t"
    and "owed (hm_insert s q' queues) (hm_insert s d' deficit) s < owed queues deficit s"
    by (auto simp: owed_def)
qed

text \<open>
  The round-robin walk.  A zero quantum never reaches it (the caller returns first); the test
  on the quantum only makes the recursion total.
\<close>

function drr_loop ::
  "nat \<Rightarrow> u32 list \<Rightarrow> (u32, MuxFrame list) hashmap \<Rightarrow> (u32, nat) hashmap \<Rightarrow> MuxFrame list \<Rightarrow> MuxFrame list" where
  "drr_loop quantum [] queues deficit out = out"
| "drr_loop quantum (sid # active) queues deficit out =
     (if quantum = 0 then out else
      case hm_get queues sid of
        None \<Rightarrow> drr_loop quantum active queues deficit out
      | Some q \<Rightarrow>
          if q = [] then drr_loop quantum active queues deficit out
          else
            let (q', d', sent) = drr_serve q (deficit_of deficit sid + quantum) in
            if q' = [] then
              drr_loop quantum active (hm_insert sid q' queues) (hm_insert sid 0 deficit) (out @ sent)
            else
              drr_loop quantum (active @ [sid]) (hm_insert sid q' queues) (hm_insert sid d' deficit)
                (out @ sent))"
  by pat_completeness auto

termination
proof (relation "measure (\<lambda>(quantum, active, queues, deficit, out). sum_list (map (owed queues deficit) active))",
    goal_cases)
  case (4 quantum sid active queues deficit out q r q' r' d' sent)
  then have "sum_list (map (owed (hm_insert sid [] queues) (hm_insert sid 0 deficit)) active)
      \<le> sum_list (map (owed queues deficit) active)"
    by (intro sum_list_mono owed_served_empty)
  with 4 show ?case by (simp add: owed_def)
next
  case (5 quantum sid active queues deficit out q r q' r' d' sent)
  then have srv: "hm_get queues sid = Some q" "0 < quantum"
    "drr_serve q (deficit_of deficit sid + quantum) = (q', d', sent)" "q' \<noteq> []" by auto
  have "sum_list (map (owed (hm_insert sid q' queues) (hm_insert sid d' deficit)) active)
      \<le> sum_list (map (owed queues deficit) active)"
    by (intro sum_list_mono owed_served(1) [OF srv])
  with owed_served(2) [OF srv] show ?case by simp
qed (auto simp: owed_def)

declare drr_loop.simps(2) [simp del]

lemma drr_loop_skip:
  "0 < quantum \<Longrightarrow> queue_of queues sid = [] \<Longrightarrow>
     drr_loop quantum (sid # active) queues deficit out = drr_loop quantum active queues deficit out"
  by (auto simp: drr_loop.simps(2) queue_of_def split: option.splits)

lemma drr_loop_serve:
  assumes "0 < quantum" and "queue_of queues sid \<noteq> []"
    and "drr_serve (queue_of queues sid) (deficit_of deficit sid + quantum) = (q', d', sent)"
  shows "drr_loop quantum (sid # active) queues deficit out =
    drr_loop quantum (if q' = [] then active else active @ [sid]) (hm_insert sid q' queues)
      (hm_insert sid (if q' = [] then 0 else d') deficit) (out @ sent)"
proof -
  have "hm_get queues sid = Some (queue_of queues sid)"
    using assms(2) by (auto simp: queue_of_def split: option.splits)
  with assms show ?thesis by (simp add: drr_loop.simps(2))
qed

text \<open>Induction along the walk: a visit skips an empty queue or serves a nonempty one.\<close>

lemma drr_loop_induct [consumes 1, case_names finish skip serve]:
  assumes "0 < quantum"
    and "\<And>queues deficit out. P [] queues deficit out"
    and "\<And>sid active queues deficit out. queue_of queues sid = [] \<Longrightarrow>
      P active queues deficit out \<Longrightarrow> P (sid # active) queues deficit out"
    and "\<And>sid active queues deficit out q' d' sent. queue_of queues sid \<noteq> [] \<Longrightarrow>
      drr_serve (queue_of queues sid) (deficit_of deficit sid + quantum) = (q', d', sent) \<Longrightarrow>
      P (if q' = [] then active else active @ [sid]) (hm_insert sid q' queues)
        (hm_insert sid (if q' = [] then 0 else d') deficit) (out @ sent) \<Longrightarrow>
      P (sid # active) queues deficit out"
  shows "P active queues deficit out"
  using assms(1,4)
proof (induction quantum active queues deficit out rule: drr_loop.induct)
  case (1 quantum queues deficit out)
  show ?case by (rule assms(2))
next
  case (2 quantum sid active queues deficit out)
  note pos = 2(5) and serve = 2(6)
  show ?case
  proof (cases "queue_of queues sid = []")
    case True
    have "P active queues deficit out"
    proof (cases "hm_get queues sid")
      case None
      then show ?thesis using 2(1) pos serve by simp
    next
      case (Some q)
      then show ?thesis using 2(2) [OF _ Some] True pos serve by (simp add: queue_of_def)
    qed
    with True show ?thesis by (rule assms(3))
  next
    case False
    then obtain q where q: "hm_get queues sid = Some q" "q \<noteq> []" "queue_of queues sid = q"
      by (auto simp: queue_of_def split: option.splits)
    obtain q' d' sent where srv: "drr_serve q (deficit_of deficit sid + quantum) = (q', d', sent)"
      by (cases "drr_serve q (deficit_of deficit sid + quantum)") auto
    have "P (if q' = [] then active else active @ [sid]) (hm_insert sid q' queues)
        (hm_insert sid (if q' = [] then 0 else d') deficit) (out @ sent)"
    proof (cases "q' = []")
      case True
      then show ?thesis
        using 2(3) [OF _ q(1,2) srv [symmetric] refl refl True pos serve] pos by simp
    next
      case False
      then show ?thesis
        using 2(4) [OF _ q(1,2) srv [symmetric] refl refl False pos serve] pos by simp
    qed
    with False srv q(3) show ?thesis by (intro serve) simp_all
  qed
qed

definition deficit_round_robin :: "MuxFrame list \<Rightarrow> nat \<Rightarrow> MuxFrame list" where
  "deficit_round_robin frames quantum =
     (if quantum = 0 \<or> length frames < 2 then frames
      else
        let (order, queues) = drr_group frames [] [] in
        if length order < 2 then
          (case order of [] \<Rightarrow> [] | s # _ \<Rightarrow> queue_of queues s)
        else drr_loop quantum order queues (map (\<lambda>s. (s, 0)) order) [])"


section \<open>Grouping\<close>

abbreviation on_stream :: "u32 \<Rightarrow> MuxFrame list \<Rightarrow> MuxFrame list" where
  "on_stream s fs \<equiv> filter (\<lambda>f. stream_id f = s) fs"

lemma drr_group_queue:
  "drr_group fs order queues = (order', queues') \<Longrightarrow>
     queue_of queues' s = queue_of queues s @ on_stream s fs"
  by (induction fs arbitrary: order queues) (auto simp: Let_def)

lemma drr_group_order:
  assumes "drr_group fs order queues = (order', queues')"
    and "distinct order" and "\<And>s. s \<in> set order \<longleftrightarrow> queue_of queues s \<noteq> []"
  shows "distinct order' \<and> (\<forall>s. s \<in> set order' \<longleftrightarrow> queue_of queues' s \<noteq> [])"
  using assms
proof (induction fs arbitrary: order queues)
  case (Cons f fs)
  let ?q = "queue_of queues (stream_id f)"
  let ?order = "if ?q = [] then order @ [stream_id f] else order"
  let ?queues = "hm_insert (stream_id f) (?q @ [f]) queues"
  have "drr_group fs ?order ?queues = (order', queues')"
    using Cons.prems(1) by (simp add: Let_def)
  moreover have "distinct ?order" "\<And>s. s \<in> set ?order \<longleftrightarrow> queue_of ?queues s \<noteq> []"
    using Cons.prems(2,3) by auto
  ultimately show ?case by (rule Cons.IH)
qed simp

lemma drr_group_spec:
  assumes "drr_group frames [] [] = (order, queues)"
  shows "queue_of queues s = on_stream s frames" and "distinct order"
    and "set order = stream_id ` set frames"
proof -
  show q: "queue_of queues s = on_stream s frames" for s
    using drr_group_queue [OF assms] by (simp add: queue_of_def)
  have "distinct order \<and> (\<forall>s. s \<in> set order \<longleftrightarrow> queue_of queues s \<noteq> [])"
    by (rule drr_group_order [OF assms]) (simp_all add: queue_of_def)
  then show "distinct order" "set order = stream_id ` set frames"
    by (auto simp: q filter_empty_conv)
qed

section \<open>Order within a stream\<close>

lemma drr_loop_queues:
  assumes "0 < quantum"
    and "\<And>s. queue_of queues s \<noteq> [] \<Longrightarrow> s \<in> set active"
    and "\<And>s f. f \<in> set (queue_of queues s) \<Longrightarrow> stream_id f = s"
  shows "on_stream s (drr_loop quantum active queues deficit out) = on_stream s out @ queue_of queues s"
  using assms
proof (induction active queues deficit out rule: drr_loop_induct)
  case (finish queues deficit out)
  then show ?case by fastforce
next
  case (skip sid active queues deficit out)
  have "\<And>s. queue_of queues s \<noteq> [] \<Longrightarrow> s \<in> set active"
    using skip.prems(1) skip.hyps by fastforce
  then show ?case using skip.IH skip.prems(2) by (simp add: drr_loop_skip [OF assms(1) skip.hyps])
next
  case (serve sid active queues deficit out q' d' sent)
  have split: "queue_of queues sid = sent @ q'" using drr_serve_split [OF serve.hyps(2)] by simp
  have own: "on_stream s sent = (if s = sid then sent else [])"
    using serve.prems(2) [of _ sid] split by (auto simp: filter_empty_conv)
  have "on_stream s (drr_loop quantum (sid # active) queues deficit out) =
      on_stream s (out @ sent) @ queue_of (hm_insert sid q' queues) s"
    unfolding drr_loop_serve [OF assms(1) serve.hyps]
    by (rule serve.IH) (use serve.prems split in \<open>auto split: if_splits\<close>)
  then show ?case using own split by auto
qed

lemma drr_on_stream: "on_stream s (deficit_round_robin frames quantum) = on_stream s frames"
proof (cases "quantum = 0 \<or> length frames < 2")
  case True
  then show ?thesis by (simp add: deficit_round_robin_def)
next
  case False
  obtain order queues where g: "drr_group frames [] [] = (order, queues)"
    by (cases "drr_group frames [] []") auto
  note spec = drr_group_spec [OF g]
  show ?thesis
  proof (cases "length order < 2")
    case True
    then consider "order = []" | t where "order = [t]"
      by (cases order; cases "tl order") auto
    then show ?thesis
    proof cases
      case 1
      with spec(3) have "frames = []" by auto
      with False show ?thesis by simp
    next
      case 2
      with spec(3) have "\<forall>f \<in> set frames. stream_id f = t" by auto
      then have "on_stream t frames = frames" by simp
      with 2 False g spec(1) show ?thesis by (simp add: deficit_round_robin_def)
    qed
  next
    case two: False
    have "on_stream s (drr_loop quantum order queues (map (\<lambda>s. (s, 0)) order) []) =
        on_stream s [] @ queue_of queues s"
      by (rule drr_loop_queues) (use False spec in \<open>auto simp: filter_empty_conv\<close>)
    with False two g spec(1) show ?thesis by (simp add: deficit_round_robin_def)
  qed
qed

lemma on_stream_mset:
  assumes "\<And>s. on_stream s xs = on_stream s ys"
  shows "mset xs = mset ys"
proof (rule multiset_eqI)
  fix f
  have "count (mset (on_stream (stream_id f) xs)) f = count (mset (on_stream (stream_id f) ys)) f"
    using assms by simp
  then show "count (mset xs) f = count (mset ys) f" by simp
qed

text \<open>
  C20: the scheduler only interleaves: whatever the quantum, the output holds exactly the queued
  frames, and the frames of each stream come out in the order in which they were queued.
\<close>

theorem drr_interleaves:
  "mset (deficit_round_robin frames quantum) = mset frames \<and>
   on_stream s (deficit_round_robin frames quantum) = on_stream s frames"
  using on_stream_mset [OF drr_on_stream] drr_on_stream by blast

section \<open>Bounded waiting\<close>

lemma drr_loop_extends:
  assumes "0 < quantum"
  shows "\<exists>rest. drr_loop quantum active queues deficit out = out @ rest"
  using assms
proof (induction active queues deficit out rule: drr_loop_induct)
  case (skip sid active queues deficit out)
  then show ?case by (simp add: drr_loop_skip [OF assms])
next
  case (serve sid active queues deficit out q' d' sent)
  then show ?case unfolding drr_loop_serve [OF assms serve.hyps] by auto
qed simp

lemma drr_loop_wait:
  assumes "0 < quantum" "distinct (before @ [s])"
    and "\<forall>t \<in> set (before @ [s]). deficit_of deficit t = 0"
    and "queue_of queues s = f # q" "frame_cost f \<le> quantum"
    and "\<And>t g. g \<in> set (queue_of queues t) \<Longrightarrow> stream_id g = t"
  shows "\<exists>pre post. drr_loop quantum (before @ s # later) queues deficit out = out @ pre @ f # post \<and>
           (\<forall>t. queue_cost (on_stream t pre) \<le> (if t \<in> set before then quantum else 0))"
  using assms(2-6)
proof (induction before arbitrary: queues deficit out later)
  case Nil
  obtain q' d' sent where "drr_serve q (quantum - frame_cost f) = (q', d', sent)"
    by (cases "drr_serve q (quantum - frame_cost f)") auto
  with Nil have srv: "drr_serve (queue_of queues s) (deficit_of deficit s + quantum) = (q', d', f # sent)"
    by (simp add: Let_def)
  obtain rest where "drr_loop quantum (s # later) queues deficit out = (out @ f # sent) @ rest"
    using drr_loop_serve [OF assms(1) _ srv, of later out] Nil.prems(3)
      drr_loop_extends [OF assms(1), of _ _ _ "out @ f # sent"] by (metis list.distinct(1))
  then have "drr_loop quantum ([] @ s # later) queues deficit out = out @ [] @ f # (sent @ rest)"
    by simp
  then show ?case by (intro exI [of _ "[]"] exI [of _ "sent @ rest"]) simp
next
  case (Cons t before)
  show ?case
  proof (cases "queue_of queues t = []")
    case True
    obtain pre post where
      "drr_loop quantum ((t # before) @ s # later) queues deficit out = out @ pre @ f # post"
      and pre: "\<And>u. queue_cost (on_stream u pre) \<le> (if u \<in> set before then quantum else 0)"
      using Cons.IH [of deficit queues later out] Cons.prems
      by (auto simp: drr_loop_skip [OF assms(1) True])
    moreover have "queue_cost (on_stream u pre) \<le> (if u \<in> set (t # before) then quantum else 0)" for u
      using pre [of u] by (auto split: if_splits)
    ultimately show ?thesis by blast
  next
    case False
    obtain p' d' sent where srv: "drr_serve (queue_of queues t) (deficit_of deficit t + quantum) = (p', d', sent)"
      by (cases "drr_serve (queue_of queues t) (deficit_of deficit t + quantum)") auto
    have sent: "queue_of queues t = sent @ p'" "queue_cost sent \<le> quantum"
      using drr_serve_split [OF srv] Cons.prems(2) by auto
    have own: "on_stream u sent = (if u = t then sent else [])" for u
      using Cons.prems(5) [of _ t] sent(1) by (auto simp: filter_empty_conv)
    let ?later = "if p' = [] then later else later @ [t]"
    let ?loop = "drr_loop quantum (before @ s # ?later) (hm_insert t p' queues)
      (hm_insert t (if p' = [] then 0 else d') deficit) (out @ sent)"
    have step: "drr_loop quantum ((t # before) @ s # later) queues deficit out = ?loop"
      using drr_loop_serve [OF assms(1) False srv, of "before @ s # later" out] by (cases "p' = []") simp_all
    have "\<exists>pre post. ?loop = (out @ sent) @ pre @ f # post \<and>
        (\<forall>u. queue_cost (on_stream u pre) \<le> (if u \<in> set before then quantum else 0))"
      by (rule Cons.IH) (use Cons.prems sent(1) in \<open>auto split: if_splits\<close>)
    then obtain pre post where "?loop = (out @ sent) @ pre @ f # post"
      and pre: "\<And>u. queue_cost (on_stream u pre) \<le> (if u \<in> set before then quantum else 0)"
      by auto
    moreover have "queue_cost (on_stream u (sent @ pre)) \<le> (if u \<in> set (t # before) then quantum else 0)" for u
      using pre [of u] own [of u] sent(2) Cons.prems(1) by auto
    ultimately show ?thesis
      using step by (metis append.assoc)
  qed
qed

lemma deficit_of_zero: "deficit_of (map (\<lambda>s. (s, 0)) order) t = 0"
  by (induction order) (auto simp: deficit_of_def hm_get_def)


definition wait_example :: "MuxFrame list" where
  "wait_example =
     [\<lparr>stream_id = 2, command = Data, body = [1, 2, 3, 4]\<rparr>,
      \<lparr>stream_id = 2, command = Data, body = [5, 6, 7, 8]\<rparr>,
      \<lparr>stream_id = 4, command = Data, body = [9]\<rparr>]"


end
