(* ===== verification/Mux_State.thy ===== *)
theory Mux_State
  imports Mux_Target Mux_Stream Mux_Drr
begin

text \<open>
  The connection-level state machine of the multiplexer (\<open>MuxState\<close> in
  \<open>crates/mux/src/state.rs\<close>): the stream table with its per-stream states and flow-control
  windows, the outbound queue with its cap, and every operation on them.  An operation takes the
  state and returns its result together with the state it leaves behind, since several of them
  fail after having changed it.  Shown here: the invariant of the table and the queue over all
  runs of the operations, that every operation moves each stream only along the documented
  per-stream diagram, which operations are atomic on error, and the flow-control accounting.
\<close>

section \<open>State\<close>

datatype StreamState = SynSent | SynReceived | Open | HalfClosedLocal | HalfClosedRemote | Closed

record Stream =
  state :: StreamState
  send_credit :: u32
  recv_window :: u32
  pending_target :: "MuxTarget option"

datatype MuxStateError =
    FrameError MuxFrameError
  | TargetErr TargetError
  | UnknownStream u32
  | ForeignStreamId u32
  | BadState u32 StreamState
  | InsufficientCredit u32 u32
  | StreamLimit u32
  | StreamIdExhausted
  | OutboundQueueFull nat
  | Internal string

record MuxState =
  role :: StreamRole
  policy :: MuxPolicy
  streams :: "(u32, Stream) hashmap"
  id_allocator :: StreamIdAllocator
  outbound :: "MuxFrame list"
  open_count :: u32

datatype MuxEvent =
    EvIncoming u32 MuxTarget
  | EvEstablished u32
  | EvData u32 bytes
  | EvWindowUpdate u32 u32
  | EvPeerEndLocal u32
  | EvReset u32 u8

type_synonym 'a mux_result = "(MuxStateError + 'a) \<times> MuxState"

section \<open>Operations\<close>

definition MuxState_new :: "StreamRole \<Rightarrow> MuxPolicy \<Rightarrow> MuxState" where
  "MuxState_new r p =
     \<lparr>role = r, policy = p, streams = [], id_allocator = StreamIdAllocator_new r,
      outbound = [], open_count = 0\<rparr>"

definition enqueue :: "MuxFrame \<Rightarrow> MuxState \<Rightarrow> unit mux_result" where
  "enqueue frame st =
     (if max_pending_outbound (policy st) \<le> length (outbound st)
      then (Err (OutboundQueueFull (max_pending_outbound (policy st))), st)
      else (Ok (), st\<lparr>outbound := outbound st @ [frame]\<rparr>))"

text \<open>
  The two lines every operation that emits a frame shares: build it, passing a constructor
  error on, and enqueue it.
\<close>

definition queue_frame :: "u32 \<Rightarrow> MuxCmd \<Rightarrow> bytes \<Rightarrow> MuxState \<Rightarrow> unit mux_result" where
  "queue_frame sid cmd b st =
     (case MuxFrame_new sid cmd b of
        Err e \<Rightarrow> (Err (FrameError e), st)
      | Ok frame \<Rightarrow> enqueue frame st)"

definition set_stream :: "u32 \<Rightarrow> Stream \<Rightarrow> MuxState \<Rightarrow> MuxState" where
  "set_stream sid s st = st\<lparr>streams := hm_insert sid s (streams st)\<rparr>"

definition close_stream :: "u32 \<Rightarrow> MuxState \<Rightarrow> MuxState" where
  "close_stream sid st =
     (case hm_get (streams st) sid of
        None \<Rightarrow> st
      | Some s \<Rightarrow>
          let st' = st\<lparr>streams := hm_remove sid (streams st)\<rparr> in
          if state s \<noteq> Closed then st'\<lparr>open_count := saturating_sub (open_count st') 1\<rparr> else st')"

definition fresh_stream :: "MuxState \<Rightarrow> StreamState \<Rightarrow> MuxTarget option \<Rightarrow> Stream" where
  "fresh_stream st s t =
     \<lparr>state = s, send_credit = initial_window (policy st),
      recv_window = initial_window (policy st), pending_target = t\<rparr>"

definition open_local :: "MuxTarget \<Rightarrow> MuxState \<Rightarrow> u32 mux_result" where
  "open_local target st =
     (if max_concurrent_streams (policy st) \<le> open_count st
      then (Err (StreamLimit (max_concurrent_streams (policy st))), st)
      else case StreamIdAllocator_next (id_allocator st) of
        (None, a) \<Rightarrow> (Err StreamIdExhausted, st\<lparr>id_allocator := a\<rparr>)
      | (Some sid, a) \<Rightarrow>
          let st1 = st\<lparr>id_allocator := a\<rparr> in
          case MuxTarget_encode target of
            Err e \<Rightarrow> (Err (TargetErr e), st1)
          | Ok target_bytes \<Rightarrow>
              (case queue_frame sid Begin target_bytes st1 of
                 (Err e, st2) \<Rightarrow> (Err e, st2)
               | (Ok _, st2) \<Rightarrow>
                   (Ok sid, (set_stream sid (fresh_stream st2 SynSent None) st2)
                              \<lparr>open_count := open_count st2 + 1\<rparr>)))"

definition accept :: "u32 \<Rightarrow> MuxState \<Rightarrow> MuxTarget mux_result" where
  "accept sid st =
     (case hm_get (streams st) sid of
        None \<Rightarrow> (Err (UnknownStream sid), st)
      | Some s \<Rightarrow>
          if state s \<noteq> SynReceived then (Err (BadState sid (state s)), st)
          else case pending_target s of
            None \<Rightarrow> (Err (Internal ''SynReceived missing pending_target''), st)
          | Some target \<Rightarrow>
              let st1 = set_stream sid (s\<lparr>pending_target := None, state := Open\<rparr>) st in
              (case queue_frame sid BeginOk [] st1 of
                 (Err e, st2) \<Rightarrow> (Err e, st2)
               | (Ok _, st2) \<Rightarrow> (Ok target, st2)))"

definition reject :: "u32 \<Rightarrow> MuxState \<Rightarrow> unit mux_result" where
  "reject sid st =
     (case hm_get (streams st) sid of
        None \<Rightarrow> (Err (UnknownStream sid), st)
      | Some s \<Rightarrow>
          if state s \<noteq> SynReceived then (Err (BadState sid (state s)), st)
          else case queue_frame sid Reset [0x01] st of
            (Err e, st1) \<Rightarrow> (Err e, st1)
          | (Ok _, st1) \<Rightarrow> (Ok (), close_stream sid st1))"

definition send_data :: "u32 \<Rightarrow> bytes \<Rightarrow> MuxState \<Rightarrow> nat mux_result" where
  "send_data sid payload st =
     (case hm_get (streams st) sid of
        None \<Rightarrow> (Err (UnknownStream sid), st)
      | Some s \<Rightarrow>
          if \<not> (state s = Open \<or> state s = HalfClosedRemote) then (Err (BadState sid (state s)), st)
          else if send_credit s = 0 then (Ok 0, st)
          else
            let max_chunk = min (min MAX_MUX_FRAME_BODY (unat (send_credit s))) (length payload) in
            if max_chunk = 0 then (Ok 0, st)
            else case queue_frame sid Data (take max_chunk payload) st of
              (Err e, st1) \<Rightarrow> (Err e, st1)
            | (Ok _, st1) \<Rightarrow>
                (Ok max_chunk,
                 case hm_get (streams st1) sid of
                   None \<Rightarrow> st1
                 | Some s2 \<Rightarrow>
                     set_stream sid
                       (s2\<lparr>send_credit := saturating_sub (send_credit s2) (word_of_nat max_chunk)\<rparr>) st1))"

definition end_local :: "u32 \<Rightarrow> MuxState \<Rightarrow> unit mux_result" where
  "end_local sid st =
     (case hm_get (streams st) sid of
        None \<Rightarrow> (Err (UnknownStream sid), st)
      | Some s \<Rightarrow>
          (case (if state s = Open then Some HalfClosedLocal
                 else if state s = HalfClosedRemote then Some Closed else None) of
             None \<Rightarrow> (Err (BadState sid (state s)), st)
           | Some nxt \<Rightarrow>
               (case queue_frame sid EndLocal [] st of
                  (Err e, st1) \<Rightarrow> (Err e, st1)
                | (Ok _, st1) \<Rightarrow>
                    (Ok (),
                     if nxt = Closed then close_stream sid st1
                     else case hm_get (streams st1) sid of
                       None \<Rightarrow> st1
                     | Some s2 \<Rightarrow> set_stream sid (s2\<lparr>state := nxt\<rparr>) st1))))"

definition reset :: "u32 \<Rightarrow> u8 \<Rightarrow> MuxState \<Rightarrow> unit mux_result" where
  "reset sid error_code st =
     (if \<not> hm_contains (streams st) sid then (Err (UnknownStream sid), st)
      else case queue_frame sid Reset [error_code] st of
        (Err e, st1) \<Rightarrow> (Err e, st1)
      | (Ok _, st1) \<Rightarrow> (Ok (), close_stream sid st1))"

definition grant_credit :: "u32 \<Rightarrow> u32 \<Rightarrow> MuxState \<Rightarrow> unit mux_result" where
  "grant_credit sid delta st =
     (case hm_get (streams st) sid of
        None \<Rightarrow> (Err (UnknownStream sid), st)
      | Some s \<Rightarrow>
          if state s = Closed then (Err (BadState sid (state s)), st)
          else case queue_frame sid WindowUpdate (to_be delta) st of
            (Err e, st1) \<Rightarrow> (Err e, st1)
          | (Ok _, st1) \<Rightarrow>
              (Ok (),
               case hm_get (streams st1) sid of
                 None \<Rightarrow> st1
               | Some s2 \<Rightarrow>
                   set_stream sid (s2\<lparr>recv_window := saturating_add (recv_window s2) delta\<rparr>) st1))"

subsection \<open>Inbound frames, one definition per arm of \<open>MuxState::recv\<close>\<close>

definition recv_Begin :: "u32 \<Rightarrow> bytes \<Rightarrow> MuxState \<Rightarrow> MuxEvent mux_result" where
  "recv_Begin sid b st =
     (let peer_id_ok = (case role st of Initiator \<Rightarrow> sid mod 2 = 1 | Responder \<Rightarrow> sid mod 2 = 0) in
      if \<not> peer_id_ok then
        (case queue_frame sid Reset [0x03] st of
           (Err e, st1) \<Rightarrow> (Err e, st1)
         | (Ok _, st1) \<Rightarrow> (Err (ForeignStreamId sid), st1))
      else case MuxTarget_decode b of
        Err e \<Rightarrow> (Err (TargetErr e), st)
      | Ok target \<Rightarrow>
          (case hm_get (streams st) sid of
             Some existing \<Rightarrow> (Err (BadState sid (state existing)), st)
           | None \<Rightarrow>
               if max_concurrent_streams (policy st) \<le> open_count st then
                 (case queue_frame sid Reset [0x02] st of
                    (Err e, st1) \<Rightarrow> (Err e, st1)
                  | (Ok _, st1) \<Rightarrow> (Err (StreamLimit (max_concurrent_streams (policy st1))), st1))
               else
                 (Ok (EvIncoming sid target),
                  (set_stream sid (fresh_stream st SynReceived (Some target)) st)
                    \<lparr>open_count := open_count st + 1\<rparr>)))"

definition recv_BeginOk :: "u32 \<Rightarrow> MuxState \<Rightarrow> MuxEvent mux_result" where
  "recv_BeginOk sid st =
     (case hm_get (streams st) sid of
        None \<Rightarrow> (Err (UnknownStream sid), st)
      | Some s \<Rightarrow>
          if state s \<noteq> SynSent then (Err (BadState sid (state s)), st)
          else (Ok (EvEstablished sid), set_stream sid (s\<lparr>state := Open\<rparr>) st))"

definition recv_Data :: "u32 \<Rightarrow> bytes \<Rightarrow> MuxState \<Rightarrow> MuxEvent mux_result" where
  "recv_Data sid b st =
     (case hm_get (streams st) sid of
        None \<Rightarrow> (Err (UnknownStream sid), st)
      | Some s \<Rightarrow>
          if \<not> (state s = Open \<or> state s = HalfClosedLocal) then (Err (BadState sid (state s)), st)
          else
            let n = word_of_nat (length b) :: u32 in
            if recv_window s < n then
              (case queue_frame sid Reset [0x03] st of
                 (Err e, st1) \<Rightarrow> (Err e, st1)
               | (Ok _, st1) \<Rightarrow> (Err (BadState sid Closed), close_stream sid st1))
            else
              (Ok (EvData sid b),
               set_stream sid (s\<lparr>recv_window := saturating_sub (recv_window s) n\<rparr>) st))"

definition recv_WindowUpdate :: "u32 \<Rightarrow> bytes \<Rightarrow> MuxState \<Rightarrow> MuxEvent mux_result" where
  "recv_WindowUpdate sid b st =
     (if length b \<noteq> 4 then (Err (FrameError BodyLength), st)
      else case hm_get (streams st) sid of
        None \<Rightarrow> (Err (UnknownStream sid), st)
      | Some s \<Rightarrow>
          let delta = from_be [b ! 0, b ! 1, b ! 2, b ! 3] in
          (Ok (EvWindowUpdate sid delta),
           set_stream sid (s\<lparr>send_credit := saturating_add (send_credit s) delta\<rparr>) st))"

definition recv_EndLocal :: "u32 \<Rightarrow> MuxState \<Rightarrow> MuxEvent mux_result" where
  "recv_EndLocal sid st =
     (case hm_get (streams st) sid of
        None \<Rightarrow> (Err (UnknownStream sid), st)
      | Some s \<Rightarrow>
          if state s = Open then
            (Ok (EvPeerEndLocal sid), set_stream sid (s\<lparr>state := HalfClosedRemote\<rparr>) st)
          else if state s = HalfClosedLocal then (Ok (EvPeerEndLocal sid), close_stream sid st)
          else (Err (BadState sid (state s)), st))"

definition recv_Reset :: "u32 \<Rightarrow> bytes \<Rightarrow> MuxState \<Rightarrow> MuxEvent mux_result" where
  "recv_Reset sid b st =
     (if \<not> hm_contains (streams st) sid then (Err (UnknownStream sid), st)
      else (Ok (EvReset sid (case b of [] \<Rightarrow> 0xFF | c # _ \<Rightarrow> c)), close_stream sid st))"

definition recv :: "MuxFrame \<Rightarrow> MuxState \<Rightarrow> MuxEvent mux_result" where
  "recv frame st =
     (case command frame of
        Begin \<Rightarrow> recv_Begin (stream_id frame) (body frame) st
      | BeginOk \<Rightarrow> recv_BeginOk (stream_id frame) st
      | Data \<Rightarrow> recv_Data (stream_id frame) (body frame) st
      | WindowUpdate \<Rightarrow> recv_WindowUpdate (stream_id frame) (body frame) st
      | EndLocal \<Rightarrow> recv_EndLocal (stream_id frame) st
      | Reset \<Rightarrow> recv_Reset (stream_id frame) (body frame) st)"

definition pending_outbound :: "MuxState \<Rightarrow> MuxFrame list \<times> MuxState" where
  "pending_outbound st =
     (deficit_round_robin (outbound st) (drr_quantum_bytes (policy st)), st\<lparr>outbound := []\<rparr>)"

definition pending_outbound_len :: "MuxState \<Rightarrow> nat" where
  "pending_outbound_len st = length (outbound st)"

definition stream_state :: "MuxState \<Rightarrow> u32 \<Rightarrow> StreamState option" where
  "stream_state st sid = map_option state (hm_get (streams st) sid)"

definition open_streams :: "MuxState \<Rightarrow> u32" where
  "open_streams st = open_count st"

section \<open>The abstract machine\<close>

text \<open>
  The per-stream diagram in the documentation of \<open>MuxState\<close>.  \<open>None\<close> is both its \<open>Idle\<close> and its
  \<open>Closed\<close>: a closed stream is evicted from the table.
\<close>

inductive stream_edge :: "StreamState option \<Rightarrow> StreamState option \<Rightarrow> bool" where
  edge_open_local: "stream_edge None (Some SynSent)"
| edge_recv_Begin: "stream_edge None (Some SynReceived)"
| edge_recv_BeginOk: "stream_edge (Some SynSent) (Some Open)"
| edge_accept: "stream_edge (Some SynReceived) (Some Open)"
| edge_end_local: "stream_edge (Some Open) (Some HalfClosedLocal)"
| edge_recv_EndLocal: "stream_edge (Some Open) (Some HalfClosedRemote)"
| edge_close: "stream_edge (Some s) None"

inductive_simps stream_edge_simps [simp]:
  "stream_edge None (Some s)" "stream_edge (Some s) None" "stream_edge (Some s) (Some t)"

text \<open>What an operation may do to the entry of a stream that stays in the table.\<close>

definition entry_step :: "Stream \<Rightarrow> Stream \<Rightarrow> bool" where
  "entry_step s s' =
     ((state s' = state s \<and> pending_target s' = pending_target s) \<or>
      (stream_edge (Some (state s)) (Some (state s')) \<and>
       send_credit s' = send_credit s \<and> recv_window s' = recv_window s \<and>
       pending_target s' = (if state s = SynReceived then None else pending_target s)))"

definition queue_ext :: "MuxState \<Rightarrow> MuxFrame list \<Rightarrow> bool" where
  "queue_ext st out =
     (out = outbound st \<or>
      (\<exists>f. out = outbound st @ [f] \<and> wf_frame f \<and> length (outbound st) < max_pending_outbound (policy st)))"

text \<open>
  One step of the whole connection state, whatever the operation that takes it; the flag says
  whether the operation may draw a stream id.
\<close>

inductive mux_step :: "bool \<Rightarrow> MuxState \<Rightarrow> MuxState \<Rightarrow> bool" where
  quiet: "queue_ext st out \<Longrightarrow> mux_step opn st (st\<lparr>outbound := out\<rparr>)"
| drained: "mux_step opn st (st\<lparr>outbound := []\<rparr>)"
| id_lost: "mux_step True st (st\<lparr>id_allocator := snd (StreamIdAllocator_next (id_allocator st))\<rparr>)"
| updated: "hm_get (streams st) sid = Some s \<Longrightarrow> entry_step s s' \<Longrightarrow> queue_ext st out \<Longrightarrow>
    mux_step opn st (set_stream sid s' (st\<lparr>outbound := out\<rparr>))"
| removed: "hm_get (streams st) sid = Some s \<Longrightarrow> queue_ext st out \<Longrightarrow>
    mux_step opn st (close_stream sid (st\<lparr>outbound := out\<rparr>))"
| opened: "open_count st < max_concurrent_streams (policy st) \<Longrightarrow>
    StreamIdAllocator_next (id_allocator st) = (Some sid, a) \<Longrightarrow> queue_ext st out \<Longrightarrow>
    mux_step True st (st\<lparr>id_allocator := a, outbound := out,
      streams := hm_insert sid (fresh_stream st SynSent None) (streams st), open_count := open_count st + 1\<rparr>)"
| incoming: "open_count st < max_concurrent_streams (policy st) \<Longrightarrow> \<not> local_parity (role st) sid \<Longrightarrow>
    hm_get (streams st) sid = None \<Longrightarrow> sid \<noteq> 0 \<Longrightarrow>
    mux_step opn st (st\<lparr>streams := hm_insert sid (fresh_stream st SynReceived (Some t)) (streams st),
      open_count := open_count st + 1\<rparr>)"

lemma queue_frame_cases:
  obtains (failed) e where "queue_frame sid c b st = (Err e, st)"
  | (queued) f where "queue_frame sid c b st = (Ok (), st\<lparr>outbound := outbound st @ [f]\<rparr>)"
      "f = \<lparr>stream_id = sid, command = c, body = b\<rparr>" "wf_frame f"
      "length (outbound st) < max_pending_outbound (policy st)"
proof (cases "MuxFrame_new sid c b")
  case (Inl e)
  then show thesis using failed by (simp add: queue_frame_def)
next
  case (Inr f)
  then show thesis
    using failed queued MuxFrame_new_wf [OF Inr] Inr
    by (cases "max_pending_outbound (policy st) \<le> length (outbound st)")
      (auto simp: queue_frame_def enqueue_def MuxFrame_new_Ok)
qed

lemma MuxFrame_new_total:
  "sid \<noteq> 0 \<Longrightarrow> length b \<le> MAX_MUX_FRAME_BODY \<Longrightarrow>
     MuxFrame_new sid c b = Ok \<lparr>stream_id = sid, command = c, body = b\<rparr>"
  by (simp add: MuxFrame_new_Ok)

lemma queue_frame_room:
  assumes "sid \<noteq> 0" "length b \<le> MAX_MUX_FRAME_BODY" "length (outbound st) < max_pending_outbound (policy st)"
  shows "queue_frame sid c b st =
    (Ok (), st\<lparr>outbound := outbound st @ [\<lparr>stream_id = sid, command = c, body = b\<rparr>]\<rparr>)"
  using assms by (simp add: queue_frame_def enqueue_def MuxFrame_new_total)

lemma queue_frame_full:
  assumes "sid \<noteq> 0" "length b \<le> MAX_MUX_FRAME_BODY" "max_pending_outbound (policy st) \<le> length (outbound st)"
  shows "queue_frame sid c b st = (Err (OutboundQueueFull (max_pending_outbound (policy st))), st)"
  using assms by (simp add: queue_frame_def enqueue_def MuxFrame_new_total)

lemma queue_ext_refl [simp]: "queue_ext st (outbound st)"
  by (simp add: queue_ext_def)

lemma queue_ext_snoc:
  "wf_frame f \<Longrightarrow> length (outbound st) < max_pending_outbound (policy st) \<Longrightarrow> queue_ext st (outbound st @ [f])"
  by (simp add: queue_ext_def)

lemma mux_step_refl [simp]: "mux_step opn st st"
  using quiet [OF queue_ext_refl, of opn st] by simp

lemmas mux_step_defs = open_local_def accept_def reject_def send_data_def end_local_def reset_def
  grant_credit_def recv_Begin_def recv_BeginOk_def recv_Data_def recv_WindowUpdate_def
  recv_EndLocal_def recv_Reset_def

lemma set_stream_simps [simp]:
  "role (set_stream sid s st) = role st" "policy (set_stream sid s st) = policy st"
  "id_allocator (set_stream sid s st) = id_allocator st" "outbound (set_stream sid s st) = outbound st"
  "open_count (set_stream sid s st) = open_count st"
  "streams (set_stream sid s st) = hm_insert sid s (streams st)"
  "set_stream sid s (st\<lparr>outbound := out\<rparr>) = (set_stream sid s st)\<lparr>outbound := out\<rparr>"
  by (simp_all add: set_stream_def)

lemma close_stream_simps [simp]:
  "role (close_stream sid st) = role st" "policy (close_stream sid st) = policy st"
  "id_allocator (close_stream sid st) = id_allocator st" "outbound (close_stream sid st) = outbound st"
  "close_stream sid (st\<lparr>outbound := out\<rparr>) = (close_stream sid st)\<lparr>outbound := out\<rparr>"
  by (simp_all add: close_stream_def Let_def split: option.splits)

lemma mux_step_queued [intro]:
  "wf_frame f \<Longrightarrow> length (outbound st) < max_pending_outbound (policy st) \<Longrightarrow>
     mux_step opn st (st\<lparr>outbound := outbound st @ [f]\<rparr>)"
  by (simp add: quiet queue_ext_snoc)

lemma mux_step_updated [intro]:
  "hm_get (streams st) sid = Some s \<Longrightarrow> entry_step s s' \<Longrightarrow> mux_step opn st (set_stream sid s' st)"
  "hm_get (streams st) sid = Some s \<Longrightarrow> entry_step s s' \<Longrightarrow> wf_frame f \<Longrightarrow>
     length (outbound st) < max_pending_outbound (policy st) \<Longrightarrow>
     mux_step opn st ((set_stream sid s' st)\<lparr>outbound := outbound st @ [f]\<rparr>)"
  using updated [of st sid s s' "outbound st"] updated [of st sid s s' "outbound st @ [f]"]
  by (simp_all add: queue_ext_snoc)

lemma mux_step_removed [intro]:
  "hm_get (streams st) sid = Some s \<Longrightarrow> mux_step opn st (close_stream sid st)"
  "hm_get (streams st) sid = Some s \<Longrightarrow> wf_frame f \<Longrightarrow>
     length (outbound st) < max_pending_outbound (policy st) \<Longrightarrow>
     mux_step opn st ((close_stream sid st)\<lparr>outbound := outbound st @ [f]\<rparr>)"
  using removed [of st sid s "outbound st"] removed [of st sid s "outbound st @ [f]"]
  by (simp_all add: queue_ext_snoc)

lemma open_local_step: "mux_step True st (snd (open_local t st))"
proof (cases "max_concurrent_streams (policy st) \<le> open_count st")
  case True
  then show ?thesis by (simp add: open_local_def)
next
  case False
  obtain r a where n: "StreamIdAllocator_next (id_allocator st) = (r, a)"
    by (cases "StreamIdAllocator_next (id_allocator st)")
  have lost: "mux_step True st (st\<lparr>id_allocator := a\<rparr>)" using id_lost [of st] n by simp
  show ?thesis
  proof (cases "r = None \<or> (\<exists>e. MuxTarget_encode t = Err e)")
    case True
    with False n lost show ?thesis by (auto simp: open_local_def Let_def split: option.splits)
  next
    case ok: False
    then obtain sid bs where ok: "r = Some sid" "MuxTarget_encode t = Ok bs"
      by (cases "MuxTarget_encode t") auto
    show ?thesis
    proof (cases sid Begin bs "st\<lparr>id_allocator := a\<rparr>" rule: queue_frame_cases)
      case (failed e)
      with False n ok lost show ?thesis by (simp add: open_local_def Let_def)
    next
      case (queued f)
      have "queue_ext st (outbound st @ [f])" using queued by (simp add: queue_ext_snoc)
      with opened [of st sid a "outbound st @ [f]"] False n ok queued show ?thesis
        by (simp add: open_local_def Let_def set_stream_def fresh_stream_def not_le)
    qed
  qed
qed

lemma accept_step: "mux_step opn st (snd (accept sid st))"
proof (cases "hm_get (streams st) sid")
  case (Some s)
  show ?thesis
    by (rule queue_frame_cases [of sid BeginOk "[]" "set_stream sid (s\<lparr>pending_target := None, state := Open\<rparr>) st"])
      (auto simp: accept_def Let_def Some entry_step_def split: option.splits
        intro!: mux_step_updated [OF Some])
qed (simp add: accept_def)

lemma reject_step: "mux_step opn st (snd (reject sid st))"
proof (cases "hm_get (streams st) sid")
  case (Some s)
  show ?thesis
    by (rule queue_frame_cases [of sid Reset "[0x01]" st])
      (auto simp: reject_def Some intro!: mux_step_removed [OF Some])
qed (simp add: reject_def)

lemma send_data_step: "mux_step opn st (snd (send_data sid payload st))"
proof (cases "hm_get (streams st) sid")
  case (Some s)
  let ?n = "min (min MAX_MUX_FRAME_BODY (unat (send_credit s))) (length payload)"
  show ?thesis
    by (rule queue_frame_cases [of sid Data "take ?n payload" st])
      (auto simp: send_data_def Let_def Some entry_step_def intro!: mux_step_updated [OF Some])
qed (simp add: send_data_def)

lemma end_local_step: "mux_step opn st (snd (end_local sid st))"
proof (cases "hm_get (streams st) sid")
  case (Some s)
  show ?thesis
    by (rule queue_frame_cases [of sid EndLocal "[]" st])
      (auto simp: end_local_def Some entry_step_def intro!: mux_step_updated [OF Some] mux_step_removed [OF Some])
qed (simp add: end_local_def)

lemma reset_step: "mux_step opn st (snd (reset sid c st))"
proof (cases "hm_get (streams st) sid")
  case (Some s)
  show ?thesis
    by (rule queue_frame_cases [of sid Reset "[c]" st])
      (auto simp: reset_def hm_contains_def Some intro!: mux_step_removed [OF Some])
qed (simp add: reset_def hm_contains_def)

lemma grant_credit_step: "mux_step opn st (snd (grant_credit sid delta st))"
proof (cases "hm_get (streams st) sid")
  case (Some s)
  show ?thesis
    by (rule queue_frame_cases [of sid WindowUpdate "to_be delta" st])
      (auto simp: grant_credit_def Some entry_step_def intro!: mux_step_updated [OF Some])
qed (simp add: grant_credit_def)

lemma peer_parity:
  "(case r of Initiator \<Rightarrow> sid mod 2 = 1 | Responder \<Rightarrow> sid mod 2 = 0) = (\<not> local_parity r sid)"
  using parity_exclusive [of sid] by (cases r) auto

lemma recv_Begin_step:
  assumes "sid \<noteq> 0"
  shows "mux_step opn st (snd (recv_Begin sid b st))"
proof -
  have new: "hm_get (streams st) sid = None \<Longrightarrow> \<not> local_parity (role st) sid \<Longrightarrow>
      \<not> max_concurrent_streams (policy st) \<le> open_count st \<Longrightarrow>
      mux_step opn st ((set_stream sid (fresh_stream st SynReceived (Some t)) st)\<lparr>open_count := open_count st + 1\<rparr>)" for t
    using incoming [of st sid opn t] assms by (simp add: set_stream_def)
  show ?thesis
    by (rule queue_frame_cases [of sid Reset "[0x03]" st]; rule queue_frame_cases [of sid Reset "[0x02]" st])
      (auto simp: recv_Begin_def Let_def peer_parity split: option.splits sum.splits intro: new)
qed

lemma recv_Data_step: "mux_step opn st (snd (recv_Data sid b st))"
proof (cases "hm_get (streams st) sid")
  case (Some s)
  show ?thesis
    by (rule queue_frame_cases [of sid Reset "[0x03]" st])
      (auto simp: recv_Data_def Let_def Some entry_step_def
        intro!: mux_step_updated [OF Some] mux_step_removed [OF Some])
qed (simp add: recv_Data_def)

lemma recv_step:
  assumes "stream_id frame \<noteq> 0"
  shows "mux_step opn st (snd (recv frame st))"
proof (cases "command frame")
  case Begin
  then show ?thesis using recv_Begin_step [OF assms] by (simp add: recv_def)
next
  case Data
  then show ?thesis using recv_Data_step by (simp add: recv_def)
qed (cases "hm_get (streams st) (stream_id frame)";
  auto simp: recv_def recv_BeginOk_def recv_WindowUpdate_def recv_EndLocal_def recv_Reset_def
    hm_contains_def Let_def entry_step_def intro!: mux_step_updated mux_step_removed)+

lemma drain_step: "mux_step opn st (snd (pending_outbound st))"
  by (simp add: pending_outbound_def drained)

section \<open>Runs\<close>

datatype MuxOp =
    OpOpenLocal MuxTarget
  | OpAccept u32
  | OpReject u32
  | OpSendData u32 bytes
  | OpEndLocal u32
  | OpReset u32 u8
  | OpGrantCredit u32 u32
  | OpRecv MuxFrame
  | OpPendingOutbound

text \<open>An operation with its error, if it fails; the success value is dropped.\<close>

definition outcome :: "'a mux_result \<Rightarrow> MuxStateError option \<times> MuxState" where
  "outcome r = (case r of (Err e, st) \<Rightarrow> (Some e, st) | (Ok _, st) \<Rightarrow> (None, st))"

lemma snd_outcome [simp]: "snd (outcome r) = snd r"
  by (simp add: outcome_def split: prod.splits sum.splits)

fun apply_op :: "MuxOp \<Rightarrow> MuxState \<Rightarrow> MuxStateError option \<times> MuxState" where
  "apply_op (OpOpenLocal t) st = outcome (open_local t st)"
| "apply_op (OpAccept sid) st = outcome (accept sid st)"
| "apply_op (OpReject sid) st = outcome (reject sid st)"
| "apply_op (OpSendData sid b) st = outcome (send_data sid b st)"
| "apply_op (OpEndLocal sid) st = outcome (end_local sid st)"
| "apply_op (OpReset sid c) st = outcome (reset sid c st)"
| "apply_op (OpGrantCredit sid d) st = outcome (grant_credit sid d st)"
| "apply_op (OpRecv f) st = outcome (recv f st)"
| "apply_op OpPendingOutbound st = (None, snd (pending_outbound st))"

fun run_ops :: "MuxOp list \<Rightarrow> MuxState \<Rightarrow> MuxState" where
  "run_ops [] st = st"
| "run_ops (op # ops) st = run_ops ops (snd (apply_op op st))"

text \<open>The frames the driver feeds to \<open>recv\<close> come out of the decoder, so they are well formed.\<close>

fun op_ok :: "MuxOp \<Rightarrow> bool" where
  "op_ok (OpRecv f) = wf_frame f"
| "op_ok _ = True"

definition is_open :: "MuxOp \<Rightarrow> bool" where
  "is_open op = (case op of OpOpenLocal _ \<Rightarrow> True | _ \<Rightarrow> False)"

lemma run_ops_append: "run_ops (xs @ ys) st = run_ops ys (run_ops xs st)"
  by (induction xs arbitrary: st) auto

lemma apply_op_step: "op_ok op \<Longrightarrow> mux_step (is_open op) st (snd (apply_op op st))"
  by (cases op)
    (auto simp: wf_frame_def is_open_def intro: open_local_step accept_step reject_step send_data_step end_local_step
      reset_step grant_credit_step recv_step drain_step)

section \<open>Invariant\<close>

definition stream_ok :: "StreamRole \<Rightarrow> u32 \<Rightarrow> Stream \<Rightarrow> bool" where
  "stream_ok r sid s =
     (sid \<noteq> 0 \<and> state s \<noteq> Closed \<and> (pending_target s \<noteq> None \<longleftrightarrow> state s = SynReceived) \<and>
      (state s = SynSent \<longrightarrow> local_parity r sid) \<and> (state s = SynReceived \<longrightarrow> \<not> local_parity r sid))"

definition mux_inv :: "MuxState \<Rightarrow> bool" where
  "mux_inv st =
     (hm_wf (streams st) \<and>
      (\<forall>sid s. hm_get (streams st) sid = Some s \<longrightarrow> stream_ok (role st) sid s) \<and>
      length (outbound st) \<le> max_pending_outbound (policy st) \<and> (\<forall>f \<in> set (outbound st). wf_frame f) \<and>
      hm_len (streams st) \<le> unat (open_count st) \<and> open_count st \<le> max_concurrent_streams (policy st) \<and>
      alloc_role (id_allocator st) = role st)"

lemma mux_inv_new: "mux_inv (MuxState_new r p)"
  by (simp add: mux_inv_def MuxState_new_def)

lemma entry_step_ok: "stream_ok r sid s \<Longrightarrow> entry_step s s' \<Longrightarrow> stream_ok r sid s'"
  by (auto simp: stream_ok_def entry_step_def)

lemma queue_ext_inv:
  "queue_ext st out \<Longrightarrow> mux_inv st \<Longrightarrow>
     length out \<le> max_pending_outbound (policy st) \<and> (\<forall>f \<in> set out. wf_frame f)"
  by (auto simp: queue_ext_def mux_inv_def)

lemma unat_incr: "(c :: u32) < m \<Longrightarrow> unat (c + 1) = Suc (unat c)"
  using unsigned_less [of m, where 'a = nat] by (simp add: word_less_nat_alt unat_word_ariths)

lemma hm_len_insert_le: "hm_wf m \<Longrightarrow> hm_len (hm_insert k v m) \<le> Suc (hm_len m)"
  using hm.len_ins_new [of m k v] hm.len_ins_old [of m k] by (cases "hm_get m k") auto

lemma step_role: "mux_step opn st st' \<Longrightarrow> role st' = role st \<and> policy st' = policy st"
  by (induction rule: mux_step.cases) auto

lemma close_stream_some:
  assumes "hm_get (streams st) sid = Some s" "state s \<noteq> Closed"
  shows "close_stream sid st =
    st\<lparr>streams := hm_remove sid (streams st), open_count := saturating_sub (open_count st) 1\<rparr>"
  using assms by (simp add: close_stream_def Let_def)

lemma mux_inv_step:
  assumes "mux_step opn st st'" "mux_inv st"
  shows "mux_inv st'"
  using assms
proof (cases rule: mux_step.cases)
  case (quiet out)
  then show ?thesis using assms(2) queue_ext_inv [OF _ assms(2)] by (simp add: mux_inv_def)
next
  case drained
  then show ?thesis using assms(2) by (simp add: mux_inv_def)
next
  case id_lost
  then show ?thesis using assms(2) by (simp add: mux_inv_def next_result)
next
  case (updated sid s s' out)
  then show ?thesis
    using assms(2) queue_ext_inv [OF _ assms(2)] entry_step_ok [of "role st" sid s s']
      hm.len_ins_old [of "streams st" sid s s']
    by (auto simp: mux_inv_def hm_simps)
next
  case (removed sid s out)
  then have "stream_ok (role st) sid s" using assms(2) by (simp add: mux_inv_def)
  then have c: "close_stream sid st =
      st\<lparr>streams := hm_remove sid (streams st), open_count := saturating_sub (open_count st) 1\<rparr>"
    using removed(2) by (simp add: close_stream_some stream_ok_def)
  have "saturating_sub (open_count st) 1 \<le> max_concurrent_streams (policy st)"
    using assms(2) by (auto simp: mux_inv_def word_le_nat_alt unat_saturating_sub)
  then show ?thesis
    using removed assms(2) queue_ext_inv [OF _ assms(2)] hm.len_del_old [of "streams st" sid s]
    by (auto simp: c mux_inv_def hm_simps unat_saturating_sub)
next
  case (opened sid a out)
  have "stream_ok (role st) sid (fresh_stream st SynSent None)"
    using opened(4) assms(2)
    by (auto simp: mux_inv_def next_result alloc_result_def stream_ok_def fresh_stream_def split: if_splits)
  moreover have "open_count st + 1 \<le> max_concurrent_streams (policy st)"
    using opened(3) by (simp add: inc_le)
  ultimately show ?thesis
    using opened assms(2) queue_ext_inv [OF _ assms(2)] unat_incr [OF opened(3)]
      hm_len_insert_le [of "streams st" sid "fresh_stream st SynSent None"]
    by (auto simp: mux_inv_def hm_simps next_result)
next
  case (incoming sid t)
  have "stream_ok (role st) sid (fresh_stream st SynReceived (Some t))"
    using incoming by (auto simp: stream_ok_def fresh_stream_def)
  moreover have "open_count st + 1 \<le> max_concurrent_streams (policy st)"
    using incoming(2) by (simp add: inc_le)
  ultimately show ?thesis
    using incoming assms(2) unat_incr [OF incoming(2)]
      hm_len_insert_le [of "streams st" sid "fresh_stream st SynReceived (Some t)"]
    by (auto simp: mux_inv_def hm_simps)
qed


section \<open>Identifiers stay fresh\<close>

text \<open>
  As long as the local id counter has not wrapped around, every local stream in the table has an
  id below the counter, so the next id is new and the counter of open streams is exact.
\<close>

definition settled :: "MuxState \<Rightarrow> bool" where
  "settled st =
     (mux_inv st \<and> unat (open_count st) = hm_len (streams st) \<and>
      (\<forall>sid s. hm_get (streams st) sid = Some s \<longrightarrow> local_parity (role st) sid \<longrightarrow>
         sid < alloc_next (id_allocator st)))"

definition room_for_ids :: "MuxState \<Rightarrow> nat \<Rightarrow> bool" where
  "room_for_ids st n = (unat (alloc_next (id_allocator st)) + 2 * n < 2 ^ 32)"

lemma unat_add_2: "unat (i :: u32) + 2 < 2 ^ 32 \<Longrightarrow> unat (i + 2) = unat i + 2"
  by (simp add: unat_word_ariths)

lemma alloc_next_step:
  "mux_step opn st st' \<Longrightarrow>
     alloc_next (id_allocator st') = alloc_next (id_allocator st) \<or>
     opn \<and> alloc_next (id_allocator st') = alloc_next (id_allocator st) + 2"
  by (induction rule: mux_step.cases) (auto simp: next_result)

lemma room_step:
  assumes "mux_step opn st st'" "room_for_ids st (n + of_bool opn)"
  shows "room_for_ids st' n"
  using alloc_next_step [OF assms(1)] assms(2) unat_add_2 [of "alloc_next (id_allocator st)"]
  by (cases opn) (auto simp: room_for_ids_def)

lemma opened_fresh:
  assumes "settled st" "StreamIdAllocator_next (id_allocator st) = (Some sid, a)"
  shows "hm_get (streams st) sid = None"
proof (rule ccontr)
  assume "hm_get (streams st) sid \<noteq> None"
  then obtain s where "hm_get (streams st) sid = Some s" by auto
  with assms show False
    by (fastforce simp: settled_def mux_inv_def next_result alloc_result_def split: if_splits)
qed

lemma settled_step:
  assumes "mux_step opn st st'" "settled st" "room_for_ids st (of_bool opn)"
  shows "settled st'"
proof -
  have inv: "mux_inv st'" using assms(1,2) by (simp add: settled_def mux_inv_step)
  note st = assms(2) [unfolded settled_def mux_inv_def]
  have grow: "i < alloc_next (id_allocator st) + 2" if "i < alloc_next (id_allocator st)" "opn" for i
    using that assms(3) unat_add_2 [of "alloc_next (id_allocator st)"]
    by (auto simp: room_for_ids_def word_less_nat_alt)
  show ?thesis using assms(1)
  proof (cases rule: mux_step.cases)
    case (quiet out)
    with assms(2) inv show ?thesis by (simp add: settled_def)
  next
    case drained
    with assms(2) inv show ?thesis by (simp add: settled_def)
  next
    case id_lost
    with assms(2) inv grow show ?thesis by (simp add: settled_def next_result)
  next
    case (updated sid s s' out)
    with assms(2) inv st show ?thesis
      by (auto simp: settled_def hm_simps hm.len_ins_old [of "streams st" sid s s'])
  next
    case (removed sid s out)
    then have "state s \<noteq> Closed" using st by (auto simp: stream_ok_def)
    with removed st inv show ?thesis
      by (auto simp: settled_def hm_simps unat_saturating_sub close_stream_some hm.len_del_old)
  next
    case (opened sid a out)
    have "sid < alloc_next (id_allocator st) + 2"
      using opened(1,4) assms(3) unat_add_2 [of "alloc_next (id_allocator st)"]
      by (auto simp: next_result alloc_result_def room_for_ids_def word_less_nat_alt split: if_splits)
    moreover have "hm_get (streams st) sid = None" by (rule opened_fresh [OF assms(2) opened(4)])
    ultimately show ?thesis
      using opened st inv grow unat_incr [OF opened(3)]
      by (auto simp: settled_def hm_simps hm.len_ins_new next_result)
  next
    case (incoming sid t)
    with st inv unat_incr [OF incoming(2)] show ?thesis
      by (auto simp: settled_def hm_simps hm.len_ins_new)
  qed
qed

definition open_calls :: "MuxOp list \<Rightarrow> nat" where
  "open_calls ops = length (filter is_open ops)"

lemma run_settled:
  "list_all op_ok ops \<Longrightarrow> settled st \<Longrightarrow> room_for_ids st (open_calls ops + k) \<Longrightarrow>
     settled (run_ops ops st) \<and> room_for_ids (run_ops ops st) k"
proof (induction ops arbitrary: st)
  case Nil
  then show ?case by (simp add: open_calls_def)
next
  case (Cons op ops)
  have step: "mux_step (is_open op) st (snd (apply_op op st))"
    using Cons.prems(1) by (simp add: apply_op_step)
  have "room_for_ids st ((open_calls ops + k) + of_bool (is_open op))"
    using Cons.prems(3) by (auto simp: open_calls_def room_for_ids_def)
  moreover from this have "room_for_ids st (of_bool (is_open op))" by (simp add: room_for_ids_def)
  ultimately show ?case
    using Cons.IH [of "snd (apply_op op st)"] Cons.prems(1,2) settled_step [OF step] room_step [OF step]
    by simp
qed

lemma run_inv: "list_all op_ok ops \<Longrightarrow> mux_inv st \<Longrightarrow> mux_inv (run_ops ops st)"
  by (induction ops arbitrary: st) (auto intro: mux_inv_step [OF apply_op_step])

lemma new_settled: "settled (MuxState_new r p)"
  using mux_inv_new by (simp add: settled_def MuxState_new_def)

lemma new_room: "n < 2 ^ 31 - 1 \<Longrightarrow> room_for_ids (MuxState_new r p) n"
  by (cases r) (simp_all add: room_for_ids_def MuxState_new_def StreamIdAllocator_new_def)

lemma run_policy:
  "list_all op_ok ops \<Longrightarrow> policy (run_ops ops st) = policy st \<and> role (run_ops ops st) = role st"
  by (induction ops arbitrary: st) (auto dest: step_role [OF apply_op_step])

lemma step_diagram:
  assumes "mux_step opn st st'" "settled st"
  shows "\<exists>sid. (\<forall>t. t \<noteq> sid \<longrightarrow> hm_get (streams st') t = hm_get (streams st) t) \<and>
    (stream_state st' sid = stream_state st sid \<or> stream_edge (stream_state st sid) (stream_state st' sid))"
  using assms(1)
proof (cases rule: mux_step.cases)
  case (updated sid s s' out)
  then show ?thesis
    by (intro exI [of _ sid]) (auto simp: stream_state_def hm_simps entry_step_def)
next
  case (removed sid s out)
  then show ?thesis
    using assms(2)
    by (intro exI [of _ sid])
      (auto simp: stream_state_def hm_simps settled_def mux_inv_def stream_ok_def close_stream_some)
next
  case (opened sid a out)
  then show ?thesis
    using opened_fresh [OF assms(2) opened(4)]
    by (intro exI [of _ sid]) (auto simp: stream_state_def hm_simps fresh_stream_def)
next
  case (incoming sid t)
  then show ?thesis
    by (intro exI [of _ sid]) (auto simp: stream_state_def hm_simps fresh_stream_def)
qed (auto simp: stream_state_def)

text \<open>What a failing operation leaves behind.\<close>

definition unchanged :: "MuxState \<Rightarrow> MuxState \<Rightarrow> bool" where
  "unchanged st st' =
     (streams st' = streams st \<and> open_count st' = open_count st \<and> outbound st' = outbound st)"

lemma unchanged_refl [simp]: "unchanged st st"
  by (simp add: unchanged_def)

lemma outcome_Err [simp]: "outcome r = (Some e, st) \<longleftrightarrow> r = (Err e, st)"
  by (auto simp: outcome_def split: prod.splits sum.splits)

lemma open_local_error: "open_local t st = (Err e, st') \<Longrightarrow> unchanged st st'"
  by (cases "fst (StreamIdAllocator_next (id_allocator st))"; cases "MuxTarget_encode t";
      rule queue_frame_cases [of "the (fst (StreamIdAllocator_next (id_allocator st)))" Begin
        "projr (MuxTarget_encode t)" "st\<lparr>id_allocator := snd (StreamIdAllocator_next (id_allocator st))\<rparr>"])
    (auto simp: open_local_def Let_def unchanged_def split: if_splits prod.splits option.splits)

lemma reject_error: "reject sid st = (Err e, st') \<Longrightarrow> unchanged st st'"
  by (rule queue_frame_cases [of sid Reset "[0x01]" st])
    (auto simp: reject_def split: option.splits if_splits)

lemma send_data_error: "send_data sid b st = (Err e, st') \<Longrightarrow> unchanged st st'"
  by (rule queue_frame_cases [of sid Data "take (min (min MAX_MUX_FRAME_BODY
        (unat (send_credit (the (hm_get (streams st) sid))))) (length b)) b" st])
    (auto simp: send_data_def Let_def split: option.splits if_splits)

lemma end_local_error: "end_local sid st = (Err e, st') \<Longrightarrow> unchanged st st'"
  by (rule queue_frame_cases [of sid EndLocal "[]" st])
    (auto simp: end_local_def split: option.splits if_splits)

lemma reset_error: "reset sid c st = (Err e, st') \<Longrightarrow> unchanged st st'"
  by (rule queue_frame_cases [of sid Reset "[c]" st])
    (auto simp: reset_def split: if_splits)

lemma grant_credit_error: "grant_credit sid d st = (Err e, st') \<Longrightarrow> unchanged st st'"
  by (rule queue_frame_cases [of sid WindowUpdate "to_be d" st])
    (auto simp: grant_credit_def split: option.splits if_splits)

definition reset_frame :: "u32 \<Rightarrow> u8 \<Rightarrow> MuxFrame" where
  "reset_frame sid c = \<lparr>stream_id = sid, command = Reset, body = [c]\<rparr>"

lemma recv_error:
  assumes "recv f st = (Err e, st')"
  shows "unchanged st st' \<or>
    st' = st\<lparr>outbound := outbound st @ [reset_frame (stream_id f) 0x03]\<rparr> \<and>
      e = ForeignStreamId (stream_id f) \<or>
    st' = st\<lparr>outbound := outbound st @ [reset_frame (stream_id f) 0x02]\<rparr> \<and>
      e = StreamLimit (max_concurrent_streams (policy st)) \<or>
    st' = close_stream (stream_id f) (st\<lparr>outbound := outbound st @ [reset_frame (stream_id f) 0x03]\<rparr>) \<and>
      e = BadState (stream_id f) Closed"
  by (insert assms, rule queue_frame_cases [of "stream_id f" Reset "[0x03]" st];
      rule queue_frame_cases [of "stream_id f" Reset "[0x02]" st]; cases "command f")
    (auto simp: recv_def recv_Begin_def recv_BeginOk_def recv_Data_def recv_WindowUpdate_def
      recv_EndLocal_def recv_Reset_def Let_def reset_frame_def
      split: option.splits if_splits sum.splits)

section \<open>Properties\<close>

text \<open>
  C22: whatever the operations called and the (well-formed) frames received, the connection state
  stays within its bounds: at most \<open>max_concurrent_streams\<close> streams, at most
  \<open>max_pending_outbound\<close> queued frames, all of which the peer's decoder accepts; no closed stream
  lingers in the table, and exactly the streams awaiting a decision carry a target.
\<close>

theorem mux_run_bounded:
  assumes "list_all op_ok ops" and "st = run_ops ops (MuxState_new r p)"
  shows "hm_len (streams st) \<le> unat (max_concurrent_streams p) \<and>
    length (outbound st) \<le> max_pending_outbound p \<and>
    (\<forall>f \<in> set (outbound st). MuxFrame_decode_one (MuxFrame_encode f) = Ok (f, wire_size f)) \<and>
    (\<forall>sid s. hm_get (streams st) sid = Some s \<longrightarrow>
       state s \<noteq> Closed \<and> (pending_target s \<noteq> None \<longleftrightarrow> state s = SynReceived))"
proof -
  have inv: "mux_inv st" unfolding assms(2) by (rule run_inv [OF assms(1) mux_inv_new])
  have pol: "policy st = p"
    using run_policy [OF assms(1)] assms(2) by (simp add: MuxState_new_def)
  have "MuxFrame_decode_one (MuxFrame_encode f) = Ok (f, wire_size f)" if "wf_frame f" for f
    using decode_encode [OF that, of "[]"] by simp
  with inv pol show ?thesis
    by (auto simp: mux_inv_def stream_ok_def word_le_nat_alt)
qed

text \<open>
  Until the side has opened \<open>2^31 - 1\<close> streams, its count of open streams is the number of
  entries of the stream table, so the concurrency limit refuses a stream only when the table
  really is full.
\<close>

lemma open_count_exact:
  assumes "list_all op_ok ops" and "open_calls ops < 2 ^ 31 - 1"
  shows "unat (open_streams (run_ops ops (MuxState_new r p))) = hm_len (streams (run_ops ops (MuxState_new r p)))"
  using run_settled [OF assms(1) new_settled, of r p 0] new_room [OF assms(2)]
  by (simp add: settled_def open_streams_def)




text \<open>
  \<open>accept\<close> is not atomic: when the outbound queue is full it reports \<open>OutboundQueueFull\<close>, but
  the stream is already open, its target is lost and no \<open>BeginOk\<close> is queued; a retry on any state
  with that stream table, in particular after the queue has been drained, fails with \<open>BadState\<close>.
\<close>

lemma accept_full_queue:
  assumes "hm_get (streams st) sid = Some s" "state s = SynReceived" "pending_target s = Some t"
    and "sid \<noteq> 0" "max_pending_outbound (policy st) \<le> length (outbound st)"
  shows "\<exists>st'. accept sid st = (Err (OutboundQueueFull (max_pending_outbound (policy st))), st') \<and>
    stream_state st' sid = Some Open \<and> outbound st' = outbound st \<and>
    (\<forall>st''. streams st'' = streams st' \<longrightarrow> accept sid st'' = (Err (BadState sid Open), st''))"
  using assms
  by (simp add: accept_def Let_def queue_frame_full stream_state_def hm_simps)

lemma send_data_effect:
  assumes "hm_get (streams st) sid = Some s" "state s = Open \<or> state s = HalfClosedRemote" "sid \<noteq> 0"
    and "length (outbound st) < max_pending_outbound (policy st)"
    and "n = min (min MAX_MUX_FRAME_BODY (unat (send_credit s))) (length payload)"
  shows "\<exists>st' s'. send_data sid payload st = (Ok n, st') \<and>
    outbound st' = outbound st @
      (if n = 0 then [] else [\<lparr>stream_id = sid, command = Data, body = take n payload\<rparr>]) \<and>
    hm_get (streams st') sid = Some s' \<and> unat (send_credit s') = unat (send_credit s) - n \<and>
    s' = s\<lparr>send_credit := send_credit s'\<rparr> \<and>
    (\<forall>t. t \<noteq> sid \<longrightarrow> hm_get (streams st') t = hm_get (streams st) t) \<and>
    policy st' = policy st \<and> role st' = role st"
proof (cases "n = 0")
  case True
  then have "send_data sid payload st = (Ok 0, st)" using assms by (auto simp: send_data_def Let_def)
  with True assms(1) show ?thesis by (intro exI [of _ st] exI [of _ s]) simp
next
  case False
  let ?f = "\<lparr>stream_id = sid, command = Data, body = take n payload\<rparr>"
  let ?s = "s\<lparr>send_credit := saturating_sub (send_credit s) (word_of_nat n)\<rparr>"
  have n: "n \<le> MAX_MUX_FRAME_BODY" "n \<le> unat (send_credit s)" "n \<le> length payload" "send_credit s \<noteq> 0"
    using assms(5) False by auto
  have "queue_frame sid Data (take n payload) st = (Ok (), st\<lparr>outbound := outbound st @ [?f]\<rparr>)"
    using assms n by (intro queue_frame_room) auto
  then have "send_data sid payload st = (Ok n, set_stream sid ?s (st\<lparr>outbound := outbound st @ [?f]\<rparr>))"
    using assms(1,2) False n(4) by (simp add: send_data_def Let_def flip: assms(5))
  moreover have "unat (word_of_nat n :: u32) = n"
    using n(2) unsigned_less [of "send_credit s", where 'a = nat] by (simp add: unat_of_nat)
  ultimately show ?thesis
    using False
    by (intro exI [of _ "set_stream sid ?s (st\<lparr>outbound := outbound st @ [?f]\<rparr>)"] exI [of _ ?s])
      (simp add: hm_simps unat_saturating_sub)
qed

text \<open>
  \<open>send_data\<close> on a writable stream with room in the queue consumes exactly as many bytes as
  the frame size, the credit and the payload allow, queues them as one frame in order, takes
  exactly that much off the credit, and touches nothing else.
\<close>

lemma send_data_spec:
  assumes "hm_get (streams st) sid = Some s" "state s = Open \<or> state s = HalfClosedRemote" "sid \<noteq> 0"
    and "length (outbound st) < max_pending_outbound (policy st)"
    and "n = min (min MAX_MUX_FRAME_BODY (unat (send_credit s))) (length payload)"
  shows "\<exists>st' s'. send_data sid payload st = (Ok n, st') \<and>
    outbound st' = outbound st @
      (if n = 0 then [] else [\<lparr>stream_id = sid, command = Data, body = take n payload\<rparr>]) \<and>
    hm_get (streams st') sid = Some s' \<and> unat (send_credit s') = unat (send_credit s) - n \<and>
    s' = s\<lparr>send_credit := send_credit s'\<rparr> \<and>
    (\<forall>t. t \<noteq> sid \<longrightarrow> hm_get (streams st') t = hm_get (streams st) t)"
  using send_data_effect [OF assms] by blast

section \<open>Concrete runs\<close>

text \<open>A responder that receives a \<open>Begin\<close>, accepts it, sends three bytes and opens a stream itself.\<close>

lemmas mux_eval = MuxState_new_def StreamIdAllocator_new_def StreamIdAllocator_next_def StreamId_new_def
  outcome_def open_local_def accept_def reject_def send_data_def end_local_def reset_def grant_credit_def
  recv_def recv_Begin_def recv_BeginOk_def recv_Data_def recv_WindowUpdate_def recv_EndLocal_def
  recv_Reset_def set_stream_def close_stream_def fresh_stream_def queue_frame_def enqueue_def
  MuxFrame_new_def mux_consts policy_defaults saturating_sub_def hm_get_def hm_insert_def hm_remove_def
  hm_contains_def hm_len_def word_le_nat_alt word_less_nat_alt Let_def

definition sample_target :: MuxTarget where
  "sample_target = Ipv4 [10, 0, 0, 1] 80"

definition sample_begin :: MuxFrame where
  "sample_begin = \<lparr>stream_id = 2, command = Begin, body = [1, 10, 0, 0, 1, 0, 80]\<rparr>"

definition sample_ops :: "MuxOp list" where
  "sample_ops = [OpRecv sample_begin, OpAccept 2, OpSendData 2 [1, 2, 3], OpOpenLocal sample_target]"

lemma sample_target_wire:
  "MuxTarget_decode [1, 10, 0, 0, 1, 0, 80] = Ok sample_target"
  "MuxTarget_encode sample_target = Ok [1, 10, 0, 0, 1, 0, 80]"
  by code_simp+

lemma sample_ops_ok: "list_all op_ok sample_ops"
  by (simp add: sample_ops_def sample_begin_def wf_frame_alt mux_consts)

lemma sample_ops_opens: "open_calls sample_ops = 1"
  by (simp add: sample_ops_def open_calls_def is_open_def)

lemma sample_run:
  "run_ops (take 2 sample_ops) (MuxState_new Responder MuxPolicy_default) =
     \<lparr>role = Responder, policy = MuxPolicy_default,
      streams = [(2, \<lparr>state = Open, send_credit = 65536, recv_window = 65536, pending_target = None\<rparr>)],
      id_allocator = StreamIdAllocator_new Responder,
      outbound = [\<lparr>stream_id = 2, command = BeginOk, body = []\<rparr>], open_count = 1\<rparr>"
  "run_ops sample_ops (MuxState_new Responder MuxPolicy_default) =
     \<lparr>role = Responder, policy = MuxPolicy_default,
      streams = [(2, \<lparr>state = Open, send_credit = 65533, recv_window = 65536, pending_target = None\<rparr>),
                 (1, \<lparr>state = SynSent, send_credit = 65536, recv_window = 65536, pending_target = None\<rparr>)],
      id_allocator = \<lparr>alloc_role = Responder, alloc_next = 3\<rparr>,
      outbound = [\<lparr>stream_id = 2, command = BeginOk, body = []\<rparr>,
                  \<lparr>stream_id = 2, command = Data, body = [1, 2, 3]\<rparr>,
                  \<lparr>stream_id = 1, command = Begin, body = [1, 10, 0, 0, 1, 0, 80]\<rparr>],
      open_count = 2\<rparr>"
  by (simp_all add: sample_ops_def sample_begin_def sample_target_wire mux_eval)

theorem mux_run_bounded_witness:
  "\<exists>st. st = run_ops sample_ops (MuxState_new Responder MuxPolicy_default) \<and>
     list_all op_ok sample_ops \<and> hm_len (streams st) = 2 \<and> length (outbound st) = 3 \<and>
     hm_len (streams st) \<le> unat (max_concurrent_streams MuxPolicy_default) \<and>
     length (outbound st) \<le> max_pending_outbound MuxPolicy_default \<and>
     (\<forall>f \<in> set (outbound st). MuxFrame_decode_one (MuxFrame_encode f) = Ok (f, wire_size f)) \<and>
     (\<forall>sid s. hm_get (streams st) sid = Some s \<longrightarrow>
        state s \<noteq> Closed \<and> (pending_target s \<noteq> None \<longleftrightarrow> state s = SynReceived))"
proof -
  let ?st = "run_ops sample_ops (MuxState_new Responder MuxPolicy_default)"
  have "hm_len (streams ?st) = 2" "length (outbound ?st) = 3" by (simp_all add: sample_run hm_len_def)
  with mux_run_bounded [OF sample_ops_ok, of ?st Responder MuxPolicy_default] sample_ops_ok
  show ?thesis by blast
qed



text \<open>A responder with a one-frame queue, filled by a stream of its own, and a stream to accept.\<close>

definition tight_policy :: MuxPolicy where
  "tight_policy = MuxPolicy_default\<lparr>max_pending_outbound := 1\<rparr>"

definition full_queue_state :: MuxState where
  "full_queue_state =
     run_ops [OpOpenLocal sample_target, OpRecv sample_begin] (MuxState_new Responder tight_policy)"

lemma accept_full_queue_witness:
  "\<exists>st'. accept 2 full_queue_state = (Err (OutboundQueueFull 1), st') \<and>
     stream_state full_queue_state 2 = Some SynReceived \<and>
     stream_state st' 2 = Some Open \<and> outbound st' = outbound full_queue_state \<and>
     (\<forall>st''. streams st'' = streams st' \<longrightarrow> accept 2 st'' = (Err (BadState 2 Open), st''))"
proof -
  have "hm_get (streams full_queue_state) 2 = Some (fresh_stream full_queue_state SynReceived (Some sample_target))"
    "max_pending_outbound (policy full_queue_state) = 1" "length (outbound full_queue_state) = 1"
    "stream_state full_queue_state 2 = Some SynReceived"
    by (simp_all add: full_queue_state_def tight_policy_def sample_begin_def sample_target_wire
        stream_state_def mux_eval)
  with accept_full_queue [of full_queue_state 2 _ sample_target] show ?thesis
    by (simp add: fresh_stream_def)
qed

end
