(* ===== verification/Mux_Conn.thy ===== *)
theory Mux_Conn
  imports Mux_State
begin

text \<open>
  The connection driver on top of the state machine (\<open>crates/mux/src/conn.rs\<close>): per-stream
  staging buffers, the reader's frame dispatch, the writer's drain pass, stream handles, and
  teardown.  The tasks of the source share their data behind mutexes that are never held across
  an await, so every definition below is one critical section or a sequence of them, and
  concurrent executions are the sequences of these steps.

  A \<open>StreamShared\<close> is reached both through the routing map and through the handle the
  application holds, and outlives its routing entry; it lives in a store indexed by addresses.
  Wakers are task ids; a fired waker is recorded in \<open>woken\<close>.  A one-shot sender is a token; its
  resolution (a value, or being dropped) is recorded in \<open>resolved\<close>.
\<close>

section \<open>State\<close>

datatype MuxConnError = ConnClosed | Rejected u8 | ConnStreamLimit | StateError MuxStateError

record OutBuf =
  ob_buf :: bytes
  ending :: bool
  ended_sent :: bool
  ob_closed :: bool
  write_waker :: "nat option"
  shutdown_waker :: "nat option"

record InBuf =
  chunks :: "bytes list"
  cursor :: nat
  buffered :: nat
  unacked :: u32
  eof :: bool
  inb_reset :: "u8 option"
  read_waker :: "nat option"

record StreamShared =
  sh_id :: u32
  window :: u32
  sh_out :: OutBuf
  sh_inb :: InBuf

definition StreamShared_new :: "u32 \<Rightarrow> u32 \<Rightarrow> StreamShared" where
  "StreamShared_new i w =
     \<lparr>sh_id = i, window = w,
      sh_out = \<lparr>ob_buf = [], ending = False, ended_sent = False, ob_closed = False,
                write_waker = None, shutdown_waker = None\<rparr>,
      sh_inb = \<lparr>chunks = [], cursor = 0, buffered = 0, unacked = 0, eof = False,
                inb_reset = None, read_waker = None\<rparr>\<rparr>"

datatype OpenReply = Granted | Refused u8 | SenderDropped

record ConnInner =
  conn_state :: MuxState
  routes :: "(u32, nat) hashmap"
  open_waiters :: "(u32, nat) hashmap"
  writer_wake :: bool
  conn_closed :: bool
  conn_policy :: MuxPolicy
  reader_running :: bool
  acceptor_alive :: bool
  accept_queue :: "(nat \<times> MuxTarget) list"
  store :: "(nat, StreamShared) hashmap"
  next_addr :: nat
  woken :: "nat list"
  resolved :: "(nat \<times> OpenReply) list"

definition MuxConnection_new :: "StreamRole \<Rightarrow> MuxPolicy \<Rightarrow> ConnInner" where
  "MuxConnection_new r p =
     \<lparr>conn_state = MuxState_new r p, routes = [], open_waiters = [], writer_wake = False,
      conn_closed = False, conn_policy = p, reader_running = True, acceptor_alive = True,
      accept_queue = [], store = [], next_addr = 0, woken = [], resolved = []\<rparr>"

text \<open>\<open>Notify::notify_one\<close>: a permit for the writer.\<close>

definition notify_writer :: "ConnInner \<Rightarrow> ConnInner" where
  "notify_writer c = c\<lparr>writer_wake := True\<rparr>"

definition upd_shared :: "nat \<Rightarrow> (StreamShared \<Rightarrow> StreamShared) \<Rightarrow> ConnInner \<Rightarrow> ConnInner" where
  "upd_shared a f c =
     (case hm_get (store c) a of
        None \<Rightarrow> c
      | Some sh \<Rightarrow> c\<lparr>store := hm_insert a (f sh) (store c)\<rparr>)"

text \<open>\<open>if let Some(w) = waker.take() { w.wake() }\<close>\<close>

definition wake :: "nat option \<Rightarrow> ConnInner \<Rightarrow> ConnInner" where
  "wake w c = (case w of None \<Rightarrow> c | Some t \<Rightarrow> c\<lparr>woken := woken c @ [t]\<rparr>)"

definition alloc_shared :: "StreamShared \<Rightarrow> ConnInner \<Rightarrow> nat \<times> ConnInner" where
  "alloc_shared sh c =
     (next_addr c, c\<lparr>store := hm_insert (next_addr c) sh (store c), next_addr := Suc (next_addr c)\<rparr>)"

section \<open>Teardown\<close>

text \<open>
  Failing one handle: \<open>keep_eof\<close> is the difference between connection teardown, which leaves a
  stream that has seen a clean end of file alone, and a reset.
\<close>

definition fail_handle :: "bool \<Rightarrow> u8 \<Rightarrow> StreamShared \<Rightarrow> StreamShared" where
  "fail_handle keep_eof code sh =
     (let inb = sh_inb sh;
          inb' = (if inb_reset inb = None \<and> \<not> (keep_eof \<and> eof inb)
                  then inb\<lparr>inb_reset := Some code\<rparr> else inb)
      in sh\<lparr>sh_inb := inb'\<lparr>read_waker := None\<rparr>,
             sh_out := (sh_out sh)\<lparr>ob_closed := True, write_waker := None, shutdown_waker := None\<rparr>\<rparr>)"

definition fail_shared :: "bool \<Rightarrow> u8 \<Rightarrow> nat \<Rightarrow> ConnInner \<Rightarrow> ConnInner" where
  "fail_shared keep_eof code a c =
     (case hm_get (store c) a of
        None \<Rightarrow> c
      | Some sh \<Rightarrow>
          wake (shutdown_waker (sh_out sh)) (wake (write_waker (sh_out sh)) (wake (read_waker (sh_inb sh))
            (c\<lparr>store := hm_insert a (fail_handle keep_eof code sh) (store c)\<rparr>))))"

definition close_connection :: "ConnInner \<Rightarrow> ConnInner" where
  "close_connection c =
     (if conn_closed c then c
      else
        let c1 = c\<lparr>conn_closed := True, routes := []\<rparr>;
            c2 = fold (\<lambda>(_, a). fail_shared True 0xFF a) (routes c) c1;
            c3 = c2\<lparr>resolved := resolved c2 @ map (\<lambda>(_, w). (w, SenderDropped)) (open_waiters c2),
                    open_waiters := []\<rparr>
        in (notify_writer c3)\<lparr>reader_running := False\<rparr>)"

definition fault_stream :: "u32 \<Rightarrow> u8 \<Rightarrow> ConnInner \<Rightarrow> ConnInner" where
  "fault_stream sid code c =
     (case hm_get (routes c) sid of
        None \<Rightarrow> c
      | Some a \<Rightarrow> fail_shared False code a (c\<lparr>routes := hm_remove sid (routes c)\<rparr>))"

section \<open>Opening streams\<close>

definition map_open_err :: "MuxStateError \<Rightarrow> MuxConnError" where
  "map_open_err e = (case e of StreamLimit _ \<Rightarrow> ConnStreamLimit | _ \<Rightarrow> StateError e)"

text \<open>
  \<open>MuxConnection::open\<close> up to its first await, in three steps between which other tasks may run:
  the check of the closed flag, the section that registers the stream and its waiter, and the
  re-check of the flag that follows it.  \<open>open_await\<close> is
  what the awaited receiver yields; \<open>None\<close> means that the future is still pending.  Replacing or
  removing an entry of the waiter map drops its sender.
\<close>

definition open_check :: "ConnInner \<Rightarrow> MuxConnError + unit" where
  "open_check c = (if conn_closed c then Err ConnClosed else Ok ())"

definition dropped_sender :: "u32 \<Rightarrow> ConnInner \<Rightarrow> (nat \<times> OpenReply) list" where
  "dropped_sender sid c =
     (case hm_get (open_waiters c) sid of None \<Rightarrow> [] | Some w \<Rightarrow> [(w, SenderDropped)])"

definition open_register :: "MuxTarget \<Rightarrow> ConnInner \<Rightarrow> (MuxConnError + (u32 \<times> nat \<times> nat)) \<times> ConnInner" where
  "open_register target c =
     (case open_local target (conn_state c) of
        (Err e, st) \<Rightarrow> (Err (map_open_err e), c\<lparr>conn_state := st\<rparr>)
      | (Ok sid, st) \<Rightarrow>
          let (a, c1) = alloc_shared (StreamShared_new sid (initial_window (conn_policy c))) (c\<lparr>conn_state := st\<rparr>);
              w = next_addr c1;
              c2 = c1\<lparr>routes := hm_insert sid a (routes c1),
                      resolved := resolved c1 @ dropped_sender sid c1,
                      open_waiters := hm_insert sid w (open_waiters c1), next_addr := Suc w\<rparr>
          in (Ok (sid, a, w), notify_writer c2))"

definition open_recheck :: "u32 \<times> nat \<times> nat \<Rightarrow> ConnInner \<Rightarrow> (MuxConnError + unit) \<times> ConnInner" where
  "open_recheck h c =
     (case h of (sid, a, w) \<Rightarrow>
        if conn_closed c then
          (Err ConnClosed,
           c\<lparr>resolved := resolved c @ dropped_sender sid c,
              open_waiters := hm_remove sid (open_waiters c), routes := hm_remove sid (routes c)\<rparr>)
        else (Ok (), c))"

definition open_await :: "u32 \<times> nat \<times> nat \<Rightarrow> ConnInner \<Rightarrow> (MuxConnError + nat) option" where
  "open_await h c =
     (case h of (sid, a, w) \<Rightarrow>
        (case map_of (resolved c) w of
           None \<Rightarrow> None
         | Some Granted \<Rightarrow> Some (Ok a)
         | Some (Refused code) \<Rightarrow> Some (Err (Rejected code))
         | Some SenderDropped \<Rightarrow> Some (Err ConnClosed)))"

definition resolve :: "u32 \<Rightarrow> OpenReply \<Rightarrow> ConnInner \<Rightarrow> ConnInner" where
  "resolve sid r c =
     (case hm_get (open_waiters c) sid of
        None \<Rightarrow> c
      | Some w \<Rightarrow> c\<lparr>open_waiters := hm_remove sid (open_waiters c), resolved := resolved c @ [(w, r)]\<rparr>)"

section \<open>Peer-opened streams\<close>

definition IncomingStream_accept :: "nat \<Rightarrow> ConnInner \<Rightarrow> ConnInner" where
  "IncomingStream_accept a c =
     (case hm_get (store c) a of
        None \<Rightarrow> c
      | Some sh \<Rightarrow> notify_writer (c\<lparr>conn_state := snd (accept (sh_id sh) (conn_state c))\<rparr>))"

definition IncomingStream_reject :: "nat \<Rightarrow> u8 \<Rightarrow> ConnInner \<Rightarrow> ConnInner" where
  "IncomingStream_reject a code c =
     (case hm_get (store c) a of
        None \<Rightarrow> c
      | Some sh \<Rightarrow>
          notify_writer (c\<lparr>conn_state := snd (reset (sh_id sh) code (conn_state c)),
                           routes := hm_remove (sh_id sh) (routes c)\<rparr>))"

text \<open>Dropping an undecided \<open>IncomingStream\<close>.\<close>

definition IncomingStream_drop :: "nat \<Rightarrow> ConnInner \<Rightarrow> ConnInner" where
  "IncomingStream_drop a c =
     (case hm_get (store c) a of
        None \<Rightarrow> c
      | Some sh \<Rightarrow>
          let st' = (case reject (sh_id sh) (conn_state c) of
                       (Ok _, st1) \<Rightarrow> st1
                     | (Err _, st1) \<Rightarrow> snd (reset (sh_id sh) 0x01 st1))
          in notify_writer (c\<lparr>conn_state := st', routes := hm_remove (sh_id sh) (routes c)\<rparr>))"

section \<open>The application's side of a stream\<close>

datatype 'a poll = Pending | Ready 'a

text \<open>
  The copy loop of \<open>poll_read\<close>: bytes copied into a buffer with \<open>room\<close> left, the chunks and
  the cursor it leaves.  A chunk that is not exhausted fills the buffer, which ends the loop.
\<close>

fun read_loop :: "nat \<Rightarrow> bytes list \<Rightarrow> nat \<Rightarrow> bytes \<times> bytes list \<times> nat" where
  "read_loop room [] cur = ([], [], cur)"
| "read_loop room (front # rest) cur =
     (if room = 0 then ([], front # rest, cur)
      else
        let avail = length front - cur;
            tk = min avail room;
            part = take tk (drop cur front)
        in if length front \<le> cur + tk then
             (case read_loop (room - tk) rest 0 of (bs, cs, cur') \<Rightarrow> (part @ bs, cs, cur'))
           else (part, front # rest, cur + tk))"

definition poll_read_copy :: "nat \<Rightarrow> InBuf \<Rightarrow> bytes \<times> InBuf" where
  "poll_read_copy room inb =
     (case read_loop room (chunks inb) (cursor inb) of
        (bs, cs, cur) \<Rightarrow>
          (bs, inb\<lparr>chunks := cs, cursor := cur, buffered := buffered inb - length bs\<rparr>))"

definition poll_read_credit :: "u32 \<Rightarrow> nat \<Rightarrow> InBuf \<Rightarrow> u32 option \<times> InBuf" where
  "poll_read_credit w copied inb =
     (let u = saturating_add (unacked inb) (word_of_nat copied) in
      if w div 2 \<le> u then (Some u, inb\<lparr>unacked := 0\<rparr>) else (None, inb\<lparr>unacked := u\<rparr>))"

text \<open>\<open>poll_read\<close> by task \<open>t\<close>: \<open>Err\<close> is a connection reset, an empty read an end of file.\<close>

definition poll_read :: "nat \<Rightarrow> nat \<Rightarrow> nat \<Rightarrow> ConnInner \<Rightarrow> (unit + bytes) poll \<times> ConnInner" where
  "poll_read t a room c =
     (case hm_get (store c) a of
        None \<Rightarrow> (Pending, c)
      | Some sh \<Rightarrow>
          (case poll_read_copy room (sh_inb sh) of
             (bs, inb) \<Rightarrow>
               if bs \<noteq> [] then
                 (case poll_read_credit (window sh) (length bs) inb of
                    (grant, inb') \<Rightarrow>
                      let c1 = c\<lparr>store := hm_insert a (sh\<lparr>sh_inb := inb'\<rparr>) (store c)\<rparr> in
                      (Ready (Ok bs),
                       case grant of
                         None \<Rightarrow> c1
                       | Some g \<Rightarrow>
                           notify_writer (c1\<lparr>conn_state := snd (grant_credit (sh_id sh) g (conn_state c1))\<rparr>)))
               else if inb_reset inb \<noteq> None then
                 (Ready (Err ()), c\<lparr>store := hm_insert a (sh\<lparr>sh_inb := inb\<rparr>) (store c)\<rparr>)
               else if eof inb then
                 (Ready (Ok []), c\<lparr>store := hm_insert a (sh\<lparr>sh_inb := inb\<rparr>) (store c)\<rparr>)
               else
                 (Pending, c\<lparr>store := hm_insert a (sh\<lparr>sh_inb := inb\<lparr>read_waker := Some t\<rparr>\<rparr>) (store c)\<rparr>)))"

definition poll_write :: "nat \<Rightarrow> nat \<Rightarrow> bytes \<Rightarrow> ConnInner \<Rightarrow> (unit + nat) poll \<times> ConnInner" where
  "poll_write t a buf c =
     (case hm_get (store c) a of
        None \<Rightarrow> (Pending, c)
      | Some sh \<Rightarrow>
          let ob = sh_out sh; cap = unat (window sh) in
          if ob_closed ob then (Ready (Err ()), c)
          else if cap \<le> length (ob_buf ob) then
            (Pending, upd_shared a (\<lambda>s. s\<lparr>sh_out := ob\<lparr>write_waker := Some t\<rparr>\<rparr>) c)
          else
            let n = min (length buf) (cap - length (ob_buf ob)) in
            (Ready (Ok n),
             notify_writer (upd_shared a (\<lambda>s. s\<lparr>sh_out := ob\<lparr>ob_buf := ob_buf ob @ take n buf\<rparr>\<rparr>) c)))"

definition poll_flush :: "ConnInner \<Rightarrow> unit poll \<times> ConnInner" where
  "poll_flush c = (Ready (), notify_writer c)"

definition poll_shutdown :: "nat \<Rightarrow> nat \<Rightarrow> ConnInner \<Rightarrow> unit poll \<times> ConnInner" where
  "poll_shutdown t a c =
     (case hm_get (store c) a of
        None \<Rightarrow> (Pending, c)
      | Some sh \<Rightarrow>
          let ob = (sh_out sh)\<lparr>ending := True\<rparr> in
          if ob_closed ob \<or> ob_buf ob = [] \<and> ended_sent ob then
            (Ready (), upd_shared a (\<lambda>s. s\<lparr>sh_out := ob\<rparr>) c)
          else
            (Pending, notify_writer (upd_shared a (\<lambda>s. s\<lparr>sh_out := ob\<lparr>shutdown_waker := Some t\<rparr>\<rparr>) c)))"

definition MuxStream_drop :: "u32 \<Rightarrow> ConnInner \<Rightarrow> ConnInner" where
  "MuxStream_drop sid c =
     (case hm_get (routes c) sid of
        None \<Rightarrow> c
      | Some _ \<Rightarrow>
          let c1 = c\<lparr>routes := hm_remove sid (routes c)\<rparr> in
          if stream_state (conn_state c1) sid \<noteq> None
          then notify_writer (c1\<lparr>conn_state := snd (reset sid 0x00 (conn_state c1))\<rparr>)
          else c1)"

section \<open>The reader\<close>

definition on_incoming :: "u32 \<Rightarrow> MuxTarget \<Rightarrow> ConnInner \<Rightarrow> ConnInner" where
  "on_incoming sid target c =
     (let (a, c1) = alloc_shared (StreamShared_new sid (initial_window (conn_policy c))) c;
          c2 = c1\<lparr>routes := hm_insert sid a (routes c1)\<rparr>
      in if acceptor_alive c2 then c2\<lparr>accept_queue := accept_queue c2 @ [(a, target)]\<rparr>
         else IncomingStream_drop a c2)"

definition deliver :: "bytes \<Rightarrow> StreamShared \<Rightarrow> StreamShared" where
  "deliver b sh =
     sh\<lparr>sh_inb := (sh_inb sh)\<lparr>buffered := buffered (sh_inb sh) + length b,
                               chunks := chunks (sh_inb sh) @ [b], read_waker := None\<rparr>\<rparr>"

definition on_data :: "u32 \<Rightarrow> bytes \<Rightarrow> ConnInner \<Rightarrow> ConnInner" where
  "on_data sid b c =
     (case hm_get (routes c) sid of
        None \<Rightarrow> c
      | Some a \<Rightarrow>
          (case hm_get (store c) a of
             None \<Rightarrow> c
           | Some sh \<Rightarrow> wake (read_waker (sh_inb sh)) (upd_shared a (deliver b) c)))"

definition on_peer_end :: "u32 \<Rightarrow> ConnInner \<Rightarrow> ConnInner" where
  "on_peer_end sid c =
     (let c1 = (case hm_get (routes c) sid of
                  None \<Rightarrow> c
                | Some a \<Rightarrow>
                    (case hm_get (store c) a of
                       None \<Rightarrow> c
                     | Some sh \<Rightarrow>
                         wake (read_waker (sh_inb sh))
                           (upd_shared a (\<lambda>s. s\<lparr>sh_inb := (sh_inb s)\<lparr>eof := True, read_waker := None\<rparr>\<rparr>) c)))
      in if stream_state (conn_state c1) sid = None
         then c1\<lparr>routes := hm_remove sid (routes c1)\<rparr> else c1)"

definition handle_frame :: "MuxFrame \<Rightarrow> ConnInner \<Rightarrow> ConnInner" where
  "handle_frame frame c =
     (case recv frame (conn_state c) of
        (Err _, st) \<Rightarrow>
          let c1 = c\<lparr>conn_state := st\<rparr> in
          if stream_state st (stream_id frame) = None then fault_stream (stream_id frame) 0xFF c1 else c1
      | (Ok ev, st) \<Rightarrow>
          let c1 = c\<lparr>conn_state := st\<rparr> in
          (case ev of
             EvIncoming sid target \<Rightarrow> on_incoming sid target c1
           | EvEstablished sid \<Rightarrow> resolve sid Granted c1
           | EvData sid b \<Rightarrow> on_data sid b c1
           | EvWindowUpdate _ _ \<Rightarrow> notify_writer c1
           | EvPeerEndLocal sid \<Rightarrow> on_peer_end sid c1
           | EvReset sid code \<Rightarrow> fault_stream sid code (resolve sid (Refused code) c1)))"

text \<open>
  One read of the reader task: the frames that can be decoded are handled in order; a wire
  violation, like the end of the carrier, tears the connection down.
\<close>

definition reader_chunk :: "bytes \<Rightarrow> bytes \<Rightarrow> ConnInner \<Rightarrow> bytes \<times> ConnInner" where
  "reader_chunk acc chunk c =
     (if \<not> reader_running c then (acc, c)
      else if chunk = [] then (acc, close_connection c)
      else case decode_frames (acc @ chunk) of
        (frames, rest, dead) \<Rightarrow>
          let c1 = fold handle_frame frames c in
          (rest, if dead then close_connection c1 else notify_writer c1))"

section \<open>The writer\<close>

text \<open>
  The inner loop of \<open>drain_pass\<close> on one staging buffer.  Every round that goes on removes at
  least one byte.
\<close>

function flush_staged :: "u32 \<Rightarrow> bytes \<Rightarrow> MuxState \<Rightarrow> bytes \<times> MuxState" where
  "flush_staged sid buf st =
     (if buf = [] then (buf, st)
      else case send_data sid buf st of
        (Err _, st') \<Rightarrow> (buf, st')
      | (Ok n, st') \<Rightarrow> if n = 0 then (buf, st') else flush_staged sid (drop n buf) st')"
  by pat_completeness auto
termination by (relation "measure (\<lambda>(sid, buf, st). length buf)") auto

declare flush_staged.simps [simp del]

definition drain_stream :: "nat \<Rightarrow> ConnInner \<Rightarrow> ConnInner" where
  "drain_stream a c =
     (case hm_get (store c) a of
        None \<Rightarrow> c
      | Some sh \<Rightarrow>
          (case flush_staged (sh_id sh) (ob_buf (sh_out sh)) (conn_state c) of
             (buf, st1) \<Rightarrow>
               let ob1 = (sh_out sh)\<lparr>ob_buf := buf\<rparr>;
                   fin = ending ob1 \<and> buf = [] \<and> \<not> ended_sent ob1;
                   st2 = (if fin then snd (end_local (sh_id sh) st1) else st1);
                   ob2 = (if fin then ob1\<lparr>ended_sent := True\<rparr> else ob1);
                   below = length buf < unat (window sh);
                   flushed = ending ob2 \<and> buf = [] \<and> ended_sent ob2;
                   ob3 = ob2\<lparr>write_waker := (if below then None else write_waker ob2),
                             shutdown_waker := (if flushed then None else shutdown_waker ob2)\<rparr>;
                   c1 = c\<lparr>conn_state := st2, store := hm_insert a (sh\<lparr>sh_out := ob3\<rparr>) (store c)\<rparr>;
                   c2 = (if below then wake (write_waker ob2) c1 else c1)
               in if flushed then wake (shutdown_waker ob2) c2 else c2))"

definition drain_pass :: "ConnInner \<Rightarrow> bytes \<times> ConnInner" where
  "drain_pass c =
     (let c1 = fold (\<lambda>(_, a). drain_stream a) (routes c) c;
          c2 = c1\<lparr>routes := hm_retain (\<lambda>sid _. stream_state (conn_state c1) sid \<noteq> None) (routes c1)\<rparr>;
          (frames, st) = pending_outbound (conn_state c2)
      in (concat (map MuxFrame_encode frames), c2\<lparr>conn_state := st\<rparr>))"

text \<open>
  One wake-up of the writer task; \<open>write_ok\<close> is the outcome of writing to the carrier.  The
  result says whether the task goes on.
\<close>

definition writer_pass :: "bool \<Rightarrow> ConnInner \<Rightarrow> bytes \<times> bool \<times> ConnInner" where
  "writer_pass write_ok c =
     (let c1 = c\<lparr>writer_wake := False\<rparr> in
      if conn_closed c1 then ([], False, close_connection c1)
      else case drain_pass c1 of
        (out, c2) \<Rightarrow>
          if out \<noteq> [] \<and> \<not> write_ok then (out, False, close_connection c2) else (out, True, c2))"

section \<open>Reading\<close>

definition pending_bytes :: "InBuf \<Rightarrow> bytes" where
  "pending_bytes inb = drop (cursor inb) (concat (chunks inb))"

definition cursor_ok :: "bytes list \<Rightarrow> nat \<Rightarrow> bool" where
  "cursor_ok cs cur = (case cs of [] \<Rightarrow> cur = 0 | front # _ \<Rightarrow> cur \<le> length front)"

definition inb_ok :: "InBuf \<Rightarrow> bool" where
  "inb_ok inb = (cursor_ok (chunks inb) (cursor inb) \<and> buffered inb = length (pending_bytes inb))"

lemma read_loop_spec:
  assumes "cursor_ok cs cur" "read_loop room cs cur = (bs, cs', cur')"
  shows "bs = take room (drop cur (concat cs)) \<and> drop cur' (concat cs') = drop room (drop cur (concat cs)) \<and>
    cursor_ok cs' cur'"
  using assms
proof (induction room cs cur arbitrary: bs cs' cur' rule: read_loop.induct)
  case (1 room cur)
  then show ?case by (simp add: cursor_ok_def)
next
  case (2 room front rest cur)
  note IH = "2.IH" and prems = "2.prems"
  define tk where "tk = min (length front - cur) room"
  have cur: "cur \<le> length front" using prems(1) by (simp add: cursor_ok_def)
  consider (full) "room = 0"
    | (pop) "room \<noteq> 0" "length front \<le> cur + tk"
    | (part) "room \<noteq> 0" "\<not> length front \<le> cur + tk" by blast
  then show ?case
  proof cases
    case full
    with prems show ?thesis by simp
  next
    case pop
    then have tk: "tk = length front - cur" "length front \<le> room + cur" by (auto simp: tk_def)
    obtain bs1 cs1 cur1 where r: "read_loop (room - tk) rest 0 = (bs1, cs1, cur1)"
      by (cases "read_loop (room - tk) rest 0") auto
    have "cursor_ok rest 0" by (simp add: cursor_ok_def split: list.splits)
    with IH [OF pop(1) refl tk_def refl pop(2)] r have rest: "bs1 = take (room - tk) (concat rest)"
      "drop cur1 (concat cs1) = drop (room - tk) (concat rest)" "cursor_ok cs1 cur1"
      by simp_all
    have "bs = take tk (drop cur front) @ bs1" "cs' = cs1" "cur' = cur1"
      using prems(2) pop r by (simp_all add: Let_def flip: tk_def)
    with rest cur tk show ?thesis by simp
  next
    case part
    then have "tk = room" "room < length front - cur" by (auto simp: tk_def)
    with part prems cur show ?thesis
      by (auto simp: Let_def cursor_ok_def add.commute simp flip: tk_def)
  qed
qed

lemma poll_read_copy_spec:
  assumes "inb_ok inb" "poll_read_copy room inb = (bs, inb')"
  shows "bs = take room (pending_bytes inb) \<and> pending_bytes inb' = drop room (pending_bytes inb) \<and> inb_ok inb' \<and>
    buffered inb' = buffered inb - length bs \<and>
    inb_reset inb' = inb_reset inb \<and> eof inb' = eof inb \<and> unacked inb' = unacked inb"
proof -
  obtain cs cur where r: "read_loop room (chunks inb) (cursor inb) = (bs, cs, cur)"
    and inb': "inb' = inb\<lparr>chunks := cs, cursor := cur, buffered := buffered inb - length bs\<rparr>"
    using assms(2) by (auto simp: poll_read_copy_def split: prod.splits)
  from read_loop_spec [OF _ r] assms(1) show ?thesis
    by (auto simp: inb_ok_def pending_bytes_def inb')
qed

lemma deliver_pending:
  assumes "inb_ok (sh_inb sh)"
  shows "pending_bytes (sh_inb (deliver b sh)) = pending_bytes (sh_inb sh) @ b \<and> inb_ok (sh_inb (deliver b sh))"
proof (cases "chunks (sh_inb sh)")
  case Nil
  with assms show ?thesis by (simp add: inb_ok_def cursor_ok_def pending_bytes_def deliver_def)
next
  case (Cons front rest)
  with assms have "cursor (sh_inb sh) \<le> length front" by (simp add: inb_ok_def cursor_ok_def)
  with assms Cons show ?thesis by (simp add: inb_ok_def cursor_ok_def pending_bytes_def deliver_def)
qed

lemma upd_shared_get [simp]:
  "hm_get (store (upd_shared a f c)) b =
     (if b = a then map_option f (hm_get (store c) a) else hm_get (store c) b)"
  by (auto simp: upd_shared_def hm_simps split: option.splits)

lemma upd_shared_simps [simp]:
  "conn_state (upd_shared a f c) = conn_state c" "routes (upd_shared a f c) = routes c"
  "open_waiters (upd_shared a f c) = open_waiters c" "conn_closed (upd_shared a f c) = conn_closed c"
  "next_addr (upd_shared a f c) = next_addr c" "resolved (upd_shared a f c) = resolved c"
  "woken (upd_shared a f c) = woken c" "conn_policy (upd_shared a f c) = conn_policy c"
  "acceptor_alive (upd_shared a f c) = acceptor_alive c"
  by (simp_all add: upd_shared_def split: option.splits)

lemma wake_simps [simp]:
  "conn_state (wake w c) = conn_state c" "routes (wake w c) = routes c" "store (wake w c) = store c"
  "open_waiters (wake w c) = open_waiters c" "conn_closed (wake w c) = conn_closed c"
  "next_addr (wake w c) = next_addr c" "resolved (wake w c) = resolved c"
  "woken (wake w c) = woken c @ (case w of None \<Rightarrow> [] | Some t \<Rightarrow> [t])"
  "conn_policy (wake w c) = conn_policy c" "acceptor_alive (wake w c) = acceptor_alive c"
  by (simp_all add: wake_def split: option.splits)

lemma notify_writer_simps [simp]:
  "conn_state (notify_writer c) = conn_state c" "routes (notify_writer c) = routes c"
  "store (notify_writer c) = store c" "open_waiters (notify_writer c) = open_waiters c"
  "conn_closed (notify_writer c) = conn_closed c" "next_addr (notify_writer c) = next_addr c"
  "resolved (notify_writer c) = resolved c" "woken (notify_writer c) = woken c"
  "conn_policy (notify_writer c) = conn_policy c" "acceptor_alive (notify_writer c) = acceptor_alive c"
  by (simp_all add: notify_writer_def)

text \<open>
  A stream handle reads the delivered bytes in order: \<open>poll_read\<close> hands out the longest prefix
  of the buffered bytes that fits, keeps the rest, and only when nothing is buffered (or no room
  was offered) reports the reset, the end of file, or registers the task for a wake-up.
\<close>

lemma poll_read_fifo:
  assumes "hm_get (store c) a = Some sh" "inb_ok (sh_inb sh)" "poll_read t a room c = (r, c')"
  shows "\<exists>sh'. hm_get (store c') a = Some sh' \<and> inb_ok (sh_inb sh') \<and>
    pending_bytes (sh_inb sh') = drop room (pending_bytes (sh_inb sh)) \<and>
    r = (if take room (pending_bytes (sh_inb sh)) \<noteq> [] then Ready (Ok (take room (pending_bytes (sh_inb sh))))
         else if inb_reset (sh_inb sh) \<noteq> None then Ready (Err ())
         else if eof (sh_inb sh) then Ready (Ok [])
         else Pending) \<and>
    (r = Pending \<longrightarrow> read_waker (sh_inb sh') = Some t)"
proof -
  obtain bs inb where cp: "poll_read_copy room (sh_inb sh) = (bs, inb)"
    by (cases "poll_read_copy room (sh_inb sh)")
  note spec = poll_read_copy_spec [OF assms(2) cp]
  obtain g inb2 where gr: "poll_read_credit (window sh) (length bs) inb = (g, inb2)"
    by (cases "poll_read_credit (window sh) (length bs) inb")
  have inb2: "inb2 = inb\<lparr>unacked := unacked inb2\<rparr>"
    using gr by (auto simp: poll_read_credit_def Let_def split: if_splits)
  have ok2: "inb_ok inb2 = inb_ok inb" "pending_bytes inb2 = pending_bytes inb"
    by (subst inb2; simp add: inb_ok_def pending_bytes_def)+
  have w: "pending_bytes (inb\<lparr>read_waker := x\<rparr>) = pending_bytes inb" "inb_ok (inb\<lparr>read_waker := x\<rparr>) = inb_ok inb" for x
    by (simp_all add: inb_ok_def pending_bytes_def)
  show ?thesis
  proof (cases "bs = []")
    case False
    then have "r = Ready (Ok bs)" "hm_get (store c') a = Some (sh\<lparr>sh_inb := inb2\<rparr>)"
      using assms(1,3) by (auto simp: poll_read_def cp gr Let_def hm_simps split: option.splits)
    with False spec ok2 show ?thesis by simp
  next
    case True
    have "hm_get (store c') a = Some (sh\<lparr>sh_inb :=
        (if inb_reset inb = None \<and> \<not> eof inb then inb\<lparr>read_waker := Some t\<rparr> else inb)\<rparr>)"
      and r: "r = (if inb_reset inb \<noteq> None then Ready (Err ()) else if eof inb then Ready (Ok []) else Pending)"
      using assms(1,3) True by (auto simp: poll_read_def cp hm_simps split: if_splits)
    with True spec w show ?thesis by (auto simp del: not_None_eq)
  qed
qed

section \<open>Receive credit\<close>

text \<open>
  The peer may send what is left of the window; the rest of the window is buffered, or consumed
  and not yet granted back.
\<close>

definition receive_total :: "u32 \<Rightarrow> nat \<Rightarrow> ConnInner \<Rightarrow> nat option" where
  "receive_total sid a c =
     (case (hm_get (streams (conn_state c)) sid, hm_get (store c) a) of
        (Some s, Some sh) \<Rightarrow>
          Some (unat (recv_window s) + buffered (sh_inb sh) + unat (unacked (sh_inb sh)))
      | _ \<Rightarrow> None)"

lemma unat_le_u32: "unat (w :: u32) \<le> 2 ^ 32 - 1"
  using unsigned_less [of w, where 'a = nat] by simp

lemma unat_of_nat_u32: "n \<le> unat (w :: u32) \<Longrightarrow> unat (word_of_nat n :: u32) = n"
  using unsigned_less [of w, where 'a = nat] by (simp add: unat_of_nat)

lemma grant_credit_room:
  assumes "hm_get (streams st) sid = Some s" "state s \<noteq> Closed" "sid \<noteq> 0"
    and "length (outbound st) < max_pending_outbound (policy st)"
  shows "snd (grant_credit sid d st) =
    set_stream sid (s\<lparr>recv_window := saturating_add (recv_window s) d\<rparr>)
      (st\<lparr>outbound := outbound st @ [\<lparr>stream_id = sid, command = WindowUpdate, body = to_be d\<rparr>]\<rparr>)"
  using assms by (simp add: grant_credit_def queue_frame_room mux_consts)

lemma grant_credit_full:
  assumes "max_pending_outbound (policy st) \<le> length (outbound st)"
  shows "snd (grant_credit sid d st) = st"
  using assms by (rule_tac queue_frame_cases [of sid WindowUpdate "to_be d" st])
    (auto simp: grant_credit_def split: option.splits)

lemma poll_read_store:
  assumes "hm_get (store c) a = Some sh" "inb_ok (sh_inb sh)"
    and "n = length (take room (pending_bytes (sh_inb sh)))"
    and "g = saturating_add (unacked (sh_inb sh)) (word_of_nat n)"
    and "grants \<longleftrightarrow> 0 < n \<and> window sh div 2 \<le> g"
  shows "\<exists>sh'. hm_get (store (snd (poll_read t a room c))) a = Some sh' \<and>
    buffered (sh_inb sh') = buffered (sh_inb sh) - n \<and>
    unacked (sh_inb sh') = (if n = 0 then unacked (sh_inb sh) else if grants then 0 else g) \<and>
    conn_state (snd (poll_read t a room c)) =
      (if grants then snd (grant_credit (sh_id sh) g (conn_state c)) else conn_state c)"
proof -
  obtain bs inb where cp: "poll_read_copy room (sh_inb sh) = (bs, inb)"
    by (cases "poll_read_copy room (sh_inb sh)")
  note spec = poll_read_copy_spec [OF assms(2) cp]
  have n: "n = length bs" unfolding assms(3) using spec by simp
  have inb: "buffered inb = buffered (sh_inb sh) - n" "unacked inb = unacked (sh_inb sh)"
    using spec n by simp_all
  show ?thesis
  proof (cases "bs = []")
    case True
    with n inb assms(1,5) show ?thesis
      by (auto simp: poll_read_def cp hm_simps)
  next
    case False
    with n have "0 < n" by simp
    with n False inb assms(1,4,5) show ?thesis
      by (auto simp: poll_read_def cp hm_simps poll_read_credit_def Let_def)
  qed
qed

text \<open>
  Receive credit is conserved: with room in the outbound queue a read moves credit from
  buffered to consumed to granted and changes nothing about the total, so the window the peer
  sees never drifts.
\<close>

lemma read_conserves_credit:
  assumes "hm_get (store c) a = Some sh" "inb_ok (sh_inb sh)" "sh_id sh = sid" "sid \<noteq> 0"
    and "hm_get (streams (conn_state c)) sid = Some s" "state s \<noteq> Closed"
    and "receive_total sid a c = Some amount" "amount \<le> unat (window sh)"
    and "length (outbound (conn_state c)) < max_pending_outbound (policy (conn_state c))"
  shows "receive_total sid a (snd (poll_read t a room c)) = Some amount"
proof -
  define n where "n = length (take room (pending_bytes (sh_inb sh)))"
  define g where "g = saturating_add (unacked (sh_inb sh)) (word_of_nat n)"
  define grants where "grants \<longleftrightarrow> 0 < n \<and> window sh div 2 \<le> g"
  have tot: "amount = unat (recv_window s) + buffered (sh_inb sh) + unat (unacked (sh_inb sh))"
    using assms(1,5,7) by (simp add: receive_total_def)
  have nb: "n \<le> buffered (sh_inb sh)" using assms(2) by (simp add: n_def inb_ok_def)
  have g: "unat g = unat (unacked (sh_inb sh)) + n"
    using nb tot assms(8) unat_of_nat_u32 [of n "window sh"] unat_le_u32 [of "window sh"]
    by (simp add: g_def unat_saturating_add)
  have rw: "unat (saturating_add (recv_window s) g) = unat (recv_window s) + unat g"
    using g nb tot assms(8) unat_le_u32 [of "window sh"] by (simp add: unat_saturating_add)
  obtain sh' where sh': "hm_get (store (snd (poll_read t a room c))) a = Some sh'"
    "buffered (sh_inb sh') = buffered (sh_inb sh) - n"
    "unacked (sh_inb sh') = (if n = 0 then unacked (sh_inb sh) else if grants then 0 else g)"
    "conn_state (snd (poll_read t a room c)) =
      (if grants then snd (grant_credit (sh_id sh) g (conn_state c)) else conn_state c)"
    using poll_read_store [OF assms(1,2) n_def g_def grants_def, of t] by blast
  show ?thesis
    using sh' g rw tot nb assms(5) grant_credit_room [OF assms(5,6,4,9), of g] assms(3)
    by (auto simp: receive_total_def hm_simps grants_def)
qed

text \<open>
  When the outbound queue is full the credit a read grants back is lost: the read empties
  the account of consumed bytes, but no window update is queued and the window does not grow, so
  the total shrinks by the consumed bytes and never recovers.
\<close>

lemma read_loses_credit:
  assumes "hm_get (store c) a = Some sh" "inb_ok (sh_inb sh)" "sh_id sh = sid"
    and "receive_total sid a c = Some amount" "amount \<le> unat (window sh)"
    and "max_pending_outbound (policy (conn_state c)) \<le> length (outbound (conn_state c))"
    and "n = length (take room (pending_bytes (sh_inb sh)))" "0 < n"
    and "unat (window sh) div 2 \<le> unat (unacked (sh_inb sh)) + n"
  shows "receive_total sid a (snd (poll_read t a room c)) =
      Some (amount - (unat (unacked (sh_inb sh)) + n)) \<and>
    conn_state (snd (poll_read t a room c)) = conn_state c"
proof -
  define g where "g = saturating_add (unacked (sh_inb sh)) (word_of_nat n)"
  obtain s where s: "hm_get (streams (conn_state c)) sid = Some s"
    and tot: "amount = unat (recv_window s) + buffered (sh_inb sh) + unat (unacked (sh_inb sh))"
    using assms(1,4) by (auto simp: receive_total_def split: option.splits)
  have nb: "n \<le> buffered (sh_inb sh)" using assms(2,7) by (simp add: inb_ok_def)
  have "unat g = unat (unacked (sh_inb sh)) + n"
    using nb tot assms(5) unat_of_nat_u32 [of n "window sh"] unat_le_u32 [of "window sh"]
    by (simp add: g_def unat_saturating_add)
  then have "True \<longleftrightarrow> 0 < n \<and> window sh div 2 \<le> g"
    using assms(8,9) by (simp add: word_le_nat_alt unat_div_distrib)
  from poll_read_store [OF assms(1,2,7) g_def this, of t] nb tot s assms(3,8) grant_credit_full [OF assms(6)]
  show ?thesis by (auto simp: receive_total_def)
qed

text \<open>
  A \<open>Data\<close> frame within the window of a routed stream is appended to the bytes its handle
  will read, wakes a parked reader, and conserves the receive credit.
\<close>

lemma data_delivered:
  assumes "hm_get (streams (conn_state c)) sid = Some s" "state s = Open \<or> state s = HalfClosedLocal"
    and "hm_get (routes c) sid = Some a" "hm_get (store c) a = Some sh" "inb_ok (sh_inb sh)"
    and "length b \<le> unat (recv_window s)"
    and "c' = handle_frame \<lparr>stream_id = sid, command = Data, body = b\<rparr> c"
  shows "\<exists>sh'. hm_get (store c') a = Some sh' \<and> inb_ok (sh_inb sh') \<and>
    pending_bytes (sh_inb sh') = pending_bytes (sh_inb sh) @ b \<and>
    receive_total sid a c' = receive_total sid a c \<and>
    (\<forall>t. read_waker (sh_inb sh) = Some t \<longrightarrow> t \<in> set (woken c')) \<and> read_waker (sh_inb sh') = None"
proof -
  have n: "unat (word_of_nat (length b) :: u32) = length b" by (rule unat_of_nat_u32 [OF assms(6)])
  let ?s = "s\<lparr>recv_window := saturating_sub (recv_window s) (word_of_nat (length b))\<rparr>"
  have "recv \<lparr>stream_id = sid, command = Data, body = b\<rparr> (conn_state c) =
      (Ok (EvData sid b), set_stream sid ?s (conn_state c))"
    using assms(1,2,6) n by (simp add: recv_def recv_Data_def Let_def word_less_nat_alt)
  then have c': "c' = on_data sid b (c\<lparr>conn_state := set_stream sid ?s (conn_state c)\<rparr>)"
    by (simp add: assms(7) handle_frame_def Let_def)
  have sh': "hm_get (store c') a = Some (deliver b sh)"
    "conn_state c' = set_stream sid ?s (conn_state c)"
    "woken c' = woken c @ (case read_waker (sh_inb sh) of None \<Rightarrow> [] | Some t \<Rightarrow> [t])"
    using assms(3,4) by (simp_all add: c' on_data_def)
  then have "receive_total sid a c' = receive_total sid a c"
    using assms(1,4,6) n by (simp add: receive_total_def hm_simps unat_saturating_sub deliver_def)
  with sh' deliver_pending [OF assms(5), of b] show ?thesis by (auto simp: deliver_def)
qed

section \<open>Faulting handles\<close>

lemma fail_shared_simps [simp]:
  "conn_state (fail_shared k code a c) = conn_state c" "routes (fail_shared k code a c) = routes c"
  "open_waiters (fail_shared k code a c) = open_waiters c" "conn_closed (fail_shared k code a c) = conn_closed c"
  "next_addr (fail_shared k code a c) = next_addr c" "resolved (fail_shared k code a c) = resolved c"
  "conn_policy (fail_shared k code a c) = conn_policy c"
  "acceptor_alive (fail_shared k code a c) = acceptor_alive c"
  by (simp_all add: fail_shared_def Let_def split: option.splits)

definition wakers :: "StreamShared \<Rightarrow> nat set" where
  "wakers sh = set_option (read_waker (sh_inb sh)) \<union> set_option (write_waker (sh_out sh)) \<union>
     set_option (shutdown_waker (sh_out sh))"

text \<open>A failed handle: writes error, reads return an error or the end of file, nobody is parked.\<close>

definition failed :: "StreamShared \<Rightarrow> bool" where
  "failed sh = (ob_closed (sh_out sh) \<and> (inb_reset (sh_inb sh) \<noteq> None \<or> eof (sh_inb sh)) \<and> wakers sh = {})"

lemma fail_shared_get:
  "hm_get (store (fail_shared k code a c)) b =
     (if b = a then map_option (fail_handle k code) (hm_get (store c) a) else hm_get (store c) b)"
  by (auto simp: fail_shared_def hm_simps split: option.splits)

lemma fail_handle_failed: "failed (fail_handle k code sh)"
  by (auto simp: fail_handle_def failed_def wakers_def Let_def)

lemma fail_shared_failed:
  "hm_get (store c) a = Some sh \<Longrightarrow>
     \<exists>sh'. hm_get (store (fail_shared k code a c)) a = Some sh' \<and> failed sh'"
  by (simp add: fail_shared_get fail_handle_failed)

lemma fail_shared_keeps_failed:
  "hm_get (store c) b = Some sh \<Longrightarrow> failed sh \<Longrightarrow>
     \<exists>sh'. hm_get (store (fail_shared k code a c)) b = Some sh' \<and> failed sh'"
  by (cases "b = a") (simp_all add: fail_shared_get fail_handle_failed)

lemma fail_shared_woken:
  "set (woken (fail_shared k code a c)) =
     set (woken c) \<union> (case hm_get (store c) a of None \<Rightarrow> {} | Some sh \<Rightarrow> wakers sh)"
  by (auto simp: fail_shared_def Let_def wakers_def split: option.splits)

lemma fault_stream_routed:
  assumes "hm_get (routes c) sid = Some a" "hm_get (store c) a = Some sh" "c' = fault_stream sid code c"
  shows "hm_get (routes c') sid = None \<and> (\<exists>sh'. hm_get (store c') a = Some sh' \<and> failed sh') \<and>
    wakers sh \<subseteq> set (woken c')"
  using assms fail_shared_failed [of "c\<lparr>routes := hm_remove sid (routes c)\<rparr>" a sh False code]
    fail_shared_woken [of False code a "c\<lparr>routes := hm_remove sid (routes c)\<rparr>"]
  by (simp add: fault_stream_def hm_simps)

text \<open>
  A peer that sends more than its window loses the stream, and the local handle learns it: the
  stream leaves the state table and the routing map, a \<open>Reset\<close> is queued, the handle fails, and
  every task parked on it is woken.
\<close>

lemma oversend_faults_handle:
  assumes "hm_get (streams (conn_state c)) sid = Some s" "state s = Open \<or> state s = HalfClosedLocal"
    and "hm_get (routes c) sid = Some a" "hm_get (store c) a = Some sh" "sid \<noteq> 0"
    and "recv_window s < word_of_nat (length b)"
    and "length (outbound (conn_state c)) < max_pending_outbound (policy (conn_state c))"
    and "c' = handle_frame \<lparr>stream_id = sid, command = Data, body = b\<rparr> c"
  shows "stream_state (conn_state c') sid = None \<and> hm_get (routes c') sid = None \<and>
    outbound (conn_state c') = outbound (conn_state c) @ [reset_frame sid 0x03] \<and>
    (\<exists>sh'. hm_get (store c') a = Some sh' \<and> failed sh') \<and> wakers sh \<subseteq> set (woken c')"
proof -
  let ?st = "close_stream sid (conn_state c\<lparr>outbound := outbound (conn_state c) @ [reset_frame sid 0x03]\<rparr>)"
  have "state s \<noteq> Closed" using assms(2) by auto
  then have gone: "stream_state ?st sid = None"
    using assms(1) by (simp add: stream_state_def close_stream_some hm_simps)
  have "recv \<lparr>stream_id = sid, command = Data, body = b\<rparr> (conn_state c) = (Err (BadState sid Closed), ?st)"
    using assms(1,2,5-7)
    by (auto simp: recv_def recv_Data_def Let_def queue_frame_room mux_consts reset_frame_def)
  then have c': "c' = fault_stream sid 0xFF (c\<lparr>conn_state := ?st\<rparr>)"
    using gone by (simp add: assms(8) handle_frame_def Let_def)
  moreover have "conn_state c' = ?st"
    using assms(3) by (simp add: c' fault_stream_def)
  ultimately show ?thesis
    using gone fault_stream_routed [OF _ _ c', of a sh] assms(3,4) by simp
qed

lemma fold_fail_failed:
  "(k :: u32, a) \<in> set rs \<Longrightarrow> hm_get (store c) a = Some sh \<Longrightarrow>
     (\<exists>sh'. hm_get (store (fold (\<lambda>(_, a). fail_shared e code a) rs c)) a = Some sh' \<and> failed sh') \<and>
     wakers sh \<subseteq> set (woken (fold (\<lambda>(_, a). fail_shared e code a) rs c))"
proof -
  have keep: "hm_get (store c) b = Some sh \<Longrightarrow> failed sh \<Longrightarrow>
      \<exists>sh'. hm_get (store (fold (\<lambda>(_, a). fail_shared e code a) rs c)) b = Some sh' \<and> failed sh'"
    for b c sh and rs :: "(u32 \<times> nat) list"
  proof (induction rs arbitrary: c sh)
    case (Cons r rs)
    obtain sh1 where "hm_get (store (fail_shared e code (snd r) c)) b = Some sh1" "failed sh1"
      using fail_shared_keeps_failed [OF Cons.prems] by blast
    from Cons.IH [OF this] show ?case by (simp add: split_beta)
  qed simp
  have mono: "set (woken c) \<subseteq> set (woken (fold (\<lambda>(_, a). fail_shared e code a) rs c))"
    for rs :: "(u32 \<times> nat) list" and c
  proof (induction rs arbitrary: c)
    case (Cons r rs)
    then show ?case using fail_shared_woken [of e code "snd r" c] by (cases r) fastforce
  qed simp
  show "(k, a) \<in> set rs \<Longrightarrow> hm_get (store c) a = Some sh \<Longrightarrow> ?thesis"
  proof (induction rs arbitrary: c)
    case (Cons r rs)
    show ?case
    proof (cases "snd r = a")
      case True
      then obtain sh' where "hm_get (store (fail_shared e code a c)) a = Some sh'" "failed sh'"
        using fail_shared_failed Cons.prems(2) by blast
      from keep [OF this, of rs] mono [of "fail_shared e code a c" rs] True Cons.prems(2)
      show ?thesis by (auto simp: fail_shared_woken split: prod.splits)
    next
      case False
      with Cons.prems have "(k, a) \<in> set rs" "hm_get (store (fail_shared e code (snd r) c)) a = Some sh"
        by (auto simp: fail_shared_get)
      from Cons.IH [OF this] show ?thesis by (simp add: split_beta)
    qed
  qed simp
qed

lemma fold_fail_simps:
  "routes (fold (\<lambda>(_, a). fail_shared e code a) rs c) = routes c"
  "open_waiters (fold (\<lambda>(_, a). fail_shared e code a) rs c) = open_waiters c"
  "resolved (fold (\<lambda>(_, a). fail_shared e code a) rs c) = resolved c"
  "conn_state (fold (\<lambda>(_, a). fail_shared e code a) rs c) = conn_state c"
  "next_addr (fold (\<lambda>(_, a). fail_shared e code a) rs c) = next_addr c"
  by (induction rs arbitrary: c) (auto split: prod.splits)

lemma hm_get_in: "hm_get m k = Some v \<Longrightarrow> (k, v) \<in> set m"
  by (simp add: hm_get_def map_of_SomeD)

text \<open>
  Teardown leaves nobody waiting: closing an open connection fails the handle of every routed
  stream, wakes every task parked on one, and resolves every pending \<open>open\<close>.
\<close>

lemma close_connection_releases_all:
  assumes "\<not> conn_closed c" and "c' = close_connection c"
  shows "(\<forall>sid a sh. hm_get (routes c) sid = Some a \<longrightarrow> hm_get (store c) a = Some sh \<longrightarrow>
      (\<exists>sh'. hm_get (store c') a = Some sh' \<and> failed sh') \<and> wakers sh \<subseteq> set (woken c')) \<and>
    (\<forall>sid w. hm_get (open_waiters c) sid = Some w \<longrightarrow> (w, SenderDropped) \<in> set (resolved c')) \<and>
    routes c' = [] \<and> open_waiters c' = [] \<and> writer_wake c' \<and> \<not> reader_running c'"
proof -
  let ?c1 = "c\<lparr>conn_closed := True, routes := []\<rparr>"
  let ?c2 = "fold (\<lambda>(_, a). fail_shared True 0xFF a) (routes c) ?c1"
  have c': "c' = (notify_writer (?c2\<lparr>resolved := resolved ?c2 @ map (\<lambda>(_, w). (w, SenderDropped)) (open_waiters ?c2),
      open_waiters := []\<rparr>))\<lparr>reader_running := False\<rparr>"
    using assms by (simp add: close_connection_def Let_def)
  have "(\<exists>sh'. hm_get (store c') a = Some sh' \<and> failed sh') \<and> wakers sh \<subseteq> set (woken c')"
    if "hm_get (routes c) sid = Some a" "hm_get (store c) a = Some sh" for sid a sh
    using fold_fail_failed [OF hm_get_in [OF that(1)], of ?c1 sh True "0xFF"] that(2) by (simp add: c')
  moreover have "(w, SenderDropped) \<in> set (resolved c')" if "hm_get (open_waiters c) sid = Some w" for sid w
    using hm_get_in [OF that] by (force simp: c' fold_fail_simps)
  moreover have "routes c' = []" "open_waiters c' = []" "writer_wake c'" "\<not> reader_running c'"
    by (simp_all add: c' fold_fail_simps notify_writer_def)
  ultimately show ?thesis by blast
qed

section \<open>Writing\<close>

definition writable :: "MuxState \<Rightarrow> u32 \<Rightarrow> bool" where
  "writable st sid = (stream_state st sid = Some Open \<or> stream_state st sid = Some HalfClosedRemote)"

definition credit_of :: "MuxState \<Rightarrow> u32 \<Rightarrow> nat" where
  "credit_of st sid = (case hm_get (streams st) sid of None \<Rightarrow> 0 | Some s \<Rightarrow> unat (send_credit s))"

definition queue_full :: "MuxState \<Rightarrow> bool" where
  "queue_full st = (max_pending_outbound (policy st) \<le> length (outbound st))"

text \<open>What one call of \<open>send_data\<close> on a nonempty buffer does.\<close>

lemma send_data_cases:
  assumes "buf \<noteq> []" "sid \<noteq> 0"
  obtains (stuck) r st' where "send_data sid buf st = (r, st')" "st' = st" "r = Ok 0 \<or> (\<exists>e. r = Err e)"
      "\<not> writable st sid \<or> credit_of st sid = 0 \<or> queue_full st"
  | (sent) n st' where "send_data sid buf st = (Ok n, st')" "0 < n" "n \<le> length buf" "n \<le> MAX_MUX_FRAME_BODY"
      "outbound st' = outbound st @ [\<lparr>stream_id = sid, command = Data, body = take n buf\<rparr>]"
      "credit_of st' sid = credit_of st sid - n" "n \<le> credit_of st sid"
      "stream_state st' sid = stream_state st sid" "policy st' = policy st"
proof (cases "hm_get (streams st) sid")
  case None
  then show thesis using stuck by (simp add: send_data_def writable_def stream_state_def)
next
  case (Some s)
  define n where "n = min (min MAX_MUX_FRAME_BODY (unat (send_credit s))) (length buf)"
  consider "\<not> writable st sid" | "writable st sid" "send_credit s = 0"
    | "writable st sid" "send_credit s \<noteq> 0" "queue_full st" | "writable st sid" "send_credit s \<noteq> 0" "\<not> queue_full st"
    by blast
  then show thesis
  proof cases
    case 1
    then show ?thesis
      using stuck Some by (simp add: send_data_def writable_def stream_state_def)
  next
    case 2
    then show ?thesis
      using stuck Some by (simp add: send_data_def writable_def stream_state_def credit_of_def)
  next
    case 3
    then have "n \<noteq> 0" using assms(1) by (simp add: n_def mux_consts unat_gt_0)
    moreover have "length (take n buf) \<le> MAX_MUX_FRAME_BODY" by (simp add: n_def)
    ultimately show ?thesis
      using 3 stuck Some assms(2) queue_frame_full [of sid "take n buf" st Data]
      by (simp add: send_data_def writable_def stream_state_def queue_full_def Let_def flip: n_def)
  next
    case 4
    then have "0 < n" using assms(1) by (simp add: n_def mux_consts unat_gt_0)
    have "state s = Open \<or> state s = HalfClosedRemote" "length (outbound st) < max_pending_outbound (policy st)"
      using 4 Some by (auto simp: writable_def stream_state_def queue_full_def)
    from send_data_effect [OF Some this(1) assms(2) this(2) n_def]
    obtain st' s' where "send_data sid buf st = (Ok n, st')"
      "outbound st' = outbound st @ [\<lparr>stream_id = sid, command = Data, body = take n buf\<rparr>]"
      "hm_get (streams st') sid = Some s'" "unat (send_credit s') = unat (send_credit s) - n"
      "s' = s\<lparr>send_credit := send_credit s'\<rparr>" "policy st' = policy st"
      using \<open>0 < n\<close> by auto
    moreover have "state s' = state s" using arg_cong [OF calculation(5), of state] by simp
    ultimately show ?thesis
      using sent [of n st'] \<open>0 < n\<close> Some by (auto simp: credit_of_def stream_state_def n_def)
  qed
qed

definition data_frame :: "u32 \<Rightarrow> bytes \<Rightarrow> MuxFrame" where
  "data_frame sid p = \<lparr>stream_id = sid, command = Data, body = p\<rparr>"

lemma flush_staged_effect:
  assumes "sid \<noteq> 0" "flush_staged sid buf st = (rest, st')"
  shows "\<exists>ps. outbound st' = outbound st @ map (data_frame sid) ps \<and> concat ps @ rest = buf \<and>
    (\<forall>p \<in> set ps. p \<noteq> [] \<and> length p \<le> MAX_MUX_FRAME_BODY) \<and>
    credit_of st' sid + length (concat ps) = credit_of st sid \<and>
    stream_state st' sid = stream_state st sid \<and>
    (rest = [] \<or> \<not> writable st' sid \<or> credit_of st' sid = 0 \<or> queue_full st')"
  using assms
proof (induction sid buf st arbitrary: rest st' rule: flush_staged.induct)
  case (1 sid buf st)
  show ?case
  proof (cases "buf = []")
    case True
    with 1(3) show ?thesis by (intro exI [of _ "[]"]) (simp add: flush_staged.simps)
  next
    case False
    show ?thesis
    proof (rule send_data_cases [OF False 1(2), of st], goal_cases stuck sent)
      case (stuck r st1)
      with 1(3) False have "rest = buf" "st' = st"
        by (auto simp: flush_staged.simps [of sid buf] split: if_splits)
      with stuck(4) show ?thesis by (intro exI [of _ "[]"]) simp
    next
      case (sent n st1)
      then have "flush_staged sid (drop n buf) st1 = (rest, st')"
        using 1(3) False by (simp add: flush_staged.simps [of sid buf])
      from 1(1) [OF False sent(1) [symmetric] refl _ 1(2) this] sent(2) obtain ps where
        ps: "outbound st' = outbound st1 @ map (data_frame sid) ps" "concat ps @ rest = drop n buf"
        "\<forall>p \<in> set ps. p \<noteq> [] \<and> length p \<le> MAX_MUX_FRAME_BODY"
        "credit_of st' sid + length (concat ps) = credit_of st1 sid"
        "stream_state st' sid = stream_state st1 sid"
        "rest = [] \<or> \<not> writable st' sid \<or> credit_of st' sid = 0 \<or> queue_full st'"
        by auto
      have "concat (take n buf # ps) @ rest = buf" using ps(2) by simp
      with ps sent show ?thesis
        by (intro exI [of _ "take n buf # ps"]) (auto simp: data_frame_def)
    qed
  qed
qed

text \<open>
  A drain pass sends the staged bytes of a stream in order and as far as possible: it queues
  nonempty frames that together with what stays staged are exactly the staged bytes, pays for
  them with credit, and leaves bytes behind only when the stream is not writable, its credit is
  used up, or the outbound queue is full.
\<close>

lemma flush_staged_fifo:
  assumes "sid \<noteq> 0" "flush_staged sid buf st = (rest, st')"
  shows "\<exists>ps. outbound st' = outbound st @ map (data_frame sid) ps \<and> concat ps @ rest = buf \<and>
    (\<forall>p \<in> set ps. p \<noteq> [] \<and> length p \<le> MAX_MUX_FRAME_BODY) \<and>
    credit_of st' sid + length (concat ps) = credit_of st sid \<and>
    (rest = [] \<or> \<not> writable st' sid \<or> credit_of st' sid = 0 \<or> queue_full st')"
  using flush_staged_effect [OF assms] by blast

text \<open>
  A half-close can get lost: when the staging buffer is flushed but the outbound queue is full,
  the drain pass marks the end of the stream as sent and completes the shutdown, although no
  \<open>EndLocal\<close> was queued and the stream is still open for writing; no later pass queues it.
\<close>

lemma half_close_lost:
  assumes "hm_get (store c) a = Some sh" "ob_buf (sh_out sh) = []" "ending (sh_out sh)"
    and "hm_get (streams (conn_state c)) (sh_id sh) = Some s" "state s = Open" "queue_full (conn_state c)"
  shows "\<exists>sh'. hm_get (store (drain_stream a c)) a = Some sh' \<and> ended_sent (sh_out sh') \<and>
    ob_buf (sh_out sh') = [] \<and> shutdown_waker (sh_out sh') = None \<and>
    conn_state (drain_stream a c) = conn_state c \<and>
    (\<forall>c'. hm_get (store c') a = Some sh' \<longrightarrow> conn_state (drain_stream a c') = conn_state c')"
proof -
  have full: "snd (end_local (sh_id sh) (conn_state c)) = conn_state c"
    by (rule queue_frame_cases [of "sh_id sh" EndLocal "[]" "conn_state c"])
      (use assms(4-6) in \<open>auto simp: end_local_def queue_full_def\<close>)
  let ?sh = "sh\<lparr>sh_out := (sh_out sh)\<lparr>ended_sent := True, shutdown_waker := None,
    write_waker := (if 0 < unat (window sh) then None else write_waker (sh_out sh))\<rparr>\<rparr>"
  have "hm_get (store (drain_stream a c)) a = Some ?sh" "conn_state (drain_stream a c) = conn_state c"
    using assms(1-3) full by (auto simp: drain_stream_def flush_staged.simps Let_def hm_simps)
  moreover have "conn_state (drain_stream a c') = conn_state c'" if "hm_get (store c') a = Some ?sh" for c'
    using that assms(2) by (simp add: drain_stream_def flush_staged.simps Let_def)
  ultimately show ?thesis using assms(2) by (intro exI [of _ ?sh]) simp
qed

section \<open>Routing invariant\<close>

text \<open>An operation on one stream leaves every other stream of the table alone.\<close>

definition others_kept :: "u32 \<Rightarrow> MuxState \<Rightarrow> MuxState \<Rightarrow> bool" where
  "others_kept sid st st' = (\<forall>t. t \<noteq> sid \<longrightarrow> hm_get (streams st') t = hm_get (streams st) t)"

definition live :: "MuxState \<Rightarrow> u32 \<Rightarrow> bool" where
  "live st sid = (stream_state st sid \<noteq> None)"

lemma live_def': "live st sid = (hm_get (streams st) sid \<noteq> None)"
  by (simp add: live_def stream_state_def)

lemma others_refl [simp]: "others_kept sid st st"
  by (simp add: others_kept_def)

lemma others_set [simp]:
  "others_kept sid st (set_stream sid s st)" "others_kept sid st (st\<lparr>outbound := out\<rparr>)"
  "others_kept sid st ((set_stream sid s st)\<lparr>outbound := out\<rparr>)"
  by (simp_all add: others_kept_def hm_simps)

lemma others_close [simp]:
  "others_kept sid st (close_stream sid st)" "others_kept sid st ((close_stream sid st)\<lparr>outbound := out\<rparr>)"
  by (simp_all add: others_kept_def close_stream_def hm_simps Let_def split: option.splits)

lemma live_simps [simp]:
  "live (set_stream sid s st) t = (t = sid \<or> live st t)" "live (st\<lparr>outbound := out\<rparr>) = live st"
  "live (st\<lparr>open_count := n\<rparr>) = live st" "live (st\<lparr>id_allocator := a\<rparr>) = live st"
  by (auto simp: live_def' hm_simps fun_eq_iff)

lemma live_Some [simp]: "hm_get (streams st) sid = Some s \<Longrightarrow> live st sid"
  by (simp add: live_def')

lemma accept_live: "live (snd (accept sid st)) t = live st t"
  by (rule queue_frame_cases [of sid BeginOk "[]" "set_stream sid ((the (hm_get (streams st) sid))
        \<lparr>pending_target := None, state := Open\<rparr>) st"])
    (auto simp: accept_def Let_def split: option.splits)

lemma grant_credit_live: "live (snd (grant_credit sid d st)) t = live st t"
  by (rule queue_frame_cases [of sid WindowUpdate "to_be d" st])
    (auto simp: grant_credit_def split: option.splits)

lemma send_data_live: "live (snd (send_data sid b st)) t = live st t"
  by (rule queue_frame_cases [of sid Data "take (min (min MAX_MUX_FRAME_BODY
        (unat (send_credit (the (hm_get (streams st) sid))))) (length b)) b" st])
    (auto simp: send_data_def Let_def split: option.splits)

lemma reset_others: "others_kept sid st (snd (reset sid c st))"
  by (rule queue_frame_cases [of sid Reset "[c]" st]) (auto simp: reset_def)

lemma reject_others: "others_kept sid st (snd (reject sid st))"
  by (rule queue_frame_cases [of sid Reset "[0x01]" st])
    (auto simp: reject_def split: option.splits)

lemma open_local_live:
  "open_local t st = (r, st') \<Longrightarrow> (live st u \<longrightarrow> live st' u) \<and> (\<forall>sid. r = Ok sid \<longrightarrow> live st' sid)"
  by (cases "fst (StreamIdAllocator_next (id_allocator st))"; cases "MuxTarget_encode t";
      rule queue_frame_cases [of "the (fst (StreamIdAllocator_next (id_allocator st)))" Begin
        "projr (MuxTarget_encode t)" "st\<lparr>id_allocator := snd (StreamIdAllocator_next (id_allocator st))\<rparr>"])
    (auto simp: open_local_def Let_def split: if_splits prod.splits option.splits)

lemma recv_others: "others_kept (stream_id f) st (snd (recv f st))"
  by (rule queue_frame_cases [of "stream_id f" Reset "[0x03]" st];
      rule queue_frame_cases [of "stream_id f" Reset "[0x02]" st]; cases "command f")
    (auto simp: recv_def recv_Begin_def recv_BeginOk_def recv_Data_def recv_WindowUpdate_def
      recv_EndLocal_def recv_Reset_def Let_def others_kept_def hm_simps close_stream_def
      split: option.splits sum.splits)

lemma recv_live:
  assumes "recv f st = (Ok ev, st')"
  shows "(case ev of EvPeerEndLocal sid \<Rightarrow> sid = stream_id f | EvReset sid _ \<Rightarrow> sid = stream_id f
      | EvIncoming sid _ \<Rightarrow> sid = stream_id f \<and> live st' sid
      | EvEstablished sid \<Rightarrow> sid = stream_id f \<and> live st' sid
      | EvData sid _ \<Rightarrow> sid = stream_id f \<and> live st' sid
      | EvWindowUpdate sid _ \<Rightarrow> sid = stream_id f \<and> live st' sid)"
  by (insert assms, rule queue_frame_cases [of "stream_id f" Reset "[0x03]" st];
      rule queue_frame_cases [of "stream_id f" Reset "[0x02]" st]; cases "command f")
    (auto simp: recv_def recv_Begin_def recv_BeginOk_def recv_Data_def recv_WindowUpdate_def
      recv_EndLocal_def recv_Reset_def Let_def
      split: option.splits sum.splits if_splits)

lemma flush_staged_live: "flush_staged sid buf st = (rest, st') \<Longrightarrow> live st' t = live st t"
proof (induction sid buf st arbitrary: rest st' rule: flush_staged.induct)
  case (1 sid buf st)
  show ?case
  proof (cases "buf = []")
    case True
    with 1(2) show ?thesis by (simp add: flush_staged.simps)
  next
    case False
    obtain r st1 where r: "send_data sid buf st = (r, st1)" by (cases "send_data sid buf st")
    then have l: "live st1 t = live st t" using send_data_live [of sid buf st t] by simp
    show ?thesis
    proof (cases "\<exists>n. r = Ok n \<and> n \<noteq> 0")
      case True
      then obtain n where "r = Ok n" "n \<noteq> 0" by auto
      with 1(1) [OF False r [symmetric] this] 1(2) r False l show ?thesis
        by (simp add: flush_staged.simps [of sid buf])
    next
      case other: False
      with 1(2) r False have "st' = st1"
        by (auto simp: flush_staged.simps [of sid buf] split: sum.splits if_splits)
      with l show ?thesis by simp
    qed
  qed
qed

text \<open>
  Every routed stream is live in the state machine, and its route leads to a handle with its id.
\<close>

definition routed :: "MuxState \<Rightarrow> (u32, nat) hashmap \<Rightarrow> (nat, StreamShared) hashmap \<Rightarrow> bool" where
  "routed st rs sto =
     (\<forall>sid a. hm_get rs sid = Some a \<longrightarrow> live st sid \<and> (\<exists>sh. hm_get sto a = Some sh \<and> sh_id sh = sid))"

definition same_ids :: "(nat, StreamShared) hashmap \<Rightarrow> (nat, StreamShared) hashmap \<Rightarrow> bool" where
  "same_ids sto sto' =
     (\<forall>a. map_option sh_id (hm_get sto' a) = map_option sh_id (hm_get sto a))"

definition conn_inv :: "ConnInner \<Rightarrow> bool" where
  "conn_inv c =
     (mux_inv (conn_state c) \<and> hm_wf (routes c) \<and> routed (conn_state c) (routes c) (store c) \<and>
      (\<forall>a sh. hm_get (store c) a = Some sh \<longrightarrow> a < next_addr c))"

lemma same_ids_refl [simp]: "same_ids sto sto"
  by (simp add: same_ids_def)

lemma same_ids_trans: "same_ids x y \<Longrightarrow> same_ids y z \<Longrightarrow> same_ids x z"
  by (simp add: same_ids_def)

lemma same_ids_insert:
  "hm_get sto a = Some sh \<Longrightarrow> sh_id sh' = sh_id sh \<Longrightarrow> same_ids sto (hm_insert a sh' sto)"
  by (simp add: same_ids_def hm_simps)

lemma same_ids_upd: "(\<And>sh. sh_id (f sh) = sh_id sh) \<Longrightarrow> same_ids (store c) (store (upd_shared a f c))"
  by (auto simp: same_ids_def option.map_comp comp_def)

lemma same_ids_fail: "same_ids (store c) (store (fail_shared k code a c))"
  by (auto simp: same_ids_def fail_shared_get option.map_comp comp_def fail_handle_def Let_def)

lemma routed_same_ids: "routed st rs sto \<Longrightarrow> same_ids sto sto' \<Longrightarrow> routed st rs sto'"
  unfolding routed_def same_ids_def by (metis (no_types, lifting) map_option_eq_Some)

lemma routed_live: "routed st rs sto \<Longrightarrow> (\<And>t. live st t \<Longrightarrow> live st' t) \<Longrightarrow> routed st' rs sto"
  by (auto simp: routed_def)

lemma routed_remove: "routed st rs sto \<Longrightarrow> others_kept sid st st' \<Longrightarrow> routed st' (hm_remove sid rs) sto"
  by (auto simp: routed_def others_kept_def live_def' hm_simps)

lemma routed_kept: "routed st rs sto \<Longrightarrow> others_kept sid st st' \<Longrightarrow> live st' sid \<Longrightarrow> routed st' rs sto"
  by (auto simp: routed_def others_kept_def live_def')

lemma conn_inv_store:
  assumes "conn_inv c" "same_ids (store c) (store c')" "conn_state c' = conn_state c"
    and "routes c' = routes c" "next_addr c' = next_addr c"
  shows "conn_inv c'"
proof -
  have "a < next_addr c" if "hm_get (store c') a = Some sh" for a sh
    using that assms(1,2) unfolding conn_inv_def same_ids_def
    by (metis (no_types, lifting) map_option_eq_Some)
  with assms routed_same_ids show ?thesis by (auto simp: conn_inv_def)
qed

lemma conn_inv_notify [simp]: "conn_inv (notify_writer c) = conn_inv c"
  by (simp add: conn_inv_def)

lemma conn_inv_wake [simp]: "conn_inv (wake w c) = conn_inv c"
  by (simp add: conn_inv_def)

lemma conn_inv_state:
  assumes "conn_inv c" "mux_step b (conn_state c) st" "\<And>t. live st t = live (conn_state c) t"
  shows "conn_inv (c\<lparr>conn_state := st\<rparr>)"
  using assms mux_inv_step [OF assms(2)] routed_live [of "conn_state c" "routes c" "store c" st]
  by (simp add: conn_inv_def)

lemma conn_inv_fail: "conn_inv c \<Longrightarrow> conn_inv (fail_shared k code a c)"
  by (rule conn_inv_store) (simp_all add: same_ids_fail)

text \<open>The steps that retire the stream \<open>sid\<close> drop its route as well.\<close>

lemma conn_inv_retire:
  assumes "conn_inv c" "mux_inv st" "others_kept sid (conn_state c) st"
  shows "conn_inv (c\<lparr>conn_state := st, routes := hm_remove sid (routes c)\<rparr>)"
  using assms routed_remove [of "conn_state c" "routes c" "store c" sid st]
  by (simp add: conn_inv_def hm_simps)

lemma others_trans: "others_kept sid x y \<Longrightarrow> others_kept sid y z \<Longrightarrow> others_kept sid x z"
  by (simp add: others_kept_def)

section \<open>The driver's steps\<close>

lemma conn_inv_new: "conn_inv (MuxConnection_new r p)"
  by (simp add: conn_inv_def MuxConnection_new_def mux_inv_new routed_def)

lemma conn_inv_accept: "conn_inv c \<Longrightarrow> conn_inv (IncomingStream_accept a c)"
  by (auto simp: IncomingStream_accept_def accept_live accept_step split: option.splits
      intro: conn_inv_state [OF _ accept_step])

lemma conn_inv_mux: "conn_inv c \<Longrightarrow> mux_inv (conn_state c)"
  by (simp add: conn_inv_def)

lemma conn_inv_reject: "conn_inv c \<Longrightarrow> conn_inv (IncomingStream_reject a code c)"
  by (auto simp: IncomingStream_reject_def split: option.splits
      intro!: conn_inv_retire mux_inv_step [OF reset_step] conn_inv_mux reset_others)

lemma conn_inv_drop_incoming:
  assumes "conn_inv c"
  shows "conn_inv (IncomingStream_drop a c)"
proof (cases "hm_get (store c) a")
  case (Some sh)
  obtain r st1 where r: "reject (sh_id sh) (conn_state c) = (r, st1)" by (cases "reject (sh_id sh) (conn_state c)")
  have st1: "mux_inv st1" "others_kept (sh_id sh) (conn_state c) st1"
    using mux_inv_step [OF reject_step, of "conn_state c" "sh_id sh"] reject_others [of "sh_id sh" "conn_state c"]
      conn_inv_mux [OF assms] r by simp_all
  let ?st2 = "snd (reset (sh_id sh) 0x01 st1)"
  have "mux_inv ?st2" "others_kept (sh_id sh) (conn_state c) ?st2"
    using mux_inv_step [OF reset_step st1(1)] others_trans [OF st1(2) reset_others] by simp_all
  with assms st1 Some r show ?thesis
    by (cases r) (simp_all add: IncomingStream_drop_def conn_inv_retire)
qed (simp add: IncomingStream_drop_def assms)

lemma conn_upd_commute: "c\<lparr>routes := r, conn_state := st\<rparr> = (c :: ConnInner)\<lparr>conn_state := st, routes := r\<rparr>"
  by simp

lemma conn_inv_drop_stream: "conn_inv c \<Longrightarrow> conn_inv (MuxStream_drop sid c)"
  using conn_inv_retire [of c "conn_state c" sid]
    conn_inv_retire [of c "snd (reset sid 0x00 (conn_state c))" sid]
  by (auto simp: MuxStream_drop_def Let_def conn_upd_commute reset_others conn_inv_mux mux_inv_step [OF reset_step]
      split: option.splits)

lemma conn_inv_fault: "conn_inv c \<Longrightarrow> conn_inv (fault_stream sid code c)"
  using conn_inv_retire [of c "conn_state c" sid]
  by (auto simp: fault_stream_def conn_inv_mux split: option.splits intro: conn_inv_fail)

lemma conn_inv_close: "conn_inv c \<Longrightarrow> conn_inv (close_connection c)"
proof -
  assume c: "conn_inv c"
  have "conn_inv (fold (\<lambda>(_, a). fail_shared True 0xFF a) rs c1)" if "conn_inv c1" for c1 and rs :: "(u32 \<times> nat) list"
    using that by (induction rs arbitrary: c1) (auto intro: conn_inv_fail split: prod.splits)
  moreover have "conn_inv (c\<lparr>conn_closed := True, routes := []\<rparr>)"
    using c by (simp add: conn_inv_def routed_def)
  ultimately have "conn_inv (fold (\<lambda>(_, a). fail_shared True 0xFF a) (routes c) (c\<lparr>conn_closed := True, routes := []\<rparr>))"
    by blast
  with c show ?thesis by (simp add: close_connection_def Let_def conn_inv_def notify_writer_def)
qed

lemma conn_inv_alloc:
  assumes "conn_inv c" "alloc_shared sh c = (a, c1)"
  shows "conn_inv c1 \<and> hm_get (store c1) a = Some sh \<and> conn_state c1 = conn_state c \<and> routes c1 = routes c"
proof -
  have fresh: "hm_get (store c) (next_addr c) = None"
    using assms(1) unfolding conn_inv_def by (metis nat_neq_iff not_None_eq)
  have c1: "a = next_addr c" "c1 = c\<lparr>store := hm_insert (next_addr c) sh (store c), next_addr := Suc (next_addr c)\<rparr>"
    using assms(2) by (auto simp: alloc_shared_def)
  have "routed (conn_state c) (routes c) (hm_insert (next_addr c) sh (store c))"
    using assms(1) fresh by (auto simp: conn_inv_def routed_def hm_simps)
  with assms(1) show ?thesis by (auto simp: c1 conn_inv_def hm_simps less_Suc_eq)
qed

lemma conn_inv_route:
  assumes "conn_inv c" "hm_get (store c) a = Some sh" "sh_id sh = sid" "live (conn_state c) sid"
  shows "conn_inv (c\<lparr>routes := hm_insert sid a (routes c)\<rparr>)"
  using assms by (auto simp: conn_inv_def routed_def hm_simps)

lemma conn_inv_open:
  assumes "conn_inv c"
  shows "conn_inv (snd (open_register t c))"
proof -
  obtain r st where r: "open_local t (conn_state c) = (r, st)" by (cases "open_local t (conn_state c)")
  note live = open_local_live [OF r]
  have "mux_inv st" using mux_inv_step [OF open_local_step conn_inv_mux [OF assms], of t] r by simp
  then have st: "conn_inv (c\<lparr>conn_state := st\<rparr>)"
    using assms live routed_live [of "conn_state c" "routes c" "store c" st] by (simp add: conn_inv_def)
  show ?thesis
  proof (cases r)
    case (Inl e)
    with r st show ?thesis by (simp add: open_register_def)
  next
    case (Inr sid)
    obtain a c1 where a: "alloc_shared (StreamShared_new sid (initial_window (conn_policy c))) (c\<lparr>conn_state := st\<rparr>) = (a, c1)"
      by (cases "alloc_shared (StreamShared_new sid (initial_window (conn_policy c))) (c\<lparr>conn_state := st\<rparr>)")
    note c1 = conn_inv_alloc [OF st a]
    have "conn_inv (c1\<lparr>routes := hm_insert sid a (routes c1)\<rparr>)"
      using c1 live Inr by (intro conn_inv_route) (auto simp: StreamShared_new_def)
    then show ?thesis using r Inr a by (auto simp: open_register_def Let_def conn_inv_def less_Suc_eq)
  qed
qed

lemma conn_inv_recheck: "conn_inv c \<Longrightarrow> conn_inv (snd (open_recheck h c))"
  using conn_inv_retire [of c "conn_state c" "fst h"]
  by (cases h) (auto simp: open_recheck_def conn_inv_def)

lemma conn_inv_read: "conn_inv c \<Longrightarrow> conn_inv (snd (poll_read t a room c))"
proof -
  assume c: "conn_inv c"
  have upd: "conn_inv (c\<lparr>store := hm_insert a (sh\<lparr>sh_inb := inb\<rparr>) (store c)\<rparr>)" if "hm_get (store c) a = Some sh" for sh inb
    using c by (rule conn_inv_store) (simp_all add: same_ids_insert [OF that])
  have grant: "conn_inv (c1\<lparr>conn_state := snd (grant_credit sid g (conn_state c1))\<rparr>)" if "conn_inv c1" for c1 sid g
    using that by (rule conn_inv_state) (auto simp: grant_credit_live intro: grant_credit_step)
  show ?thesis
    using c by (auto simp: poll_read_def Let_def upd grant [OF upd, simplified] split: option.splits prod.splits)
qed

lemma conn_inv_write: "conn_inv c \<Longrightarrow> conn_inv (snd (poll_write t a buf c))"
  by (auto simp: poll_write_def Let_def split: option.splits
      intro!: conn_inv_store [OF _ same_ids_upd])

lemma conn_inv_shutdown: "conn_inv c \<Longrightarrow> conn_inv (snd (poll_shutdown t a c))"
  by (auto simp: poll_shutdown_def Let_def split: option.splits
      intro!: conn_inv_store [OF _ same_ids_upd])

text \<open>The invariant up to the route of \<open>sid\<close>, as it holds between \<open>recv\<close> and the clean-up.\<close>

definition conn_inv_but :: "u32 \<Rightarrow> ConnInner \<Rightarrow> bool" where
  "conn_inv_but sid c = (hm_wf (routes c) \<and> conn_inv (c\<lparr>routes := hm_remove sid (routes c)\<rparr>))"

lemma conn_inv_but_recv:
  assumes "conn_inv c" "stream_id f \<noteq> 0" "recv f (conn_state c) = (r, st)"
  shows "conn_inv_but (stream_id f) (c\<lparr>conn_state := st\<rparr>)"
  using conn_inv_retire [OF assms(1), of st "stream_id f"] assms(1)
    mux_inv_step [OF recv_step [OF assms(2)] conn_inv_mux [OF assms(1)]] recv_others [of f "conn_state c"] assms(3)
  by (simp add: conn_inv_but_def conn_inv_def)

lemma conn_inv_but_live:
  assumes "conn_inv_but sid (c\<lparr>conn_state := st\<rparr>)" "conn_inv c" "live st sid"
  shows "conn_inv (c\<lparr>conn_state := st\<rparr>)"
  using assms by (auto simp: conn_inv_but_def conn_inv_def routed_def hm_simps split: if_splits)

lemma conn_inv_but_unrouted:
  "conn_inv_but sid c \<Longrightarrow> hm_get (routes c) sid = None \<Longrightarrow> conn_inv c"
  by (simp add: conn_inv_but_def conn_inv_def routed_def hm_simps) (metis option.distinct(1))

lemma conn_inv_but_fault: "conn_inv_but sid c \<Longrightarrow> conn_inv (fault_stream sid code c)"
  using conn_inv_but_unrouted [of sid c]
  by (auto simp: fault_stream_def conn_inv_but_def split: option.splits intro: conn_inv_fail)

lemma resolve_simps [simp]:
  "conn_state (resolve sid r c) = conn_state c" "routes (resolve sid r c) = routes c"
  "store (resolve sid r c) = store c" "next_addr (resolve sid r c) = next_addr c"
  by (simp_all add: resolve_def split: option.splits)

lemma conn_inv_on_data: "conn_inv c \<Longrightarrow> conn_inv (on_data sid b c)"
  by (auto simp: on_data_def split: option.splits
      intro!: conn_inv_store [OF _ same_ids_upd] simp: deliver_def)

lemma conn_inv_on_peer_end:
  assumes "conn_inv_but sid c" "live (conn_state c) sid \<Longrightarrow> conn_inv c"
  shows "conn_inv (on_peer_end sid c)"
proof -
  let ?f = "\<lambda>s. s\<lparr>sh_inb := (sh_inb s)\<lparr>eof := True, read_waker := None\<rparr>\<rparr>"
  define c1 where "c1 = (case hm_get (routes c) sid of None \<Rightarrow> c
    | Some a \<Rightarrow> (case hm_get (store c) a of None \<Rightarrow> c
      | Some sh \<Rightarrow> wake (read_waker (sh_inb sh)) (upd_shared a ?f c)))"
  have c1: "conn_state c1 = conn_state c" "routes c1 = routes c" "next_addr c1 = next_addr c"
    "same_ids (store c) (store c1)"
    by (auto simp: c1_def same_ids_upd split: option.splits)
  show ?thesis
  proof (cases "live (conn_state c) sid")
    case True
    then have "conn_inv c1" by (rule conn_inv_store [OF assms(2)]) (simp_all add: c1)
    with True c1 show ?thesis by (auto simp: on_peer_end_def live_def simp flip: c1_def)
  next
    case False
    have "conn_inv (c1\<lparr>routes := hm_remove sid (routes c1)\<rparr>)"
      by (rule conn_inv_store [of "c\<lparr>routes := hm_remove sid (routes c)\<rparr>"])
        (use assms(1) c1 in \<open>simp_all add: conn_inv_but_def\<close>)
    with False c1 show ?thesis by (simp add: on_peer_end_def live_def flip: c1_def)
  qed
qed

lemma conn_inv_queue [simp]: "conn_inv (c\<lparr>accept_queue := q\<rparr>) = conn_inv c"
  by (simp add: conn_inv_def)

lemma conn_inv_on_incoming:
  assumes "conn_inv c" "live (conn_state c) sid"
  shows "conn_inv (on_incoming sid t c)"
proof -
  obtain a c1 where a: "alloc_shared (StreamShared_new sid (initial_window (conn_policy c))) c = (a, c1)"
    by (cases "alloc_shared (StreamShared_new sid (initial_window (conn_policy c))) c")
  have "conn_inv (c1\<lparr>routes := hm_insert sid a (routes c1)\<rparr>)"
    using conn_inv_alloc [OF assms(1) a] assms(2) by (intro conn_inv_route) (auto simp: StreamShared_new_def)
  then show ?thesis
    using a conn_inv_drop_incoming by (auto simp: on_incoming_def Let_def)
qed

lemma conn_inv_frame:
  assumes "conn_inv c" "stream_id f \<noteq> 0"
  shows "conn_inv (handle_frame f c)"
proof -
  obtain r st where r: "recv f (conn_state c) = (r, st)" by (cases "recv f (conn_state c)")
  note but = conn_inv_but_recv [OF assms r]
  have keep: "conn_inv (c\<lparr>conn_state := st\<rparr>)" if "live st (stream_id f)"
    using conn_inv_but_live [OF but assms(1) that] .
  show ?thesis
  proof (cases r)
    case (Inl e)
    with r but keep show ?thesis
      by (auto simp: handle_frame_def Let_def live_def intro: conn_inv_but_fault)
  next
    case (Inr ev)
    note live = recv_live [OF r [unfolded Inr]]
    have res: "conn_inv (resolve sid x c') = conn_inv c'" "conn_inv_but sid (resolve sid x c') = conn_inv_but sid c'" for sid x c'
      by (simp_all add: conn_inv_def conn_inv_but_def)
    show ?thesis
      using r Inr live but keep
      by (cases ev) (auto simp: handle_frame_def Let_def res
          intro: conn_inv_on_incoming conn_inv_on_data conn_inv_on_peer_end conn_inv_but_fault)
  qed
qed

lemma flush_staged_inv: "flush_staged sid buf st = (rest, st') \<Longrightarrow> mux_inv st \<Longrightarrow> mux_inv st'"
proof (induction sid buf st arbitrary: rest st' rule: flush_staged.induct)
  case (1 sid buf st)
  obtain r st1 where r: "send_data sid buf st = (r, st1)" by (cases "send_data sid buf st")
  then have inv: "mux_inv st1" using mux_inv_step [OF send_data_step 1(3), of sid buf] by simp
  show ?case
  proof (cases "buf = [] \<or> (\<nexists>n. r = Ok n \<and> n \<noteq> 0)")
    case True
    with 1(2,3) r inv show ?thesis
      by (auto simp: flush_staged.simps [of sid buf] split: sum.splits if_splits)
  next
    case False
    then obtain n where n: "buf \<noteq> []" "r = Ok n" "n \<noteq> 0" by auto
    with 1(1) [OF n(1) r [symmetric] n(2,3) _ inv] 1(2) r show ?thesis
      by (simp add: flush_staged.simps [of sid buf])
  qed
qed

lemma end_local_others: "others_kept sid st (snd (end_local sid st))"
  by (rule queue_frame_cases [of sid EndLocal "[]" st])
    (auto simp: end_local_def split: option.splits)

text \<open>
  During a drain pass a stream may be retired while it is still routed; what holds throughout is
  the invariant without liveness, which the final pruning restores.
\<close>

definition routes_named :: "(u32, nat) hashmap \<Rightarrow> (nat, StreamShared) hashmap \<Rightarrow> bool" where
  "routes_named rs sto =
     (\<forall>sid a. hm_get rs sid = Some a \<longrightarrow> (\<exists>sh. hm_get sto a = Some sh \<and> sh_id sh = sid))"

definition drain_inv :: "ConnInner \<Rightarrow> bool" where
  "drain_inv c = (mux_inv (conn_state c) \<and> hm_wf (routes c) \<and> routes_named (routes c) (store c) \<and>
     (\<forall>a sh. hm_get (store c) a = Some sh \<longrightarrow> a < next_addr c))"

lemma drain_stream_effect:
  assumes "mux_inv (conn_state c)"
  shows "mux_inv (conn_state (drain_stream a c)) \<and> routes (drain_stream a c) = routes c \<and>
    next_addr (drain_stream a c) = next_addr c \<and> same_ids (store c) (store (drain_stream a c))"
proof (cases "hm_get (store c) a")
  case (Some sh)
  obtain buf st1 where f: "flush_staged (sh_id sh) (ob_buf (sh_out sh)) (conn_state c) = (buf, st1)"
    by (cases "flush_staged (sh_id sh) (ob_buf (sh_out sh)) (conn_state c)")
  have "mux_inv st1" "mux_inv (snd (end_local (sh_id sh) st1))"
    using flush_staged_inv [OF f assms] mux_inv_step [OF end_local_step] by blast+
  with Some f show ?thesis
    by (auto simp: drain_stream_def Let_def same_ids_insert)
qed (simp add: drain_stream_def assms)

lemma routes_named_same: "routes_named rs sto \<Longrightarrow> same_ids sto sto' \<Longrightarrow> routes_named rs sto'"
  unfolding routes_named_def same_ids_def by (metis (no_types, lifting) map_option_eq_Some)

lemma drain_inv_stream: "drain_inv c \<Longrightarrow> drain_inv (drain_stream a c)"
proof -
  assume c: "drain_inv c"
  note e = drain_stream_effect [of c a]
  have "b < next_addr c" if "hm_get (store (drain_stream a c)) b = Some sh" for b sh
    using that c e unfolding drain_inv_def same_ids_def by (metis (no_types, lifting) map_option_eq_Some)
  with c e show ?thesis by (auto simp: drain_inv_def intro: routes_named_same)
qed

lemma drain_inv_fold: "drain_inv c \<Longrightarrow> drain_inv (fold (\<lambda>(_, a). drain_stream a) (rs :: (u32 \<times> nat) list) c)"
  by (induction rs arbitrary: c) (auto intro: drain_inv_stream split: prod.splits)

lemma conn_inv_drain: "conn_inv c \<Longrightarrow> conn_inv (snd (drain_pass c))"
proof -
  assume c: "conn_inv c"
  define c1 where "c1 = fold (\<lambda>(_, a). drain_stream a) (routes c) c"
  have "drain_inv c" using c by (auto simp: drain_inv_def conn_inv_def routed_def routes_named_def)
  then have c1: "drain_inv c1" unfolding c1_def by (rule drain_inv_fold)
  then have "mux_inv (snd (pending_outbound (conn_state c1)))"
    using mux_inv_step [OF drain_step] by (auto simp: drain_inv_def)
  moreover have "live (snd (pending_outbound st)) t = live st t" for st t
    by (simp add: pending_outbound_def)
  ultimately show ?thesis
    using c1 by (auto simp: drain_pass_def c1_def [symmetric] Let_def split_beta conn_inv_def drain_inv_def
        routes_named_def routed_def hm.get_retain hm_simps live_def split: option.splits if_splits)
qed

section \<open>Runs of the driver\<close>

datatype ConnOp =
    CoOpen MuxTarget
  | CoRecheck u32 nat nat
  | CoAccept nat
  | CoReject nat u8
  | CoDropIncoming nat
  | CoRead nat nat nat
  | CoWrite nat nat bytes
  | CoFlush
  | CoShutdown nat nat
  | CoDropStream u32
  | CoFrame MuxFrame
  | CoWriter bool
  | CoClose
  | CoDropAcceptor

fun conn_step :: "ConnOp \<Rightarrow> ConnInner \<Rightarrow> ConnInner" where
  "conn_step (CoOpen t) c = snd (open_register t c)"
| "conn_step (CoRecheck sid a w) c = snd (open_recheck (sid, a, w) c)"
| "conn_step (CoAccept a) c = IncomingStream_accept a c"
| "conn_step (CoReject a code) c = IncomingStream_reject a code c"
| "conn_step (CoDropIncoming a) c = IncomingStream_drop a c"
| "conn_step (CoRead t a room) c = snd (poll_read t a room c)"
| "conn_step (CoWrite t a b) c = snd (poll_write t a b c)"
| "conn_step CoFlush c = snd (poll_flush c)"
| "conn_step (CoShutdown t a) c = snd (poll_shutdown t a c)"
| "conn_step (CoDropStream sid) c = MuxStream_drop sid c"
| "conn_step (CoFrame f) c = handle_frame f c"
| "conn_step (CoWriter ok) c = snd (snd (writer_pass ok c))"
| "conn_step CoClose c = close_connection c"
| "conn_step CoDropAcceptor c = c\<lparr>acceptor_alive := False\<rparr>"

fun conn_op_ok :: "ConnOp \<Rightarrow> bool" where
  "conn_op_ok (CoFrame f) = wf_frame f"
| "conn_op_ok _ = True"

lemma conn_inv_step: "conn_inv c \<Longrightarrow> conn_op_ok op \<Longrightarrow> conn_inv (conn_step op c)"
proof (cases op)
  case (CoWriter ok)
  assume c: "conn_inv c"
  then have "conn_inv (c\<lparr>writer_wake := False\<rparr>)" by (simp add: conn_inv_def)
  from conn_inv_close [OF this] conn_inv_drain [OF this] show ?thesis
    by (auto simp: CoWriter writer_pass_def Let_def split: prod.splits intro: conn_inv_close)
qed (auto simp: poll_flush_def wf_frame_def intro: conn_inv_open conn_inv_recheck conn_inv_accept conn_inv_reject
    conn_inv_drop_incoming conn_inv_read conn_inv_write conn_inv_shutdown conn_inv_drop_stream
    conn_inv_frame conn_inv_close, simp add: conn_inv_def)

lemma conn_inv_run: "list_all conn_op_ok ops \<Longrightarrow> conn_inv c \<Longrightarrow> conn_inv (fold conn_step ops c)"
  by (induction ops arbitrary: c) (auto intro: conn_inv_step)


lemma dropped_lookup:
  "(k, w) \<in> set ws \<Longrightarrow> map_of (map (\<lambda>(_, w). (w, SenderDropped)) ws) w = Some SenderDropped"
  by (induction ws) auto

text \<open>
  Opening a stream cannot hang on a close that races with it.  If the connection was closed
  before the waiter is registered, the re-check reports it and removes waiter and route; if it is
  closed afterwards, the awaited reply resolves to an error.
\<close>

lemma open_close_race:
  assumes "open_register t c = (Ok (sid, a, w), c1)" and "\<forall>x \<in> set (resolved c). fst x < next_addr c"
    and "\<forall>k x. hm_get (open_waiters c) k = Some x \<longrightarrow> x < next_addr c"
  shows "(conn_closed c \<longrightarrow>
      (\<exists>c2. open_recheck (sid, a, w) c1 = (Err ConnClosed, c2) \<and>
         hm_get (open_waiters c2) sid = None \<and> hm_get (routes c2) sid = None)) \<and>
    (\<not> conn_closed c \<longrightarrow> open_await (sid, a, w) (close_connection c1) = Some (Err ConnClosed))"
proof -
  obtain st where "open_local t (conn_state c) = (Ok sid, st)"
    and c1: "c1 = notify_writer (c\<lparr>conn_state := st,
        store := hm_insert (next_addr c) (StreamShared_new sid (initial_window (conn_policy c))) (store c),
        routes := hm_insert sid (next_addr c) (routes c),
        resolved := resolved c @ dropped_sender sid c,
        open_waiters := hm_insert sid (Suc (next_addr c)) (open_waiters c),
        next_addr := Suc (Suc (next_addr c))\<rparr>)" and w: "w = Suc (next_addr c)"
    using assms(1) by (auto simp: open_register_def alloc_shared_def dropped_sender_def Let_def
        split: prod.splits sum.splits)
  have fresh: "map_of (resolved c) w = None" "map_of (dropped_sender sid c) w = None"
    unfolding map_of_eq_None_iff using assms(2) assms(3) [rule_format, of sid] w
    by (cases "hm_get (open_waiters c) sid"; force simp: dropped_sender_def)+
  have ws: "(sid, w) \<in> set (hm_insert sid w (open_waiters c))"
    by (rule hm_get_in) (simp add: hm_simps)
  have "map_of (resolved (close_connection c1)) w = Some SenderDropped" if "\<not> conn_closed c"
    using that fresh dropped_lookup [OF ws]
    by (simp add: close_connection_def c1 w Let_def fold_fail_simps map_add_def notify_writer_def)
  moreover have "\<exists>c2. open_recheck (sid, a, w) c1 = (Err ConnClosed, c2) \<and>
      hm_get (open_waiters c2) sid = None \<and> hm_get (routes c2) sid = None" if "conn_closed c"
    using that by (simp add: open_recheck_def c1 hm_simps)
  ultimately show ?thesis by (simp add: open_await_def)
qed

definition reuse_ops :: "ConnOp list" where
  "reuse_ops =
     [CoFrame sample_begin, CoAccept 0, CoFrame (reset_frame 2 0), CoFrame sample_begin, CoAccept 1,
      CoRead 7 1 100, CoDropStream 2]"

lemmas conn_eval = MuxConnection_new_def notify_writer_def upd_shared_def wake_def alloc_shared_def
  fail_handle_def fail_shared_def close_connection_def fault_stream_def IncomingStream_accept_def
  StreamShared_new_def poll_read_copy_def poll_read_credit_def poll_read_def MuxStream_drop_def
  on_incoming_def handle_frame_def resolve_def stream_state_def


section \<open>Concrete connections\<close>

text \<open>
  A responder with a four-byte window whose peer has opened stream 2 and sent two bytes on it; the
  outbound queue has the given capacity and holds the \<open>BeginOk\<close>.
\<close>

definition small_policy :: "nat \<Rightarrow> MuxPolicy" where
  "small_policy cap = MuxPolicy_default\<lparr>initial_window := 4, max_pending_outbound := cap\<rparr>"

definition small_ops :: "ConnOp list" where
  "small_ops = [CoFrame sample_begin, CoAccept 0, CoFrame (data_frame 2 [8, 9])]"

definition small_conn :: "nat \<Rightarrow> ConnInner" where
  "small_conn cap = fold conn_step small_ops (MuxConnection_new Responder (small_policy cap))"

lemma small_ops_ok: "list_all conn_op_ok small_ops"
  by (simp add: small_ops_def sample_begin_def data_frame_def wf_frame_alt mux_consts)

definition small_shared :: StreamShared where
  "small_shared = (StreamShared_new 2 4)\<lparr>sh_inb := (sh_inb (StreamShared_new 2 4))\<lparr>chunks := [[8, 9]], buffered := 2\<rparr>\<rparr>"

lemma small_conn_state:
  assumes "0 < cap"
  shows "conn_state (small_conn cap) =
      \<lparr>role = Responder, policy = small_policy cap,
       streams = [(2, \<lparr>state = Open, send_credit = 4, recv_window = 2, pending_target = None\<rparr>)],
       id_allocator = StreamIdAllocator_new Responder,
       outbound = [\<lparr>stream_id = 2, command = BeginOk, body = []\<rparr>], open_count = 1\<rparr>"
    and "routes (small_conn cap) = [(2, 0)]" and "store (small_conn cap) = [(0, small_shared)]"
    and "woken (small_conn cap) = []" and "open_waiters (small_conn cap) = []" and "\<not> conn_closed (small_conn cap)"
  using assms
  by (simp_all add: small_conn_def small_ops_def small_shared_def small_policy_def sample_begin_def
      data_frame_def sample_target_wire on_data_def deliver_def conn_eval mux_eval)

lemma small_shared_ok: "inb_ok (sh_inb small_shared)" "pending_bytes (sh_inb small_shared) = [8, 9]"
  "sh_id small_shared = 2" "window small_shared = 4" "unacked (sh_inb small_shared) = 0"
  "buffered (sh_inb small_shared) = 2" "inb_reset (sh_inb small_shared) = None" "\<not> eof (sh_inb small_shared)"
  by (simp_all add: small_shared_def StreamShared_new_def inb_ok_def cursor_ok_def pending_bytes_def)

lemmas small = small_conn_state small_shared_ok small_policy_def hm_get_def

lemma poll_read_fifo_witness:
  "\<exists>r c' sh'. poll_read 7 0 1 (small_conn 8) = (r, c') \<and> hm_get (store c') 0 = Some sh' \<and>
     r = Ready (Ok [8]) \<and> pending_bytes (sh_inb sh') = [9]"
proof -
  obtain r c' where r: "poll_read 7 0 1 (small_conn 8) = (r, c')" by fastforce
  have "hm_get (store (small_conn 8)) 0 = Some small_shared" by (simp add: small)
  from poll_read_fifo [OF this small_shared_ok(1) r] r show ?thesis
    by (auto simp: small_shared_ok)
qed

lemma read_conserves_credit_witness:
  "receive_total 2 0 (small_conn 8) = Some 4 \<and>
   receive_total 2 0 (snd (poll_read 7 0 100 (small_conn 8))) = Some 4"
proof -
  have "hm_get (store (small_conn 8)) 0 = Some small_shared"
    "hm_get (streams (conn_state (small_conn 8))) 2 =
      Some \<lparr>state = Open, send_credit = 4, recv_window = 2, pending_target = None\<rparr>"
    "receive_total 2 0 (small_conn 8) = Some 4"
    "length (outbound (conn_state (small_conn 8))) < max_pending_outbound (policy (conn_state (small_conn 8)))"
    by (simp_all add: small receive_total_def)
  with read_conserves_credit [OF this(1) small_shared_ok(1,3) _ this(2) _ this(3) _ this(4)] show ?thesis
    by (simp add: small_shared_ok)
qed

lemma read_loses_credit_witness:
  "receive_total 2 0 (small_conn 1) = Some 4 \<and>
   receive_total 2 0 (snd (poll_read 7 0 100 (small_conn 1))) = Some 2"
proof -
  have "hm_get (store (small_conn 1)) 0 = Some small_shared" "receive_total 2 0 (small_conn 1) = Some 4"
    "max_pending_outbound (policy (conn_state (small_conn 1))) \<le> length (outbound (conn_state (small_conn 1)))"
    by (simp_all add: small receive_total_def)
  with read_loses_credit [OF this(1) small_shared_ok(1,3) this(2) _ this(3) refl] show ?thesis
    by (simp add: small_shared_ok)
qed

lemma oversend_faults_handle_witness:
  "\<exists>c'. c' = handle_frame (data_frame 2 [1, 2, 3]) (small_conn 8) \<and> stream_state (conn_state c') 2 = None \<and>
     (\<exists>sh'. hm_get (store c') 0 = Some sh' \<and> failed sh')"
proof -
  have "hm_get (streams (conn_state (small_conn 8))) 2 =
      Some \<lparr>state = Open, send_credit = 4, recv_window = 2, pending_target = None\<rparr>"
    "hm_get (routes (small_conn 8)) 2 = Some 0" "hm_get (store (small_conn 8)) 0 = Some small_shared"
    "length (outbound (conn_state (small_conn 8))) < max_pending_outbound (policy (conn_state (small_conn 8)))"
    by (simp_all add: small)
  from oversend_faults_handle [OF this(1) _ this(2,3) _ _ this(4) refl, of "[1, 2, 3]"] show ?thesis
    by (simp add: data_frame_def word_less_nat_alt)
qed

text \<open>Task 7 waits for data on stream 4, which the peer has just opened.\<close>

definition parked_conn :: ConnInner where
  "parked_conn = fold conn_step [CoFrame (sample_begin\<lparr>stream_id := 4\<rparr>), CoAccept 0, CoRead 7 0 10]
     (MuxConnection_new Responder (small_policy 8))"

lemma close_connection_releases_all_witness:
  "\<not> conn_closed parked_conn \<and> 7 \<notin> set (woken parked_conn) \<and> 7 \<in> set (woken (close_connection parked_conn))"
proof -
  have "\<not> conn_closed parked_conn" "woken parked_conn = []" "hm_get (routes parked_conn) 4 = Some 0"
    "\<exists>sh. hm_get (store parked_conn) 0 = Some sh \<and> 7 \<in> wakers sh"
    by (simp_all add: parked_conn_def sample_begin_def sample_target_wire small_policy_def wakers_def
        conn_eval mux_eval)
  with close_connection_releases_all [OF this(1) refl] show ?thesis by fastforce
qed

lemma flush_staged_fifo_witness:
  "\<exists>rest st'. flush_staged 2 [1, 2, 3, 4, 5, 6] (conn_state (small_conn 8)) = (rest, st') \<and> rest = [5, 6] \<and>
     (\<exists>ps. outbound st' = outbound (conn_state (small_conn 8)) @ map (data_frame 2) ps \<and>
        concat ps @ rest = [1, 2, 3, 4, 5, 6])"
proof -
  have "\<exists>st'. flush_staged 2 [1, 2, 3, 4, 5, 6] (conn_state (small_conn 8)) = ([5, 6], st')"
    by (simp add: small flush_staged.simps mux_eval)
  then obtain st' where f: "flush_staged 2 [1, 2, 3, 4, 5, 6] (conn_state (small_conn 8)) = ([5, 6], st')" ..
  from flush_staged_fifo [OF _ f] f show ?thesis by auto
qed

lemma half_close_lost_witness:
  "\<exists>c sh'. c = snd (poll_shutdown 9 0 (small_conn 1)) \<and> hm_get (store (drain_stream 0 c)) 0 = Some sh' \<and>
     ended_sent (sh_out sh') \<and> conn_state (drain_stream 0 c) = conn_state c \<and>
     stream_state (conn_state c) 2 = Some Open"
proof -
  let ?c = "snd (poll_shutdown 9 0 (small_conn 1))"
  let ?sh = "small_shared\<lparr>sh_out := (sh_out small_shared)\<lparr>ending := True, shutdown_waker := Some 9\<rparr>\<rparr>"
  have c: "store ?c = [(0, ?sh)]" "conn_state ?c = conn_state (small_conn 1)"
    by (simp_all add: poll_shutdown_def small upd_shared_def small_shared_def StreamShared_new_def hm_insert_def Let_def)
  have "hm_get (store ?c) 0 = Some ?sh" "ob_buf (sh_out ?sh) = []" "ending (sh_out ?sh)"
    "hm_get (streams (conn_state ?c)) (sh_id ?sh) =
      Some \<lparr>state = Open, send_credit = 4, recv_window = 2, pending_target = None\<rparr>"
    "queue_full (conn_state ?c)" "stream_state (conn_state ?c) 2 = Some Open"
    unfolding c by (simp_all add: small queue_full_def stream_state_def small_shared_def StreamShared_new_def)
  with half_close_lost [OF this(1-4) _ this(5)] show ?thesis by auto
qed


lemma open_close_race_witness:
  "\<exists>h c1. open_register sample_target (MuxConnection_new Initiator MuxPolicy_default) = (Ok h, c1) \<and>
     open_await h c1 = None \<and> open_await h (close_connection c1) = Some (Err ConnClosed)"
proof -
  let ?c = "MuxConnection_new Initiator MuxPolicy_default"
  have "\<exists>c1. open_register sample_target ?c = (Ok (2, 0, 1), c1) \<and> open_await (2, 0, 1) c1 = None"
    by (simp add: open_register_def open_await_def dropped_sender_def sample_target_wire conn_eval mux_eval)
  then obtain c1 where o: "open_register sample_target ?c = (Ok (2, 0, 1), c1)" "open_await (2, 0, 1) c1 = None"
    by blast
  have "\<forall>x \<in> set (resolved ?c). fst x < next_addr ?c"
    "\<forall>k x. hm_get (open_waiters ?c) k = Some x \<longrightarrow> x < next_addr ?c" "\<not> conn_closed ?c"
    by (simp_all add: MuxConnection_new_def)
  with open_close_race [OF o(1) this(1,2)] o show ?thesis by blast
qed

end
