(* ===== verification/Dnstt_Dns.thy ===== *)
theory Dnstt_Dns
  imports Mirage_Prelude
begin

unbundle bit_operations_syntax

text \<open>
  The DNS wire format of the DNS tunnel (\<open>crates/transport-dnstt/src/dns.rs\<close>): base32, names with
  compression pointers, headers, TXT queries and TXT responses.  Random bytes (the EDNS cookie)
  are arguments.  Shown here: base32 decoding inverts encoding, names survive encoding and
  decoding, the name decoder terminates on every message and never returns an overlong name, and
  responses carry their payload through unchanged.
\<close>

section \<open>Constants\<close>

definition TYPE_TXT :: u16 where "TYPE_TXT = 16"
definition TYPE_OPT :: u16 where "TYPE_OPT = 41"
definition EDNS_UDP_BUFSIZE :: u16 where "EDNS_UDP_BUFSIZE = 1232"
definition EDNS_OPT_COOKIE :: u16 where "EDNS_OPT_COOKIE = 10"
definition CLASS_IN :: u16 where "CLASS_IN = 1"
definition FLAG_QR :: u16 where "FLAG_QR = 0x8000"
definition FLAG_AA :: u16 where "FLAG_AA = 0x0400"
definition FLAG_RD :: u16 where "FLAG_RD = 0x0100"
definition FLAG_RA :: u16 where "FLAG_RA = 0x0080"
definition RESPONSE_TTL :: u32 where "RESPONSE_TTL = 60"
definition MAX_LABEL :: nat where "MAX_LABEL = 63"
definition MAX_NAME :: nat where "MAX_NAME = 255"
definition MAX_TXT_CHUNK :: nat where "MAX_TXT_CHUNK = 255"

lemmas dns_consts = TYPE_TXT_def TYPE_OPT_def EDNS_UDP_BUFSIZE_def EDNS_OPT_COOKIE_def CLASS_IN_def
  FLAG_QR_def FLAG_AA_def FLAG_RD_def FLAG_RA_def RESPONSE_TTL_def MAX_LABEL_def MAX_NAME_def
  MAX_TXT_CHUNK_def

section \<open>Base32\<close>

text \<open>\<open>b"abcdefghijklmnopqrstuvwxyz234567"\<close>\<close>

definition B32_ALPHABET :: bytes where
  "B32_ALPHABET = map (\<lambda>i. 0x61 + word_of_nat i) [0..<26] @ map (\<lambda>i. 0x32 + word_of_nat i) [0..<6]"

text \<open>The \<open>while bits >= 5\<close> loop: the characters it pushes and the bits it leaves.\<close>

fun b32_drain :: "u64 \<Rightarrow> nat \<Rightarrow> bytes \<times> nat" where
  "b32_drain buf bits =
     (if 5 \<le> bits then
        let bits' = bits - 5;
            idx = unat (drop_bit bits' buf AND 0x1F);
            (out, left) = b32_drain buf bits'
        in (B32_ALPHABET ! idx # out, left)
      else ([], bits))"

declare b32_drain.simps [simp del]

fun b32_enc_loop :: "bytes \<Rightarrow> u64 \<Rightarrow> nat \<Rightarrow> bytes" where
  "b32_enc_loop [] buf bits =
     (if 0 < bits then [B32_ALPHABET ! unat (push_bit (5 - bits) buf AND 0x1F)] else [])"
| "b32_enc_loop (b # bs) buf bits =
     (let buf' = push_bit 8 buf OR ucast b;
          (out, bits') = b32_drain buf' (bits + 8)
      in out @ b32_enc_loop bs buf' bits')"

definition base32_encode :: "bytes \<Rightarrow> bytes" where
  "base32_encode data = b32_enc_loop data 0 0"

definition b32_val :: "u8 \<Rightarrow> u8 option" where
  "b32_val c =
     (if 0x61 \<le> c \<and> c \<le> 0x7A then Some (c - 0x61)
      else if 0x41 \<le> c \<and> c \<le> 0x5A then Some (c - 0x41)
      else if 0x32 \<le> c \<and> c \<le> 0x37 then Some (c - 0x32 + 26)
      else None)"

fun b32_dec_loop :: "bytes \<Rightarrow> u64 \<Rightarrow> nat \<Rightarrow> bytes option" where
  "b32_dec_loop [] buf bits = Some []"
| "b32_dec_loop (c # cs) buf bits =
     (case b32_val c of
        None \<Rightarrow> None
      | Some val \<Rightarrow>
          let buf' = push_bit 5 buf OR ucast val; bits' = bits + 5 in
          if 8 \<le> bits' then
            (case b32_dec_loop cs buf' (bits' - 8) of
               None \<Rightarrow> None
             | Some out \<Rightarrow> Some (ucast (drop_bit (bits' - 8) buf' AND 0xFF) # out))
          else b32_dec_loop cs buf' bits')"

definition base32_decode :: "bytes \<Rightarrow> bytes option" where
  "base32_decode s = b32_dec_loop s 0 0"

section \<open>Names\<close>

definition slice_get :: "'a list \<Rightarrow> nat \<Rightarrow> nat \<Rightarrow> 'a list option" where
  "slice_get xs a b = (if a \<le> b \<and> b \<le> length xs then Some (drop a (take b xs)) else None)"

definition list_get :: "'a list \<Rightarrow> nat \<Rightarrow> 'a option" where
  "list_get xs i = (if i < length xs then Some (xs ! i) else None)"

fun encode_labels :: "bytes list \<Rightarrow> bytes option" where
  "encode_labels [] = Some [0]"
| "encode_labels (label # labels) =
     (if label = [] then encode_labels labels
      else if length label > MAX_LABEL then None
      else case encode_labels labels of
        None \<Rightarrow> None
      | Some out \<Rightarrow> Some (word_of_nat (length label) # label @ out))"

text \<open>\<open>encode_name\<close> appends to a buffer; the definition returns what it appends.\<close>

definition encode_name :: "bytes \<Rightarrow> bytes option" where
  "encode_name name =
     (case encode_labels (split_on 0x2E name) of
        None \<Rightarrow> None
      | Some out \<Rightarrow> if length out > MAX_NAME then None else Some out)"

function decode_name_loop ::
  "bytes \<Rightarrow> nat \<Rightarrow> nat option \<Rightarrow> nat \<Rightarrow> nat \<Rightarrow> (bytes list \<times> nat) option" where
  "decode_name_loop msg p next_after hops total_len =
     (case list_get msg p of
        None \<Rightarrow> None
      | Some b \<Rightarrow>
          let len = unat b in
          if len = 0 then Some ([], case next_after of None \<Rightarrow> p + 1 | Some e \<Rightarrow> e)
          else if b AND 0xC0 = 0xC0 then
            (case list_get msg (p + 1) of
               None \<Rightarrow> None
             | Some b2 \<Rightarrow>
                 let ptr = unat (b AND 0x3F) * 256 + unat b2;
                     na = (case next_after of None \<Rightarrow> Some (p + 2) | Some e \<Rightarrow> Some e)
                 in if 128 < hops + 1 \<or> length msg \<le> ptr then None
                    else decode_name_loop msg ptr na (hops + 1) total_len)
          else if len > MAX_LABEL then None
          else if total_len + (len + 1) > MAX_NAME then None
          else
            (case slice_get msg (p + 1) (p + 1 + len) of
               None \<Rightarrow> None
             | Some label \<Rightarrow>
                 (case decode_name_loop msg (p + 1 + len) next_after hops (total_len + (len + 1)) of
                    None \<Rightarrow> None
                  | Some (labels, e) \<Rightarrow> Some (utf8_lossy label # labels, e))))"
  by pat_completeness auto
termination
  by (relation "measures [\<lambda>(msg, p, na, hops, t). 129 - hops, \<lambda>(msg, p, na, hops, t). length msg - p]")
    (auto simp: list_get_def split: if_splits)

declare decode_name_loop.simps [simp del]

definition join_dots :: "bytes list \<Rightarrow> bytes" where
  "join_dots labels = (case labels of [] \<Rightarrow> [] | l # ls \<Rightarrow> l @ concat (map (\<lambda>x. 0x2E # x) ls))"

definition decode_name :: "bytes \<Rightarrow> nat \<Rightarrow> (bytes \<times> nat) option" where
  "decode_name msg pos =
     (case decode_name_loop msg pos None 0 0 of
        None \<Rightarrow> None
      | Some (labels, e) \<Rightarrow> Some (join_dots labels, e))"

section \<open>Messages\<close>

record Header =
  hdr_id :: u16
  hdr_flags :: u16
  hdr_qd :: u16
  hdr_an :: u16
  hdr_ns :: u16
  hdr_ar :: u16

definition Header_write :: "Header \<Rightarrow> bytes" where
  "Header_write h =
     to_be (hdr_id h) @ to_be (hdr_flags h) @ to_be (hdr_qd h) @ to_be (hdr_an h) @ to_be (hdr_ns h) @
     to_be (hdr_ar h)"

definition Header_read :: "bytes \<Rightarrow> Header option" where
  "Header_read msg =
     (if length msg < 12 then None
      else
        let g = (\<lambda>i. from_be [msg ! i, msg ! (i + 1)]) in
        Some \<lparr>hdr_id = g 0, hdr_flags = g 2, hdr_qd = g 4, hdr_an = g 6, hdr_ns = g 8, hdr_ar = g 10\<rparr>)"

definition edns0_opt_query :: "bytes \<Rightarrow> bytes" where
  "edns0_opt_query cookie =
     [0] @ to_be TYPE_OPT @ to_be EDNS_UDP_BUFSIZE @ [0, 0, 0, 0] @ to_be (4 + 8 :: u16) @
     to_be EDNS_OPT_COOKIE @ to_be (8 :: u16) @ cookie"

definition encode_query :: "bytes \<Rightarrow> u16 \<Rightarrow> bytes \<Rightarrow> bytes option" where
  "encode_query cookie qid qname =
     (case encode_name qname of
        None \<Rightarrow> None
      | Some n \<Rightarrow>
          Some (Header_write \<lparr>hdr_id = qid, hdr_flags = 0x0100, hdr_qd = 1, hdr_an = 0, hdr_ns = 0, hdr_ar = 1\<rparr>
                @ n @ to_be TYPE_TXT @ to_be CLASS_IN @ edns0_opt_query cookie))"

record Query =
  q_id :: u16
  q_name :: bytes
  recursion_desired :: bool
  had_opt :: bool

text \<open>The loop over further questions: \<open>n\<close> names, each followed by type and class.\<close>

fun skip_questions :: "nat \<Rightarrow> bytes \<Rightarrow> nat \<Rightarrow> nat option" where
  "skip_questions 0 msg p = Some p"
| "skip_questions (Suc n) msg p =
     (case decode_name msg p of None \<Rightarrow> None | Some (_, nxt) \<Rightarrow> skip_questions n msg (nxt + 4))"

fun scan_for_opt :: "bytes \<Rightarrow> nat \<Rightarrow> nat \<Rightarrow> bool" where
  "scan_for_opt msg pos 0 = False"
| "scan_for_opt msg pos (Suc count) =
     (case decode_name msg pos of
        None \<Rightarrow> False
      | Some (_, nxt) \<Rightarrow>
          (case (list_get msg nxt, list_get msg (nxt + 1)) of
             (Some t0, Some t1) \<Rightarrow>
               if from_be [t0, t1] = TYPE_OPT then True
               else (case (list_get msg (nxt + 8), list_get msg (nxt + 9)) of
                       (Some l0, Some l1) \<Rightarrow>
                         scan_for_opt msg (nxt + 10 + unat (from_be [l0, l1] :: u16)) count
                     | _ \<Rightarrow> False)
           | _ \<Rightarrow> False))"

definition parse_query :: "bytes \<Rightarrow> Query option" where
  "parse_query msg =
     (case Header_read msg of
        None \<Rightarrow> None
      | Some h \<Rightarrow>
          if hdr_flags h AND FLAG_QR \<noteq> 0 \<or> hdr_qd h < 1 then None
          else case decode_name msg 12 of
            None \<Rightarrow> None
          | Some (name, p) \<Rightarrow>
              (case skip_questions (unat (hdr_qd h) - 1) msg (p + 4) of
                 None \<Rightarrow> None
               | Some p' \<Rightarrow>
                   Some \<lparr>q_id = hdr_id h, q_name = map ascii_lower name,
                         recursion_desired = (hdr_flags h AND FLAG_RD \<noteq> 0),
                         had_opt = scan_for_opt msg p'
                           (unat (saturating_add (saturating_add (hdr_an h) (hdr_ns h)) (hdr_ar h)))\<rparr>))"

text \<open>\<open>payload.chunks(MAX_TXT_CHUNK)\<close>, each with its length octet.\<close>

function txt_chunks :: "bytes \<Rightarrow> bytes" where
  "txt_chunks payload =
     (if payload = [] then []
      else
        let chunk = take MAX_TXT_CHUNK payload in
        (word_of_nat (length chunk) # chunk) @ txt_chunks (drop MAX_TXT_CHUNK payload))"
  by pat_completeness auto
termination by (relation "measure length") (auto simp: MAX_TXT_CHUNK_def)

declare txt_chunks.simps [simp del]

definition txt_rdata :: "bytes \<Rightarrow> bytes" where
  "txt_rdata payload = (if payload = [] then [0] else txt_chunks payload)"

definition edns0_opt_response :: bytes where
  "edns0_opt_response =
     [0] @ to_be TYPE_OPT @ to_be EDNS_UDP_BUFSIZE @ [0, 0, 0, 0] @ to_be (0 :: u16)"

definition encode_response :: "u16 \<Rightarrow> bytes \<Rightarrow> bytes \<Rightarrow> bool \<Rightarrow> bool \<Rightarrow> bytes option" where
  "encode_response rid qname payload rd echo_opt =
     (let flags = (FLAG_QR OR FLAG_AA) OR (if rd then FLAG_RD else 0);
          rdata = txt_rdata payload
      in case encode_name qname of
           None \<Rightarrow> None
         | Some n \<Rightarrow>
             Some (Header_write \<lparr>hdr_id = rid, hdr_flags = flags, hdr_qd = 1, hdr_an = 1, hdr_ns = 0,
                                 hdr_ar = (if echo_opt then 1 else 0)\<rparr>
                   @ n @ to_be TYPE_TXT @ to_be CLASS_IN
                   @ [0xC0, 0x0C] @ to_be TYPE_TXT @ to_be CLASS_IN @ to_be RESPONSE_TTL
                   @ to_be (word_of_nat (length rdata) :: u16) @ rdata
                   @ (if echo_opt then edns0_opt_response else [])))"

text \<open>The character-strings of a TXT record; a length octet that overruns the record is cut off.\<close>

function txt_strings :: "bytes \<Rightarrow> bytes" where
  "txt_strings rdata =
     (case rdata of
        [] \<Rightarrow> []
      | c # rest \<Rightarrow> take (unat c) rest @ txt_strings (drop (unat c) rest))"
  by pat_completeness auto
termination by (relation "measure length") auto

declare txt_strings.simps [simp del]

fun walk_answers :: "nat \<Rightarrow> bytes \<Rightarrow> nat \<Rightarrow> bytes option" where
  "walk_answers 0 msg p = Some []"
| "walk_answers (Suc n) msg p =
     (case decode_name msg p of
        None \<Rightarrow> None
      | Some (_, q) \<Rightarrow>
          (case (list_get msg q, list_get msg (q + 1), list_get msg (q + 8), list_get msg (q + 9)) of
             (Some t0, Some t1, Some l0, Some l1) \<Rightarrow>
               let rtype = from_be [t0, t1] :: u16;
                   rdlen = unat (from_be [l0, l1] :: u16)
               in (case slice_get msg (q + 10) (q + 10 + rdlen) of
                     None \<Rightarrow> None
                   | Some rdata \<Rightarrow>
                       if rtype = TYPE_TXT then Some (txt_strings rdata)
                       else walk_answers n msg (q + 10 + rdlen))
           | _ \<Rightarrow> None))"

definition parse_response :: "bytes \<Rightarrow> (u16 \<times> bytes) option" where
  "parse_response msg =
     (case Header_read msg of
        None \<Rightarrow> None
      | Some h \<Rightarrow>
          if hdr_flags h AND FLAG_QR = 0 then None
          else case skip_questions (unat (hdr_qd h)) msg 12 of
            None \<Rightarrow> None
          | Some p \<Rightarrow>
              (case walk_answers (unat (hdr_an h)) msg p of
                 None \<Rightarrow> None
               | Some payload \<Rightarrow> Some (hdr_id h, payload)))"

section \<open>Base32 as regrouping of bits\<close>

text \<open>The low \<open>n\<close> bits of a word, most significant first.\<close>

definition wbits :: "nat \<Rightarrow> 'a::len word \<Rightarrow> bool list" where
  "wbits n w = map (bit w) (rev [0..<n])"

lemma length_wbits [simp]: "length (wbits n w) = n"
  by (simp add: wbits_def)

lemma wbits_0 [simp]: "wbits 0 w = []"
  by (simp add: wbits_def)

lemma wbits_nth: "j < n \<Longrightarrow> wbits n w ! j = bit w (n - 1 - j)"
  by (simp add: wbits_def rev_nth)

lemma wbits_split: "wbits (m + n) w = wbits m (drop_bit n w) @ wbits n w"
proof (rule nth_equalityI)
  fix j assume "j < length (wbits (m + n) w)"
  then have j: "j < m + n" by simp
  show "wbits (m + n) w ! j = (wbits m (drop_bit n w) @ wbits n w) ! j"
  proof (cases "j < m")
    case True
    then have "n + (m - 1 - j) = m + n - 1 - j" by simp
    with True j show ?thesis by (simp add: wbits_nth nth_append bit_drop_bit_eq)
  next
    case False
    then have "n - 1 - (j - m) = m + n - 1 - j" by simp
    with False j show ?thesis by (simp add: wbits_nth nth_append)
  qed
qed simp

lemma wbits_cong: "(\<And>i. i < n \<Longrightarrow> bit v i = bit w i) \<Longrightarrow> wbits n v = wbits n w"
  by (simp add: wbits_def)

lemma wbits_push:
  assumes "m + n \<le> LENGTH('a::len)" and "\<And>i. n \<le> i \<Longrightarrow> \<not> bit (v :: 'b::len word) i"
  shows "wbits (m + n) (push_bit n buf OR ucast v :: 'a word) = wbits m buf @ wbits n v"
proof -
  have "wbits m (drop_bit n (push_bit n buf OR ucast v :: 'a word)) = wbits m buf"
    using assms by (intro wbits_cong) (auto simp: bit_drop_bit_eq bit_or_iff bit_push_bit_iff bit_ucast_iff)
  moreover have "wbits n (push_bit n buf OR ucast v :: 'a word) = wbits n v"
    using assms(1) by (intro wbits_cong) (auto simp: bit_or_iff bit_push_bit_iff bit_ucast_iff)
  ultimately show ?thesis by (simp add: wbits_split)
qed

lemma wbits_inj: "wbits 8 v = wbits 8 (w :: u8) \<Longrightarrow> v = w"
  by (rule bit_word_eqI) (simp add: wbits_def)

lemma concat_wbits_inj:
  "length vs = length ws \<Longrightarrow> concat (map (wbits 8) vs) = concat (map (wbits 8) (ws :: u8 list)) \<Longrightarrow> vs = ws"
  by (induction vs ws rule: list_induct2) (auto dest: wbits_inj)

text \<open>The characters: \<open>b32_char v\<close> for a five-bit value \<open>v\<close>.\<close>

definition b32_char :: "u8 \<Rightarrow> u8" where
  "b32_char v = B32_ALPHABET ! unat v"

definition five_bit :: "u8 \<Rightarrow> bool" where
  "five_bit v = (v < 32)"

lemma b32_val_alphabet: "\<forall>i \<in> set [0..<32]. b32_val (B32_ALPHABET ! i) = Some (word_of_nat i)"
  by code_simp

lemma b32_val_char: "five_bit v \<Longrightarrow> b32_val (b32_char v) = Some v"
  using b32_val_alphabet [rule_format, of "unat v"]
  by (simp add: b32_char_def five_bit_def word_less_nat_alt)

lemma five_bit_bits: "five_bit v \<Longrightarrow> 5 \<le> i \<Longrightarrow> \<not> bit v i"
proof -
  assume "five_bit v" "5 \<le> i"
  then have "take_bit 5 v = v"
    by (simp add: five_bit_def take_bit_eq_mod word_less_nat_alt word_unat_eq_iff unat_mod_distrib)
  then show ?thesis using \<open>5 \<le> i\<close> by (metis bit_take_bit_iff not_less)
qed

lemma low_five:
  "unat (w AND 0x1F :: u64) < 32" "five_bit (ucast (w AND 0x1F :: u64))"
  "unat (ucast (w AND 0x1F :: u64) :: u8) = unat (w AND 0x1F)"
proof -
  have m: "w AND 0x1F = take_bit 5 w" by (simp add: take_bit_eq_mask mask_eq_exp_minus_1)
  show 1: "unat (w AND 0x1F :: u64) < 32"
    unfolding m by (simp add: take_bit_eq_mod unat_mod_distrib)
  show 2: "unat (ucast (w AND 0x1F :: u64) :: u8) = unat (w AND 0x1F)"
    using 1 by (simp add: unsigned_ucast_eq take_bit_eq_mod)
  show "five_bit (ucast (w AND 0x1F :: u64))"
    using 1 2 by (simp add: five_bit_def word_less_nat_alt)
qed

lemma wbits_low_five: "wbits 5 (ucast (w AND 0x1F :: u64) :: u8) = wbits 5 w"
proof (rule wbits_cong)
  fix i :: nat assume "i < 5"
  have "w AND 0x1F = take_bit 5 w" by (simp add: take_bit_eq_mask mask_eq_exp_minus_1)
  with \<open>i < 5\<close> show "bit (ucast (w AND 0x1F :: u64) :: u8) i = bit w i"
    by (simp add: bit_ucast_iff bit_take_bit_iff)
qed

lemma wbits_low_eight: "wbits 8 (ucast (w AND 0xFF :: u64) :: u8) = wbits 8 w"
proof (rule wbits_cong)
  fix i :: nat assume "i < 8"
  have "w AND 0xFF = take_bit 8 w" by (simp add: take_bit_eq_mask mask_eq_exp_minus_1)
  with \<open>i < 8\<close> show "bit (ucast (w AND 0xFF :: u64) :: u8) i = bit w i"
    by (simp add: bit_ucast_iff bit_take_bit_iff)
qed

lemma b32_drain_bits:
  assumes "bits \<le> 64" "b32_drain buf bits = (out, left)"
  shows "left < 5 \<and> left \<le> bits \<and> (\<exists>vs. out = map b32_char vs \<and> list_all five_bit vs \<and>
    concat (map (wbits 5) vs) @ wbits left buf = wbits bits buf)"
  using assms
proof (induction buf bits arbitrary: out left rule: b32_drain.induct)
  case (1 buf bits)
  show ?case
  proof (cases "5 \<le> bits")
    case False
    with 1(3) show ?thesis by (simp add: b32_drain.simps)
  next
    case True
    obtain out' where r: "b32_drain buf (bits - 5) = (out', left)"
      and out: "out = B32_ALPHABET ! unat (drop_bit (bits - 5) buf AND 0x1F) # out'"
      using 1(3) True by (auto simp: b32_drain.simps [of buf bits] Let_def split: prod.splits)
    have "bits - 5 \<le> 64" using 1(2) by simp
    from 1(1) [OF True refl refl this r] obtain vs where
      vs: "out' = map b32_char vs" "list_all five_bit vs" "left < 5" "left \<le> bits - 5"
        "concat (map (wbits 5) vs) @ wbits left buf = wbits (bits - 5) buf" by auto
    let ?v = "ucast (drop_bit (bits - 5) buf AND 0x1F :: u64) :: u8"
    have "wbits bits buf = wbits 5 ?v @ wbits (bits - 5) buf"
      using wbits_split [of 5 "bits - 5" buf] True by (simp add: wbits_low_five)
    moreover have "out = map b32_char (?v # vs)"
      by (simp add: out vs(1) b32_char_def low_five)
    ultimately show ?thesis
      using vs low_five(2) by (intro conjI exI [of _ "?v # vs"]) auto
  qed
qed

lemma wbits_zero: "wbits n (0 :: 'a :: len word) = replicate n False"
  by (rule nth_equalityI) (simp_all add: wbits_def)

lemma b32_enc_bits:
  assumes "bits < 5"
  shows "\<exists>vs pad. b32_enc_loop bs buf bits = map b32_char vs \<and> list_all five_bit vs \<and> pad < 5 \<and>
    concat (map (wbits 5) vs) = wbits bits buf @ concat (map (wbits 8) bs) @ replicate pad False"
  using assms
proof (induction bs arbitrary: buf bits)
  case Nil
  show ?case
  proof (cases "bits = 0")
    case True
    then show ?thesis by (intro exI [of _ "[]"] exI [of _ 0]) simp
  next
    case False
    let ?v = "ucast (push_bit (5 - bits) buf AND 0x1F :: u64) :: u8"
    have "wbits (bits + (5 - bits)) (push_bit (5 - bits) buf OR ucast (0 :: u8) :: u64) =
        wbits bits buf @ wbits (5 - bits) (0 :: u8)"
      using Nil by (intro wbits_push) auto
    then have "wbits 5 ?v = wbits bits buf @ replicate (5 - bits) False"
      using Nil by (simp add: wbits_low_five wbits_zero)
    with False Nil low_five(2) show ?thesis
      by (intro exI [of _ "[?v]"] exI [of _ "5 - bits"]) (simp add: b32_char_def low_five)
  qed
next
  case (Cons b bs)
  let ?buf = "push_bit 8 buf OR ucast b :: u64"
  obtain out left where d: "b32_drain ?buf (bits + 8) = (out, left)" by (cases "b32_drain ?buf (bits + 8)")
  from b32_drain_bits [OF _ d] Cons.prems obtain vs where
    vs: "out = map b32_char vs" "list_all five_bit vs" "left < 5"
      "concat (map (wbits 5) vs) @ wbits left ?buf = wbits (bits + 8) ?buf" by auto
  from Cons.IH [OF vs(3), of ?buf] obtain ws pad where
    ws: "b32_enc_loop bs ?buf left = map b32_char ws" "list_all five_bit ws" "pad < 5"
      "concat (map (wbits 5) ws) = wbits left ?buf @ concat (map (wbits 8) bs) @ replicate pad False" by auto
  have "wbits (bits + 8) ?buf = wbits bits buf @ wbits 8 b"
    using Cons.prems by (intro wbits_push) (auto dest: bit_imp_le_length)
  with vs ws d show ?case
    by (intro exI [of _ "vs @ ws"] exI [of _ pad]) (auto simp flip: append_assoc)
qed

lemma b32_dec_bits:
  assumes "bits < 8" "list_all five_bit vs"
  shows "\<exists>out rest. b32_dec_loop (map b32_char vs) buf bits = Some out \<and> length rest < 8 \<and>
    concat (map (wbits 8) out) @ rest = wbits bits buf @ concat (map (wbits 5) vs)"
  using assms
proof (induction vs arbitrary: buf bits)
  case Nil
  then show ?case by (intro exI [of _ "[]"] exI [of _ "wbits bits buf"]) simp
next
  case (Cons v vs)
  let ?buf = "push_bit 5 buf OR ucast v :: u64"
  have v: "five_bit v" using Cons.prems(2) by simp
  have buf: "wbits (bits + 5) ?buf = wbits bits buf @ wbits 5 v"
    using Cons.prems(1) five_bit_bits [OF v] by (intro wbits_push) auto
  show ?case
  proof (cases "8 \<le> bits + 5")
    case True
    let ?b = "ucast (drop_bit (bits + 5 - 8) ?buf AND 0xFF) :: u8"
    have "bits + 5 - 8 < 8" "list_all five_bit vs" using Cons.prems by auto
    from Cons.IH [OF this, of ?buf] obtain out rest where IH: "b32_dec_loop (map b32_char vs) ?buf (bits + 5 - 8) = Some out" "length rest < 8"
      "concat (map (wbits 8) out) @ rest = wbits (bits + 5 - 8) ?buf @ concat (map (wbits 5) vs)"
      by auto
    have "wbits (bits + 5) ?buf = wbits 8 ?b @ wbits (bits + 5 - 8) ?buf"
      unfolding wbits_low_eight using wbits_split [of 8 "bits + 5 - 8" ?buf] True by (simp add: add.commute)
    with IH buf True b32_val_char [OF v] show ?thesis
      by (intro exI [of _ "?b # out"] exI [of _ rest]) (simp add: Let_def)
  next
    case False
    then have "bits + 5 < 8" "list_all five_bit vs" using Cons.prems by auto
    from Cons.IH [OF this, of ?buf] obtain out rest where "b32_dec_loop (map b32_char vs) ?buf (bits + 5) = Some out" "length rest < 8"
      "concat (map (wbits 8) out) @ rest = wbits (bits + 5) ?buf @ concat (map (wbits 5) vs)"
      by auto
    with buf False b32_val_char [OF v] show ?thesis
      by (intro exI [of _ out] exI [of _ rest]) (simp add: Let_def)
  qed
qed

lemma length_concat_wbits: "length (concat (map (wbits n) vs)) = n * length vs"
  by (induction vs) auto

lemma base32_encode_chars:
  "\<exists>vs. base32_encode data = map b32_char vs \<and> list_all five_bit vs \<and> length vs = (8 * length data + 4) div 5"
proof -
  obtain vs pad where vs: "base32_encode data = map b32_char vs" "list_all five_bit vs" "pad < 5"
    "concat (map (wbits 5) vs) = concat (map (wbits 8) data) @ replicate pad False"
    using b32_enc_bits [of 0 data 0] by (auto simp: base32_encode_def)
  from arg_cong [OF vs(4), of length] have "5 * length vs = 8 * length data + pad"
    by (simp add: length_concat_wbits)
  with vs(3) have "length vs = (8 * length data + 4) div 5" by linarith
  with vs show ?thesis by blast
qed

text \<open>Base32 decoding inverts encoding, for every byte string.\<close>

lemma base32_decode_encode [codec_simps]: "base32_decode (base32_encode data) = Some data"
proof -
  obtain vs pad where vs: "base32_encode data = map b32_char vs" "list_all five_bit vs" "pad < 5"
    "concat (map (wbits 5) vs) = concat (map (wbits 8) data) @ replicate pad False"
    using b32_enc_bits [of 0 data 0] by (auto simp: base32_encode_def)
  obtain out rest where out: "b32_dec_loop (map b32_char vs) 0 0 = Some out" "length rest < 8"
    "concat (map (wbits 8) out) @ rest = concat (map (wbits 8) data) @ replicate pad False"
    using b32_dec_bits [of 0 vs 0] vs by auto
  from arg_cong [OF out(3), of length] have "8 * length out + length rest = 8 * length data + pad"
    by (simp add: length_concat_wbits)
  with out(2) vs(3) have len: "length out = length data" by linarith
  then have "concat (map (wbits 8) out) = concat (map (wbits 8) data)"
    using out(3) by (simp add: length_concat_wbits append_eq_append_conv)
  with len have "out = data" by (intro concat_wbits_inj)
  with vs(1) out(1) show ?thesis by (simp add: base32_decode_def)
qed

section \<open>Names survive the wire\<close>

lemma list_get_append: "list_get (xs @ ys) (length xs + k) = list_get ys k"
  by (simp add: list_get_def nth_append)

lemma list_get_at: "p = length xs \<Longrightarrow> list_get (xs @ y # ys) p = Some y"
  by (simp add: list_get_def)

lemma slice_get_at: "a = length xs \<Longrightarrow> b = a + length ys \<Longrightarrow> slice_get (xs @ ys @ zs) a b = Some ys"
  by (simp add: slice_get_def)

lemma len_octet:
  assumes "n \<le> MAX_LABEL"
  shows "unat (word_of_nat n :: u8) = n" "(word_of_nat n :: u8) AND 0xC0 \<noteq> 0xC0"
proof -
  have n: "n < 64" using assms by (simp add: MAX_LABEL_def)
  then show "unat (word_of_nat n :: u8) = n" by (simp add: unsigned_of_nat take_bit_eq_mod)
  have "\<forall>i \<in> set [0..<64]. (word_of_nat i :: u8) AND 0xC0 \<noteq> 0xC0" by code_simp
  with n show "(word_of_nat n :: u8) AND 0xC0 \<noteq> 0xC0" by simp
qed

lemma encode_labels_length:
  "encode_labels ls = Some out \<Longrightarrow> length out = sum_list (map (\<lambda>l. length l + 1) (filter (\<lambda>l. l \<noteq> []) ls)) + 1"
  by (induction ls arbitrary: out) (auto split: if_splits option.splits)

lemma decode_encode_labels:
  assumes "encode_labels ls = Some out" "t + length out \<le> MAX_NAME + 1"
  shows "decode_name_loop (pre @ out @ post) (length pre) na hops t =
    Some (map utf8_lossy (filter (\<lambda>l. l \<noteq> []) ls),
          case na of None \<Rightarrow> length pre + length out | Some e \<Rightarrow> e)"
  using assms
proof (induction ls arbitrary: out t pre)
  case Nil
  then have "out = [0]" by simp
  then show ?case by (simp add: decode_name_loop.simps list_get_at split: option.split)
next
  case (Cons l ls)
  show ?case
  proof (cases "l = []")
    case True
    with Cons show ?thesis by simp
  next
    case False
    with Cons.prems(1) obtain out' where o: "encode_labels ls = Some out'" "length l \<le> MAX_LABEL"
      "out = word_of_nat (length l) # l @ out'" by (auto split: if_splits option.splits)
    let ?b = "word_of_nat (length l) :: u8"
    have IH: "decode_name_loop ((pre @ ?b # l) @ out' @ post) (length (pre @ ?b # l)) na hops (t + (length l + 1)) =
        Some (map utf8_lossy (filter (\<lambda>l. l \<noteq> []) ls),
          case na of None \<Rightarrow> length (pre @ ?b # l) + length out' | Some e \<Rightarrow> e)"
      using Cons.prems(2) o by (intro Cons.IH) auto
    have s: "slice_get (pre @ ?b # l @ out' @ post) (Suc (length pre)) (Suc (length pre + length l)) = Some l"
      using slice_get_at [of "Suc (length pre)" "pre @ [?b]" "Suc (length pre + length l)" l "out' @ post"] by simp
    have "\<not> t + (length l + 1) > MAX_NAME"
      using Cons.prems(2) o(3) encode_labels_length [OF o(1)] by simp
    with IH s o False len_octet [OF o(2)] show ?thesis
      by (subst decode_name_loop.simps) (auto simp: list_get_at split: option.splits)
  qed
qed

lemma split_on_join: "join_dots (split_on 0x2E s) = s"
proof (induction s)
  case (Cons x xs)
  obtain y ys where "split_on 0x2E xs = y # ys" by (cases "split_on 0x2E xs") auto
  with Cons show ?case by (auto simp: join_dots_def)
qed (simp add: join_dots_def)

lemma set_labels: "l \<in> set (split_on c s) \<Longrightarrow> set l \<subseteq> set s"
proof (induction s arbitrary: l)
  case (Cons x xs)
  obtain y ys where "split_on c xs = y # ys" by (cases "split_on c xs") auto
  with Cons show ?case by (fastforce split: if_splits)
qed simp

text \<open>
  A name in the form the tunnel uses: ASCII, lower case, no empty label.
\<close>

definition plain_name :: "bytes \<Rightarrow> bool" where
  "plain_name name \<longleftrightarrow> list_all (\<lambda>b. b < 0x80 \<and> ascii_lower b = b) name \<and> list_all (\<lambda>l. l \<noteq> []) (split_on 0x2E name)"

lemma plain_name_lossy: "plain_name name \<Longrightarrow> map utf8_lossy (split_on 0x2E name) = split_on 0x2E name"
  by (rule map_idI) (use set_labels in \<open>fastforce simp: plain_name_def list_all_iff intro!: utf8_lossy_ascii\<close>)

lemma plain_name_labels: "plain_name name \<Longrightarrow> filter (\<lambda>l. l \<noteq> []) (split_on 0x2E name) = split_on 0x2E name"
  by (simp add: plain_name_def list_all_iff filter_id_conv)

lemma plain_name_lower: "plain_name name \<Longrightarrow> map ascii_lower name = name"
  by (rule map_idI) (auto simp: plain_name_def list_all_iff)

lemma decode_encode_name:
  assumes "encode_name name = Some out" "plain_name name" "pos = length pre"
  shows "decode_name (pre @ out @ post) pos = Some (name, pos + length out)"
proof -
  from assms(1) have o: "encode_labels (split_on 0x2E name) = Some out" "length out \<le> MAX_NAME"
    by (auto simp: encode_name_def split: option.splits if_splits)
  have "decode_name_loop (pre @ out @ post) (length pre) None 0 0 =
      Some (split_on 0x2E name, length pre + length out)"
    using decode_encode_labels [OF o(1), of 0 pre post None 0] o(2) plain_name_lossy plain_name_labels assms(2) by simp
  then show ?thesis by (simp add: decode_name_def split_on_join assms(3))
qed

lemma to_be_u16: "\<exists>a b. to_be (w :: u16) = [a, b] \<and> from_be [a, b] = w"
proof -
  have "length (to_be w) = 2" by simp
  then obtain a b where "to_be w = [a, b]" by (metis (no_types) length_0_conv length_Suc_conv numeral_2_eq_2)
  moreover from this have "from_be [a, b] = w" by (metis from_be_to_be_u16)
  ultimately show ?thesis by blast
qed

lemma length_Header_write [simp]: "length (Header_write h) = 12"
  by (simp add: Header_write_def)

lemma Header_read_write: "Header_read (Header_write h @ rest) = Some h"
proof -
  obtain a1 b1 a2 b2 a3 b3 a4 b4 a5 b5 a6 b6 where
    "to_be (hdr_id h) = [a1, b1]" "from_be [a1, b1] = hdr_id h"
    "to_be (hdr_flags h) = [a2, b2]" "from_be [a2, b2] = hdr_flags h"
    "to_be (hdr_qd h) = [a3, b3]" "from_be [a3, b3] = hdr_qd h"
    "to_be (hdr_an h) = [a4, b4]" "from_be [a4, b4] = hdr_an h"
    "to_be (hdr_ns h) = [a5, b5]" "from_be [a5, b5] = hdr_ns h"
    "to_be (hdr_ar h) = [a6, b6]" "from_be [a6, b6] = hdr_ar h"
    using to_be_u16 by metis
  then show ?thesis by (simp add: Header_read_def Header_write_def Let_def)
qed

lemma list_get_u16:
  assumes "p = length pre"
  obtains a b where "list_get (pre @ to_be (w :: u16) @ post) p = Some a"
    "list_get (pre @ to_be w @ post) (p + 1) = Some b" "from_be [a, b] = w"
proof -
  obtain a b where "to_be w = [a, b]" "from_be [a, b] = w" using to_be_u16 by blast
  then show thesis using that [of a b] assms by (simp add: list_get_def nth_append)
qed

lemma decode_root: "p = length pre \<Longrightarrow> decode_name (pre @ 0 # post) p = Some ([], p + 1)"
  by (simp add: decode_name_def decode_name_loop.simps list_get_at join_dots_def)

lemma scan_finds_opt:
  assumes "p = length pre" "0 < n"
  shows "scan_for_opt (pre @ 0 # to_be TYPE_OPT @ post) p n"
proof -
  obtain m where "n = Suc m" using assms(2) by (cases n) auto
  moreover obtain a b where "list_get ((pre @ [0]) @ to_be TYPE_OPT @ post) (p + 1) = Some a"
    "list_get ((pre @ [0]) @ to_be TYPE_OPT @ post) (p + 1 + 1) = Some b" "from_be [a, b] = TYPE_OPT"
    by (rule list_get_u16 [of "p + 1" "pre @ [0]"]) (use assms(1) in simp)
  ultimately show ?thesis using decode_root [OF assms(1), of "to_be TYPE_OPT @ post"] by simp
qed

lemma parse_encode_query:
  assumes "encode_query cookie qid name = Some msg" "plain_name name"
  shows "parse_query msg = Some \<lparr>q_id = qid, q_name = name, recursion_desired = True, had_opt = True\<rparr>"
proof -
  obtain n where n: "encode_name name = Some n" using assms(1) by (auto simp: encode_query_def split: option.splits)
  define h where "h = \<lparr>hdr_id = qid, hdr_flags = 0x0100, hdr_qd = 1, hdr_an = 0, hdr_ns = 0, hdr_ar = 1\<rparr>"
  define post where "post = to_be EDNS_UDP_BUFSIZE @ [0, 0, 0, 0] @ to_be (4 + 8 :: u16) @
     to_be EDNS_OPT_COOKIE @ to_be (8 :: u16) @ cookie"
  define pre where "pre = Header_write h @ n @ to_be TYPE_TXT @ to_be CLASS_IN"
  have m: "msg = pre @ 0 # to_be TYPE_OPT @ post"
    using assms(1) n by (simp add: encode_query_def edns0_opt_query_def pre_def post_def h_def)
  then have m': "msg = Header_write h @ n @ (to_be TYPE_TXT @ to_be CLASS_IN @ 0 # to_be TYPE_OPT @ post)"
    by (simp add: pre_def)
  have "Header_read msg = Some h" unfolding m' by (rule Header_read_write)
  moreover have "decode_name msg 12 = Some (name, 12 + length n)"
    unfolding m' by (rule decode_encode_name [OF n assms(2)]) simp
  moreover have "scan_for_opt msg (12 + length n + 4) 1"
    unfolding m by (rule scan_finds_opt) (simp_all add: pre_def)
  ultimately show ?thesis
    using plain_name_lower [OF assms(2)]
    by (simp add: parse_query_def h_def FLAG_QR_def FLAG_RD_def saturating_add_def)
qed

section \<open>Responses carry their payload\<close>

lemma decode_encode_any:
  assumes "encode_name name = Some out"
  shows "decode_name_loop (pre @ out @ post) (length pre) na hops 0 =
    Some (map utf8_lossy (filter (\<lambda>l. l \<noteq> []) (split_on 0x2E name)),
          case na of None \<Rightarrow> length pre + length out | Some e \<Rightarrow> e)"
  using assms
  by (intro decode_encode_labels) (auto simp: encode_name_def split: option.splits if_splits)

lemma decode_pointer:
  assumes "encode_name name = Some out" "length pre = 12" "p = length (pre @ out @ mid)"
  shows "\<exists>s. decode_name (pre @ out @ mid @ 0xC0 # 0x0C # post) p = Some (s, p + 2)"
proof -
  let ?msg = "pre @ out @ mid @ 0xC0 # 0x0C # post"
  have "list_get ?msg p = Some 0xC0" "list_get ?msg (p + 1) = Some 0x0C"
    using list_get_at [OF assms(3), of "0xC0" "0x0C # post"]
      list_get_at [of "p + 1" "pre @ out @ mid @ [0xC0]" "0x0C" post] assms(3) by simp_all
  moreover have "unat (0xC0 AND 0x3F :: u8) * 256 + unat (0x0C :: u8) = 12" by simp
  moreover have "\<exists>ls. decode_name_loop ?msg 12 (Some (p + 2)) 1 0 = Some (ls, p + 2)"
    using decode_encode_any [OF assms(1), of pre "mid @ 0xC0 # 0x0C # post" "Some (p + 2)" 1] assms(2) by simp
  ultimately have "\<exists>ls. decode_name_loop ?msg p None 0 0 = Some (ls, p + 2)"
    using assms(2) by (subst decode_name_loop.simps) (auto simp: Let_def)
  then show ?thesis by (auto simp: decode_name_def)
qed

lemma txt_strings_chunks: "txt_strings (txt_chunks payload) = payload"
proof (induction payload rule: txt_chunks.induct)
  case (1 payload)
  show ?case
  proof (cases "payload = []")
    case True
    then show ?thesis by (simp add: txt_chunks.simps txt_strings.simps)
  next
    case False
    define c where "c = take MAX_TXT_CHUNK payload"
    have n: "unat (word_of_nat (length c) :: u8) = length c"
      by (simp add: unsigned_of_nat take_bit_eq_mod MAX_TXT_CHUNK_def c_def)
    have "txt_chunks payload = word_of_nat (length c) # c @ txt_chunks (drop MAX_TXT_CHUNK payload)"
      using False by (subst txt_chunks.simps) (simp add: c_def Let_def del: length_take)
    then have "txt_strings (txt_chunks payload) = c @ drop MAX_TXT_CHUNK payload"
      using "1.IH" [OF False refl] n by (subst txt_strings.simps) simp
    then show ?thesis by (simp add: c_def)
  qed
qed

lemma txt_strings_rdata: "txt_strings (txt_rdata payload) = payload"
  using txt_strings_chunks [of payload] by (auto simp: txt_rdata_def txt_strings.simps)

lemma length_txt_chunks: "length (txt_chunks payload) = length payload + (length payload + 254) div 255"
proof (induction payload rule: txt_chunks.induct)
  case (1 payload)
  show ?case
  proof (cases "payload = []")
    case True
    then show ?thesis by (simp add: txt_chunks.simps)
  next
    case False
    from "1.IH" [OF False refl]
    have IH: "length (txt_chunks (drop 255 payload)) =
        (length payload - 255) + (length payload - 255 + 254) div 255" by (simp add: MAX_TXT_CHUNK_def)
    show ?thesis
    proof (cases "length payload \<le> 255")
      case True
      moreover from False have "0 < length payload" by simp
      ultimately have "(length payload + 254) div 255 = 1" by linarith
      with True False IH show ?thesis
        by (subst txt_chunks.simps) (simp add: MAX_TXT_CHUNK_def)
    next
      case big: False
      then have "(length payload + 254) div 255 = (length payload - 255 + 254) div 255 + 1" by linarith
      with big False IH show ?thesis
        by (subst txt_chunks.simps) (simp add: MAX_TXT_CHUNK_def)
    qed
  qed
qed

lemma length_txt_rdata: "length (txt_rdata payload) = length payload + max 1 ((length payload + 254) div 255)"
proof (cases "payload = []")
  case False
  then have "1 \<le> (length payload + 254) div 255" by (cases payload) auto
  with False show ?thesis by (simp add: txt_rdata_def length_txt_chunks)
qed (simp add: txt_rdata_def)

lemma length_encode_response:
  assumes "encode_response rid name payload rd opt = Some msg" "encode_name name = Some n"
  shows "length msg = 12 + length n + 4 + 12 + length (txt_rdata payload) + (if opt then 11 else 0)"
  using assms by (auto simp: encode_response_def edns0_opt_response_def Let_def)

lemma walk_finds_txt:
  assumes q: "decode_name msg p = Some (s, length pre)"
    and msg: "msg = pre @ to_be TYPE_TXT @ mid @ to_be (word_of_nat (length rdata) :: u16) @ rdata @ post"
    and "length mid = 6" "length rdata < 65536" "0 < n"
  shows "walk_answers n msg p = Some (txt_strings rdata)"
proof -
  obtain m where n: "n = Suc m" using assms(5) by (cases n) auto
  obtain t0 t1 where t: "list_get msg (length pre) = Some t0" "list_get msg (length pre + 1) = Some t1"
    "from_be [t0, t1] = TYPE_TXT"
    unfolding msg by (rule list_get_u16 [OF refl])
  let ?pre = "pre @ to_be TYPE_TXT @ mid"
  have msg2: "msg = ?pre @ to_be (word_of_nat (length rdata) :: u16) @ rdata @ post" by (simp add: msg)
  have p: "length pre + 8 = length ?pre" using assms(3) by simp
  obtain l0 l1 where l: "list_get msg (length pre + 8) = Some l0" "list_get msg (length pre + 8 + 1) = Some l1"
    "from_be [l0, l1] = (word_of_nat (length rdata) :: u16)"
    unfolding msg2 by (rule list_get_u16 [OF p])
  have rd: "unat (word_of_nat (length rdata) :: u16) = length rdata"
    using assms(4) by (simp add: unsigned_of_nat take_bit_eq_mod)
  have "slice_get msg (length pre + 10) (length pre + 10 + length rdata) = Some rdata"
    using slice_get_at [of "length pre + 10" "?pre @ to_be (word_of_nat (length rdata) :: u16)" _ rdata post] assms(3)
    unfolding msg2 by simp
  with n q t l rd show ?thesis by (simp add: Let_def add.commute)
qed

lemma parse_encode_response:
  assumes "encode_response rid name payload rd opt = Some msg" "length (txt_rdata payload) < 65536"
  shows "parse_response msg = Some (rid, payload)"
proof -
  obtain n where n: "encode_name name = Some n" using assms(1) by (auto simp: encode_response_def Let_def split: option.splits)
  define h where "h = \<lparr>hdr_id = rid, hdr_flags = (FLAG_QR OR FLAG_AA) OR (if rd then FLAG_RD else 0), hdr_qd = 1, hdr_an = 1,
    hdr_ns = 0, hdr_ar = (if opt then 1 else 0)\<rparr>"
  define post where "post = (if opt then edns0_opt_response else [])"
  define mid where "mid = to_be CLASS_IN @ to_be RESPONSE_TTL"
  define q where "q = to_be TYPE_TXT @ to_be CLASS_IN"
  define tail where "tail = to_be TYPE_TXT @ mid @ to_be (word_of_nat (length (txt_rdata payload)) :: u16) @ txt_rdata payload @ post"
  have m: "msg = Header_write h @ n @ q @ 0xC0 # 0x0C # tail"
    using assms(1) n by (auto simp: encode_response_def Let_def h_def post_def mid_def q_def tail_def)
  have hd: "Header_read msg = Some h" unfolding m by (rule Header_read_write)
  have "\<exists>s. decode_name msg 12 = Some (s, 12 + length n)"
    using decode_encode_any [OF n, of "Header_write h" "q @ 0xC0 # 0x0C # tail" None 0]
    unfolding m by (simp add: decode_name_def)
  then have skip: "skip_questions 1 msg 12 = Some (16 + length n)" by (auto simp: numeral_eq_Suc)
  obtain s where "decode_name msg (16 + length n) = Some (s, 16 + length n + 2)"
    using decode_pointer [OF n, of "Header_write h" "16 + length n" q tail] unfolding m by (auto simp: q_def)
  then have s: "decode_name msg (16 + length n) = Some (s, length (Header_write h @ n @ q @ [0xC0, 0x0C]))"
    by (simp add: q_def)
  have "walk_answers 1 msg (16 + length n) = Some (txt_strings (txt_rdata payload))"
    by (rule walk_finds_txt [OF s, of mid _ post]) (use assms(2) in \<open>simp_all add: m tail_def mid_def\<close>)
  moreover have "hdr_flags h AND FLAG_QR \<noteq> 0"
    by (simp add: h_def dns_consts bit.conj_disj_distrib2)
  ultimately show ?thesis
    using hd skip by (simp add: parse_response_def h_def txt_strings_rdata)
qed

section \<open>Decoded names are bounded\<close>

lemma length_utf8_lossy: "length (utf8_lossy bs) \<le> 3 * length bs"
  by (induction bs rule: utf8_lossy.induct) (fastforce simp: replacement_def Let_def)+

lemma decode_loop_bounded:
  assumes "decode_name_loop msg p na hops t = Some (labels, e)" "t \<le> MAX_NAME"
  shows "3 * t + sum_list (map (\<lambda>l. length l + 3) labels) \<le> 3 * MAX_NAME"
  using assms
proof (induction msg p na hops t arbitrary: labels e rule: decode_name_loop.induct)
  case (1 msg p na hops t)
  obtain b where b: "list_get msg p = Some b"
    using "1.prems"(1) by (subst (asm) decode_name_loop.simps) (auto split: option.splits)
  consider (root) "unat b = 0" | (pointer) "unat b \<noteq> 0" "b AND 0xC0 = 0xC0" | (label) "unat b \<noteq> 0" "b AND 0xC0 \<noteq> 0xC0"
    by blast
  then show ?case
  proof cases
    case root
    with b "1.prems" show ?thesis by (subst (asm) decode_name_loop.simps) simp
  next
    case pointer
    with b "1.prems"(1) obtain b2 where "list_get msg (p + 1) = Some b2"
      by (subst (asm) decode_name_loop.simps) (auto simp: Let_def split: option.splits)
    with pointer b "1.prems" "1.IH"(1) [OF b refl pointer this refl refl] show ?thesis
      by (subst (asm) decode_name_loop.simps) (auto simp: Let_def split: option.splits if_splits)
  next
    case label
    let ?t = "t + (unat b + 1)"
    have ok: "unat b \<le> MAX_LABEL" "?t \<le> MAX_NAME"
      using b label "1.prems"(1)
      by (subst (asm) decode_name_loop.simps, simp add: Let_def split: if_splits)+
    with b label "1.prems"(1) obtain l ls where
      l: "slice_get msg (p + 1) (p + 1 + unat b) = Some l"
         "decode_name_loop msg (p + 1 + unat b) na hops ?t = Some (ls, e)" "labels = utf8_lossy l # ls"
      by (subst (asm) decode_name_loop.simps) (auto simp: Let_def split: option.splits)
    have "length l = unat b" using l(1) by (auto simp: slice_get_def split: if_splits)
    then have "length (utf8_lossy l) \<le> 3 * unat b" using length_utf8_lossy [of l] by simp
    moreover have "3 * ?t + sum_list (map (\<lambda>l. length l + 3) ls) \<le> 3 * MAX_NAME"
      by (rule "1.IH"(2) [OF b refl label _ _ l(1) l(2)]) (use ok in simp_all)
    ultimately show ?thesis by (simp add: l(3))
  qed
qed

lemma length_join_dots: "length (join_dots ls) \<le> sum_list (map (\<lambda>l. length l + 3) ls)"
proof -
  have "length (concat (map (\<lambda>x. 0x2E # x) ks)) \<le> sum_list (map (\<lambda>l. length l + 3) ks)" for ks
    by (induction ks) auto
  then show ?thesis by (cases ls) (auto simp: join_dots_def intro: add_mono le_SucI trans_le_add2)
qed

lemma decode_name_bounded: "decode_name msg pos = Some (name, e) \<Longrightarrow> length name \<le> 3 * MAX_NAME"
  using decode_loop_bounded [of msg pos None 0 0] length_join_dots
  by (fastforce simp: decode_name_def split: option.splits dest: order.trans)

end
