(* ===== verification/Dnstt_Arq.thy ===== *)
theory Dnstt_Arq
  imports Dnstt_Dns
begin

unbundle bit_operations_syntax

text \<open>
  The packets of the DNS tunnel (\<open>crates/transport-dnstt/src/arq.rs\<close>): the whitened header, the
  query name that carries an upstream packet, and the upstream payload budget.  BLAKE3 is a
  parameter \<open>blake3\<close> (only the length of its digest matters), and the outcome of
  \<open>getrandom::fill\<close> is an argument \<open>rnd\<close>, \<open>None\<close> when it fails.  Shown here: decoding inverts
  encoding, a packet survives the trip through a query name, a DNS query and the server's parser,
  and a packet within the client's budget always fits a legal query.
\<close>

definition HEADER_LEN :: nat where "HEADER_LEN = 13"
definition HEADER_NONCE_LEN :: nat where "HEADER_NONCE_LEN = 3"
definition FLAG_SYN :: u8 where "FLAG_SYN = 0x01"
definition FLAG_FIN :: u8 where "FLAG_FIN = 0x02"

lemmas arq_consts = HEADER_LEN_def HEADER_NONCE_LEN_def FLAG_SYN_def FLAG_FIN_def

record Packet =
  pkt_session :: u32
  pkt_seq :: u32
  pkt_ack :: u32
  pkt_flags :: u8
  pkt_data :: bytes

text \<open>\<open>b"mirage-dnstt-hdr-v1"\<close>\<close>

definition hdr_domain :: bytes where
  "hdr_domain = [0x6D, 0x69, 0x72, 0x61, 0x67, 0x65, 0x2D, 0x64, 0x6E, 0x73, 0x74, 0x74, 0x2D, 0x68, 0x64,
     0x72, 0x2D, 0x76, 0x31]"

definition header_keystream :: "(bytes \<Rightarrow> bytes) \<Rightarrow> bytes \<Rightarrow> bytes" where
  "header_keystream blake3 nonce = take HEADER_LEN (blake3 (hdr_domain @ nonce))"

definition Packet_encode :: "(bytes \<Rightarrow> bytes) \<Rightarrow> bytes option \<Rightarrow> Packet \<Rightarrow> bytes" where
  "Packet_encode blake3 rnd p =
     (let nonce = (case rnd of
                     Some r \<Rightarrow> r
                   | None \<Rightarrow> take HEADER_NONCE_LEN (to_be ((pkt_seq p XOR pkt_ack p) XOR pkt_session p)));
          ks = header_keystream blake3 nonce;
          hdr = to_be (pkt_session p) @ to_be (pkt_seq p) @ to_be (pkt_ack p) @ [pkt_flags p]
      in nonce @ map2 (XOR) hdr ks @ pkt_data p)"

definition Packet_decode :: "(bytes \<Rightarrow> bytes) \<Rightarrow> bytes \<Rightarrow> Packet option" where
  "Packet_decode blake3 buf =
     (if length buf < HEADER_NONCE_LEN + HEADER_LEN then None
      else
        let nonce = take HEADER_NONCE_LEN buf;
            ks = header_keystream blake3 nonce;
            hdr = map (\<lambda>i. buf ! (HEADER_NONCE_LEN + i) XOR ks ! i) [0..<HEADER_LEN];
            g4 = (\<lambda>i. from_be [hdr ! i, hdr ! (i + 1), hdr ! (i + 2), hdr ! (i + 3)])
        in Some \<lparr>pkt_session = g4 0, pkt_seq = g4 4, pkt_ack = g4 8, pkt_flags = hdr ! 12,
                 pkt_data = drop (HEADER_NONCE_LEN + HEADER_LEN) buf\<rparr>)"

text \<open>The loop of \<open>to_query_name\<close>: labels of at most 63 characters, each with its dot.\<close>

function query_labels :: "bytes \<Rightarrow> bytes option" where
  "query_labels b32 =
     (if b32 = [] then Some []
      else if \<not> valid_utf8 (take 63 b32) then None
      else case query_labels (drop 63 b32) of
        None \<Rightarrow> None
      | Some rest \<Rightarrow> Some (take 63 b32 @ [0x2E] @ rest))"
  by pat_completeness auto
termination by (relation "measure length") auto

declare query_labels.simps [simp del]

definition trim_start_dots :: "bytes \<Rightarrow> bytes" where
  "trim_start_dots s = dropWhile (\<lambda>c. c = 0x2E) s"

definition trim_end_dots :: "bytes \<Rightarrow> bytes" where
  "trim_end_dots s = rev (dropWhile (\<lambda>c. c = 0x2E) (rev s))"

definition strip_suffix :: "bytes \<Rightarrow> bytes \<Rightarrow> bytes option" where
  "strip_suffix s suf =
     (if length suf \<le> length s \<and> drop (length s - length suf) s = suf
      then Some (take (length s - length suf) s) else None)"

definition to_query_name :: "(bytes \<Rightarrow> bytes) \<Rightarrow> bytes option \<Rightarrow> Packet \<Rightarrow> bytes \<Rightarrow> bytes option" where
  "to_query_name blake3 rnd p tunnel_domain =
     (case query_labels (base32_encode (Packet_encode blake3 rnd p)) of
        None \<Rightarrow> None
      | Some ls \<Rightarrow>
          let name = ls @ trim_start_dots tunnel_domain in
          if length name + 2 > 253 then None else Some name)"

definition from_query_name :: "(bytes \<Rightarrow> bytes) \<Rightarrow> bytes \<Rightarrow> bytes \<Rightarrow> Packet option" where
  "from_query_name blake3 qname tunnel_domain =
     (let q = map ascii_lower qname;
          dom = map ascii_lower (trim_start_dots tunnel_domain)
      in case strip_suffix q dom of
           None \<Rightarrow> None
         | Some s \<Rightarrow>
             let prefix = trim_end_dots s;
                 b32 = concat (filter (\<lambda>l. l \<noteq> []) (split_on 0x2E prefix))
             in case base32_decode b32 of
                  None \<Rightarrow> None
                | Some raw \<Rightarrow> Packet_decode blake3 raw)"

definition max_upstream_data :: "bytes \<Rightarrow> nat" where
  "max_upstream_data tunnel_domain =
     (let dom = length (trim_start_dots tunnel_domain);
          avail = 253 - (dom + 8);
          b32_chars = avail * 63 div 64;
          raw = b32_chars * 5 div 8
      in raw - HEADER_LEN)"

section \<open>Packets survive the wire\<close>

definition nonce_of :: "bytes option \<Rightarrow> Packet \<Rightarrow> bytes" where
  "nonce_of rnd p = (case rnd of
     Some r \<Rightarrow> r
   | None \<Rightarrow> take HEADER_NONCE_LEN (to_be ((pkt_seq p XOR pkt_ack p) XOR pkt_session p)))"

definition plain_header :: "Packet \<Rightarrow> bytes" where
  "plain_header p = to_be (pkt_session p) @ to_be (pkt_seq p) @ to_be (pkt_ack p) @ [pkt_flags p]"

text \<open>What the model relies on: a digest of 32 bytes, and three random bytes when there are any.\<close>

definition env_ok :: "(bytes \<Rightarrow> bytes) \<Rightarrow> bytes option \<Rightarrow> bool" where
  "env_ok blake3 rnd \<longleftrightarrow> (\<forall>x. length (blake3 x) = 32) \<and> (\<forall>r. rnd = Some r \<longrightarrow> length r = HEADER_NONCE_LEN)"

lemma Packet_encode_eq:
  "Packet_encode blake3 rnd p =
     nonce_of rnd p @ map2 (XOR) (plain_header p) (header_keystream blake3 (nonce_of rnd p)) @ pkt_data p"
  by (simp add: Packet_encode_def nonce_of_def plain_header_def Let_def)

lemma length_nonce: "env_ok blake3 rnd \<Longrightarrow> length (nonce_of rnd p) = 3"
  by (simp add: env_ok_def nonce_of_def HEADER_NONCE_LEN_def split: option.splits)

lemma length_keystream: "env_ok blake3 rnd \<Longrightarrow> length (header_keystream blake3 n) = 13"
  by (simp add: env_ok_def header_keystream_def HEADER_LEN_def)

lemma length_plain_header [simp]: "length (plain_header p) = 13"
  by (simp add: plain_header_def)

lemma length_Packet_encode: "env_ok blake3 rnd \<Longrightarrow> length (Packet_encode blake3 rnd p) = 16 + length (pkt_data p)"
  by (simp add: Packet_encode_eq length_nonce length_keystream)

lemma unwhiten:
  assumes "length h = n" "length ks = n" "length pre = m"
  shows "map (\<lambda>i. (pre @ map2 (XOR) h ks @ post) ! (m + i) XOR ks ! i) [0..<n] = (h :: u8 list)"
proof (rule nth_equalityI)
  fix i assume "i < length (map (\<lambda>i. (pre @ map2 (XOR) h ks @ post) ! (m + i) XOR ks ! i) [0..<n])"
  with assms show "map (\<lambda>i. (pre @ map2 (XOR) h ks @ post) ! (m + i) XOR ks ! i) [0..<n] ! i = h ! i"
    by (simp add: nth_append xor.assoc)
qed (use assms in simp)

lemma to_be_u32: "\<exists>a b c d. to_be (w :: u32) = [a, b, c, d] \<and> from_be [a, b, c, d] = w"
proof -
  have "length (to_be w) = Suc (Suc (Suc (Suc 0)))" by simp
  then obtain a b c d where "to_be w = [a, b, c, d]"
    by (auto simp only: length_Suc_conv length_0_conv)
  moreover from this have "from_be [a, b, c, d] = w" by (metis from_be_to_be_u32)
  ultimately show ?thesis by blast
qed

lemma decode_encode_packet:
  assumes "env_ok blake3 rnd"
  shows "Packet_decode blake3 (Packet_encode blake3 rnd p) = Some p"
proof -
  let ?n = "nonce_of rnd p" and ?ks = "header_keystream blake3 (nonce_of rnd p)"
  let ?buf = "?n @ map2 (XOR) (plain_header p) ?ks @ pkt_data p"
  have h: "map (\<lambda>i. ?buf ! (3 + i) XOR ?ks ! i) [0..<13] = plain_header p"
    by (rule unwhiten) (simp_all add: length_nonce [OF assms] length_keystream [OF assms])
  have t: "take 3 ?buf = ?n" "drop (3 + 13) ?buf = pkt_data p"
    by (simp_all add: length_nonce [OF assms] length_keystream [OF assms])
  obtain a1 b1 c1 d1 a2 b2 c2 d2 a3 b3 c3 d3 where
    "to_be (pkt_session p) = [a1, b1, c1, d1]" "from_be [a1, b1, c1, d1] = pkt_session p"
    "to_be (pkt_seq p) = [a2, b2, c2, d2]" "from_be [a2, b2, c2, d2] = pkt_seq p"
    "to_be (pkt_ack p) = [a3, b3, c3, d3]" "from_be [a3, b3, c3, d3] = pkt_ack p"
    using to_be_u32 by metis
  then have "Some p = (let hdr = plain_header p; g4 = (\<lambda>i. from_be [hdr ! i, hdr ! (i + 1), hdr ! (i + 2), hdr ! (i + 3)])
      in Some \<lparr>pkt_session = g4 0, pkt_seq = g4 4, pkt_ack = g4 8, pkt_flags = hdr ! 12, pkt_data = pkt_data p\<rparr>)"
    by (simp add: plain_header_def Let_def)
  moreover have "\<not> length ?buf < 3 + 13" by (simp add: length_nonce [OF assms] length_keystream [OF assms])
  ultimately show ?thesis
    unfolding Packet_decode_def Packet_encode_eq arq_consts by (simp only: t h Let_def if_False)
qed

section \<open>Query names\<close>

lemma split_on_append: "split_on c (xs @ c # ys) = split_on c xs @ split_on c ys"
proof (induction xs)
  case (Cons x xs)
  obtain z zs where "split_on c xs = z # zs" by (cases "split_on c xs") auto
  with Cons show ?case by simp
qed simp

lemma split_on_none: "c \<notin> set xs \<Longrightarrow> split_on c xs = [xs]"
  by (induction xs) auto

lemma concat_split_on: "concat (filter (\<lambda>l. l \<noteq> []) (split_on c xs)) = filter (\<lambda>x. x \<noteq> c) xs"
proof (induction xs)
  case (Cons x xs)
  obtain z zs where "split_on c xs = z # zs" by (cases "split_on c xs") auto
  with Cons show ?case by (cases z) auto
qed simp

lemma filter_trim_end: "filter (\<lambda>x. x \<noteq> 0x2E) (trim_end_dots s) = filter (\<lambda>x. x \<noteq> 0x2E) s"
proof -
  have "filter (\<lambda>x. x \<noteq> 0x2E) (dropWhile (\<lambda>c. c = 0x2E) t) = filter (\<lambda>x. x \<noteq> 0x2E) t" for t :: bytes
    by (induction t) auto
  then show ?thesis by (simp add: trim_end_dots_def flip: rev_filter)
qed

text \<open>The characters base32 emits: ASCII, already lower case, never a dot.\<close>

definition b32_ok :: "u8 \<Rightarrow> bool" where
  "b32_ok c \<longleftrightarrow> c < 0x80 \<and> ascii_lower c = c \<and> c \<noteq> 0x2E"

lemma b32_alphabet_ok: "list_all b32_ok B32_ALPHABET"
  by code_simp

lemma base32_encode_ok: "list_all b32_ok (base32_encode data)"
proof -
  obtain vs where vs: "base32_encode data = map b32_char vs" "list_all five_bit vs"
    using base32_encode_chars by blast
  have "b32_ok (b32_char v)" if "five_bit v" for v
    using b32_alphabet_ok that
    by (simp add: b32_char_def five_bit_def list_all_length B32_ALPHABET_def word_less_nat_alt del: upt_rec_numeral)
  with vs show ?thesis by (auto simp: list_all_iff)
qed

lemma length_base32_encode: "length (base32_encode data) = (8 * length data + 4) div 5"
  using base32_encode_chars [of data] by auto

lemma chunk_count:
  assumes "0 < n"
  shows "(n - 63 + 62) div 63 + 1 = (n + 62) div (63 :: nat)"
proof (cases "n \<le> 63")
  case True
  then have "n - 63 = 0" "(n + 62) div 63 = 1" using assms by (simp, linarith)
  then show ?thesis by simp
next
  case False
  then show ?thesis by linarith
qed

lemma query_labels_spec:
  assumes "list_all b32_ok s"
  shows "\<exists>out. query_labels s = Some out \<and> filter (\<lambda>x. x \<noteq> 0x2E) out = s \<and> map ascii_lower out = out \<and>
    length out = length s + (length s + 62) div 63 \<and> list_all (\<lambda>c. c < 0x80) out \<and>
    (\<forall>d. \<exists>ls. split_on 0x2E (out @ d) = ls @ split_on 0x2E d \<and> list_all (\<lambda>l. l \<noteq> [] \<and> length l \<le> 63) ls)"
  using assms
proof (induction s rule: query_labels.induct)
  case (1 s)
  show ?case
  proof (cases "s = []")
    case True
    then show ?thesis by (simp add: query_labels.simps)
  next
    case False
    have ok: "list_all b32_ok (take 63 s)" "list_all b32_ok (drop 63 s)"
      using "1.prems" by (auto simp: list_all_iff dest: in_set_takeD in_set_dropD)
    have v: "valid_utf8 (take 63 s)"
      using ok(1) by (intro valid_utf8_ascii) (auto simp: list_all_iff b32_ok_def)
    obtain out where out: "query_labels (drop 63 s) = Some out" "filter (\<lambda>x. x \<noteq> 0x2E) out = drop 63 s"
      "map ascii_lower out = out" "length out = length (drop 63 s) + (length (drop 63 s) + 62) div 63"
      "list_all (\<lambda>c. c < 0x80) out"
      "\<And>d. \<exists>ls. split_on 0x2E (out @ d) = ls @ split_on 0x2E d \<and> list_all (\<lambda>l. l \<noteq> [] \<and> length l \<le> 63) ls"
      using "1.IH" [OF False _ ok(2)] v by auto
    let ?o = "take 63 s @ [0x2E] @ out"
    have 1: "query_labels s = Some ?o" using False v out(1) by (subst query_labels.simps) simp
    have 2: "filter (\<lambda>x. x \<noteq> 0x2E) ?o = s"
    proof -
      have "filter (\<lambda>x. x \<noteq> 0x2E) (take 63 s) = take 63 s"
        using ok(1) by (auto simp: list_all_iff b32_ok_def filter_id_conv)
      then show ?thesis using out(2) by simp
    qed
    have 3: "map ascii_lower ?o = ?o"
      using ok(1) out(3) by (auto simp: list_all_iff b32_ok_def ascii_lower_def intro!: map_idI)
    have 4: "length ?o = length s + (length s + 62) div 63"
    proof -
      have "0 < length s" using False by simp
      then have "(length s - 63 + 62) div 63 + 1 = (length s + 62) div 63"
        by (rule chunk_count)
      moreover have "min (length s) 63 + (length s - 63) = length s" by simp
      ultimately show ?thesis using out(4) by simp
    qed
    have 5: "list_all (\<lambda>c. c < 0x80) ?o" using ok(1) out(5) by (auto simp: list_all_iff b32_ok_def)
    have 6: "\<exists>ls. split_on 0x2E (?o @ d) = ls @ split_on 0x2E d \<and> list_all (\<lambda>l. l \<noteq> [] \<and> length l \<le> 63) ls" for d
    proof -
      obtain ls where ls: "split_on 0x2E (out @ d) = ls @ split_on 0x2E d" "list_all (\<lambda>l. l \<noteq> [] \<and> length l \<le> 63) ls"
        using out(6) by blast
      have "0x2E \<notin> set (take 63 s)" using ok(1) by (auto simp: list_all_iff b32_ok_def)
      then have "split_on 0x2E (?o @ d) = (take 63 s # ls) @ split_on 0x2E d"
        using split_on_append [of "0x2E" "take 63 s" "out @ d"] ls(1) by (simp add: split_on_none)
      moreover have "list_all (\<lambda>l. l \<noteq> [] \<and> length l \<le> 63) (take 63 s # ls)" using ls(2) False by simp
      ultimately show ?thesis by blast
    qed
    from 1 2 3 4 5 6 show ?thesis by blast
  qed
qed

lemma strip_suffix_append: "strip_suffix (xs @ ys) ys = Some xs"
  by (simp add: strip_suffix_def)

lemma strip_suffix_eq: "strip_suffix s suf = Some t \<Longrightarrow> s = t @ suf"
  by (auto simp: strip_suffix_def split: if_splits intro: append_take_drop_id [symmetric, of s, THEN trans])

lemma from_to_query_name:
  assumes "env_ok blake3 rnd" "to_query_name blake3 rnd p dn = Some name"
  shows "from_query_name blake3 name dn = Some p"
proof -
  let ?b = "base32_encode (Packet_encode blake3 rnd p)"
  obtain out where out: "query_labels ?b = Some out" "filter (\<lambda>x. x \<noteq> 0x2E) out = ?b" "map ascii_lower out = out"
    using query_labels_spec [OF base32_encode_ok] by blast
  have name: "name = out @ trim_start_dots dn"
    using assms(2) out(1) by (auto simp: to_query_name_def Let_def split: if_splits)
  have "concat (filter (\<lambda>l. l \<noteq> []) (split_on 0x2E (trim_end_dots out))) = ?b"
    by (simp add: concat_split_on filter_trim_end out(2))
  then show ?thesis
    by (simp add: from_query_name_def name out(3) strip_suffix_append Let_def base32_decode_encode
        decode_encode_packet [OF assms(1)])
qed

lemma plain_name_ends:
  assumes "plain_name d"
  shows "d \<noteq> []" "hd d \<noteq> 0x2E" "last d \<noteq> 0x2E"
proof -
  have ne: "[] \<notin> set (split_on 0x2E d)" using assms by (auto simp: plain_name_def list_all_iff)
  show d: "d \<noteq> []" using ne by auto
  show "hd d \<noteq> 0x2E" using ne d by (cases d) auto
  show "last d \<noteq> 0x2E"
  proof
    assume "last d = 0x2E"
    then have "d = butlast d @ 0x2E # []" using d by (metis append_butlast_last_id)
    then have "split_on 0x2E d = split_on 0x2E (butlast d) @ [[]]" by (metis split_on_append split_on.simps(1))
    with ne show False by simp
  qed
qed

lemma trim_start_plain: "plain_name d \<Longrightarrow> trim_start_dots d = d"
  using plain_name_ends [of d] by (cases d) (auto simp: trim_start_dots_def)

lemma trim_start_dot: "plain_name d \<Longrightarrow> trim_start_dots (d @ [0x2E]) = d @ [0x2E]"
  using plain_name_ends [of d] by (cases d) (auto simp: trim_start_dots_def)

lemma to_query_name_name:
  assumes "to_query_name blake3 rnd p dn = Some name"
  obtains out where "name = out @ trim_start_dots dn" "length name \<le> 251"
    "list_all (\<lambda>c. c < 0x80 \<and> ascii_lower c = c) out"
    "\<And>d. \<exists>ls. split_on 0x2E (out @ d) = ls @ split_on 0x2E d \<and> list_all (\<lambda>l. l \<noteq> [] \<and> length l \<le> 63) ls"
proof -
  let ?b = "base32_encode (Packet_encode blake3 rnd p)"
  obtain out where out: "query_labels ?b = Some out" "map ascii_lower out = out" "list_all (\<lambda>c. c < 0x80) out"
    "\<And>d. \<exists>ls. split_on 0x2E (out @ d) = ls @ split_on 0x2E d \<and> list_all (\<lambda>l. l \<noteq> [] \<and> length l \<le> 63) ls"
    using query_labels_spec [OF base32_encode_ok] by blast
  have "list_all (\<lambda>c. ascii_lower c = c) out" using out(2) by (induction out) auto
  with out(3) have "list_all (\<lambda>c. c < 0x80 \<and> ascii_lower c = c) out" by (simp add: list_all_iff)
  moreover have "name = out @ trim_start_dots dn" "length name \<le> 251"
    using assms out(1) by (auto simp: to_query_name_def Let_def split: if_splits)
  ultimately show thesis using that out(4) by blast
qed

lemma encode_labels_some:
  "encode_labels ls = None \<longleftrightarrow> \<not> list_all (\<lambda>l. length l \<le> MAX_LABEL) ls"
  by (induction ls) (auto split: option.splits)

lemma short_labels: "encode_name s \<noteq> None \<Longrightarrow> list_all (\<lambda>l. length l \<le> MAX_LABEL) (split_on 0x2E s)"
  using encode_labels_some [of "split_on 0x2E s"] by (auto simp: encode_name_def split: option.splits)

lemma sum_split_on: "sum_list (map (\<lambda>l. length l + 1) (split_on c s)) = length s + 1"
proof (induction s)
  case (Cons x xs)
  obtain z zs where "split_on c xs = z # zs" by (cases "split_on c xs") auto
  with Cons show ?case by simp
qed simp

lemma sum_filter_le: "sum_list (map (\<lambda>l. length l + 1) (filter P ls)) \<le> sum_list (map (\<lambda>l. length l + 1) ls)"
  by (induction ls) auto

lemma encode_name_some:
  assumes "list_all (\<lambda>l. length l \<le> MAX_LABEL) (split_on 0x2E name)" "length name \<le> 253"
  shows "\<exists>out. encode_name name = Some out"
proof -
  obtain out where o: "encode_labels (split_on 0x2E name) = Some out"
    using assms(1) encode_labels_some by blast
  have "length out \<le> length name + 2"
    using encode_labels_length [OF o] sum_filter_le [of "\<lambda>l. l \<noteq> []" "split_on 0x2E name"] sum_split_on [of "0x2E" name]
    by linarith
  then show ?thesis using assms(2) o by (simp add: encode_name_def MAX_NAME_def)
qed

lemma query_name_plain:
  assumes "to_query_name blake3 rnd p dn = Some name" "plain_name dn" "encode_name dn \<noteq> None"
  shows "plain_name name" "\<exists>n. encode_name name = Some n"
proof -
  obtain out where out: "name = out @ dn" "length name \<le> 251" "list_all (\<lambda>c. c < 0x80 \<and> ascii_lower c = c) out"
    "\<And>d. \<exists>ls. split_on 0x2E (out @ d) = ls @ split_on 0x2E d \<and> list_all (\<lambda>l. l \<noteq> [] \<and> length l \<le> 63) ls"
    by (rule to_query_name_name [OF assms(1), unfolded trim_start_plain [OF assms(2)]]) blast
  obtain ls where ls: "split_on 0x2E name = ls @ split_on 0x2E dn" "list_all (\<lambda>l. l \<noteq> [] \<and> length l \<le> 63) ls"
    using out(4) [of dn] out(1) by auto
  show "plain_name name"
    using assms(2) ls out(1,3) by (auto simp: plain_name_def list_all_iff)
  have "list_all (\<lambda>l. length l \<le> MAX_LABEL) (split_on 0x2E name)"
    using ls short_labels [OF assms(3)] by (auto simp: list_all_iff MAX_LABEL_def)
  then show "\<exists>n. encode_name name = Some n" using out(2) by (intro encode_name_some) auto
qed

text \<open>The arithmetic of the budget.\<close>

lemma budget_fits:
  assumes "length (trim_start_dots dn) \<le> 224" "d \<le> max_upstream_data dn"
  shows "(8 * (16 + d) + 4) div 5 + ((8 * (16 + d) + 4) div 5 + 62) div 63 + length (trim_start_dots dn) + 2 \<le> 253"
proof -
  define n where "n = length (trim_start_dots dn)"
  define c where "c = (253 - (n + 8)) * 63 div 64"
  have d: "d \<le> c * 5 div 8 - 13" using assms(2) by (simp add: max_upstream_data_def Let_def n_def c_def HEADER_LEN_def)
  have n: "n \<le> 224" using assms(1) by (simp add: n_def)
  define r where "r = c * 5 div 8"
  define L where "L = (8 * (16 + d) + 4) div 5"
  have "L + (L + 62) div 63 + n + 2 \<le> 253"
  proof (cases "d = 0")
    case True
    then have "L = 26" by (simp add: L_def)
    then show ?thesis using n by simp
  next
    case False
    have c: "64 * c \<le> (245 - n) * 63" by (simp add: c_def)
    have r: "r * 8 \<le> c * 5" unfolding r_def by (rule div_times_less_eq_dividend)
    have "d + 13 \<le> r" using d False by (simp add: r_def)
    with r have "8 * (d + 13) \<le> 5 * c" by presburger
    moreover have "5 * L \<le> 8 * (16 + d) + 4" unfolding L_def by simp
    ultimately have "5 * L \<le> 5 * c + 28" by presburger
    then have L: "L \<le> c + 5" by presburger
    define k where "k = (L + 62) div 63"
    have "k * 63 \<le> L + 62" unfolding k_def by (rule div_times_less_eq_dividend)
    moreover from c have "64 * c \<le> (245 - n) * 63" "245 - n + n = 245" using n by simp_all
    ultimately have "L + k + n + 2 \<le> 253" using L by linarith
    then show ?thesis by (simp add: k_def)
  qed
  then show ?thesis by (simp add: L_def n_def)
qed

lemma to_query_name_some:
  assumes "env_ok blake3 rnd" "length (trim_start_dots dn) \<le> 224" "length (pkt_data p) \<le> max_upstream_data dn"
  shows "\<exists>name. to_query_name blake3 rnd p dn = Some name"
proof -
  let ?b = "base32_encode (Packet_encode blake3 rnd p)"
  obtain out where out: "query_labels ?b = Some out" "length out = length ?b + (length ?b + 62) div 63"
    using query_labels_spec [OF base32_encode_ok] by metis
  have "length ?b = (8 * (16 + length (pkt_data p)) + 4) div 5"
    by (simp add: length_base32_encode length_Packet_encode [OF assms(1)])
  with out(2) budget_fits [OF assms(2,3)] have "length (out @ trim_start_dots dn) + 2 \<le> 253" by simp
  then show ?thesis using out(1) by (simp add: to_query_name_def Let_def)
qed

text \<open>
  A packet whose payload is within \<open>max_upstream_data\<close> always becomes a legal DNS query, for every
  plain tunnel domain of up to 224 characters, and the server recovers exactly that packet.
\<close>

lemma query_carries_packet:
  assumes "env_ok blake3 rnd" "plain_name dn" "encode_name dn \<noteq> None" "length dn \<le> 224"
    and "length (pkt_data p) \<le> max_upstream_data dn"
  shows "\<exists>name n msg. to_query_name blake3 rnd p dn = Some name \<and> encode_name name = Some n \<and>
    encode_query cookie qid name = Some msg \<and>
    parse_query msg = Some \<lparr>q_id = qid, q_name = name, recursion_desired = True, had_opt = True\<rparr> \<and>
    from_query_name blake3 name dn = Some p"
proof -
  obtain name where name: "to_query_name blake3 rnd p dn = Some name"
    using to_query_name_some assms trim_start_plain by metis
  note plain = query_name_plain [OF name assms(2,3)]
  then obtain n msg where "encode_name name = Some n" "encode_query cookie qid name = Some msg"
    by (auto simp: encode_query_def)
  with name parse_encode_query [OF _ plain(1)] from_to_query_name [OF assms(1) name] show ?thesis by blast
qed

lemma encode_labels_snoc_empty: "encode_labels (ls @ [[]]) = encode_labels ls"
  by (induction ls) auto

text \<open>
  A tunnel domain written with its trailing dot never works.  \<open>encode_name\<close> tolerates the dot,
  so the client's query is well formed and the server parses it, but the parsed name has no
  trailing dot, \<open>from_query_name\<close> does not find the suffix, and the packet is dropped.
\<close>

lemma trailing_dot_unreachable:
  assumes "env_ok blake3 rnd" "plain_name dn" "encode_name dn \<noteq> None" "length dn \<le> 223"
    and "length (pkt_data p) \<le> max_upstream_data (dn @ [0x2E])"
  shows "\<exists>name msg q. to_query_name blake3 rnd p (dn @ [0x2E]) = Some name \<and>
    encode_query cookie qid name = Some msg \<and> parse_query msg = Some q \<and>
    from_query_name blake3 (q_name q) (dn @ [0x2E]) = None"
proof -
  obtain name where name: "to_query_name blake3 rnd p (dn @ [0x2E]) = Some name"
    using to_query_name_some [OF assms(1) _ assms(5)] assms(4) trim_start_dot [OF assms(2)] by auto
  obtain out where out: "name = out @ dn @ [0x2E]" "length name \<le> 251"
    "list_all (\<lambda>c. c < 0x80 \<and> ascii_lower c = c) out"
    "\<And>d. \<exists>ls. split_on 0x2E (out @ d) = ls @ split_on 0x2E d \<and> list_all (\<lambda>l. l \<noteq> [] \<and> length l \<le> 63) ls"
    by (rule to_query_name_name [OF name, unfolded trim_start_dot [OF assms(2)]]) blast
  let ?s = "out @ dn"
  obtain ls where ls: "split_on 0x2E ?s = ls @ split_on 0x2E dn" "list_all (\<lambda>l. l \<noteq> [] \<and> length l \<le> 63) ls"
    using out(4) by blast
  have "list_all (\<lambda>l. length l \<le> MAX_LABEL) (split_on 0x2E ?s)"
    using ls short_labels [OF assms(3)] by (auto simp: list_all_iff MAX_LABEL_def)
  then have "\<exists>n. encode_name ?s = Some n" using out(1,2) by (intro encode_name_some) auto
  moreover have "encode_name name = encode_name ?s"
    using split_on_append [of "0x2E" ?s "[]"] by (simp add: out(1) encode_name_def encode_labels_snoc_empty)
  ultimately obtain msg where msg: "encode_query cookie qid name = Some msg" "encode_query cookie qid ?s = Some msg"
    by (auto simp: encode_query_def)
  have "plain_name ?s" using out(3) ls assms(2) by (auto simp: plain_name_def list_all_iff)
  from parse_encode_query [OF msg(2) this]
  have q: "parse_query msg = Some \<lparr>q_id = qid, q_name = ?s, recursion_desired = True, had_opt = True\<rparr>" .
  have "strip_suffix (map ascii_lower ?s) (map ascii_lower (dn @ [0x2E])) = None"
  proof -
    have "last (map ascii_lower ?s) \<noteq> 0x2E"
      using plain_name_ends [OF assms(2)] plain_name_lower [OF assms(2)] by simp
    moreover have "last (t @ map ascii_lower (dn @ [0x2E])) = 0x2E" for t by (simp add: ascii_lower_def)
    ultimately show ?thesis by (metis strip_suffix_eq option.exhaust)
  qed
  then show ?thesis using name msg(1) q by (simp add: from_query_name_def trim_start_dot [OF assms(2)] Let_def)
qed

lemma trailing_dot_unreachable_witness:
  "\<exists>name msg q.
    to_query_name (\<lambda>x. replicate 32 0x5A) None \<lparr>pkt_session = 7, pkt_seq = 0, pkt_ack = 0, pkt_flags = 1, pkt_data = [9]\<rparr>
      ([0x74, 0x2E, 0x63, 0x6F, 0x6D] @ [0x2E]) = Some name \<and> encode_query [1, 2, 3, 4, 5, 6, 7, 8] 0x1234 name = Some msg \<and>
    parse_query msg = Some q \<and>
    from_query_name (\<lambda>x. replicate 32 0x5A) (q_name q) ([0x74, 0x2E, 0x63, 0x6F, 0x6D] @ [0x2E]) = None"
proof (rule trailing_dot_unreachable)
  show "env_ok (\<lambda>x. replicate 32 0x5A) None" by (simp add: env_ok_def HEADER_NONCE_LEN_def)
qed (simp_all add: plain_name_def ascii_lower_def encode_name_def MAX_LABEL_def MAX_NAME_def max_upstream_data_def
    trim_start_dots_def HEADER_LEN_def)

end
