(* ===== verification/Dnstt_Stream.thy ===== *)
theory Dnstt_Stream
  imports Dnstt_Arq "HOL-Library.Sublist"
begin

unbundle bit_operations_syntax

text \<open>
  The reliable byte stream of the DNS tunnel (\<open>crates/transport-dnstt/src/stream.rs\<close>): the state
  machine \<open>ReliableEndpoint\<close> and two of them over a network that may lose, duplicate, delay and
  reorder every packet.  Shown here: the receiver's bytes are always a prefix of what the peer
  wrote, a FIN is only reported once everything has arrived, honest peers never use the reorder
  buffer, that buffer is bounded against any peer, enough round trips complete every transfer of
  less than \<open>2 ^ 32\<close> bytes, and a transfer that crosses that boundary stalls for good.
\<close>

section \<open>The endpoint\<close>

definition MAX_REORDER_SEGS :: nat where "MAX_REORDER_SEGS = 1024"
definition MAX_REORDER_AHEAD :: u32 where "MAX_REORDER_AHEAD = 0x100000"

record ReliableEndpoint =
  ep_session :: u32
  is_client :: bool
  send_stream :: bytes
  send_base :: u32
  fin_queued :: bool
  fin_sent :: bool
  recv_next :: u32
  reorder :: "(u32, bytes) hashmap"
  delivered :: bytes
  peer_fin_at :: "u32 option"
  peer_syn :: bool
  announce_syn :: bool

definition ep_new :: "u32 \<Rightarrow> bool \<Rightarrow> ReliableEndpoint" where
  "ep_new s client =
     \<lparr>ep_session = s, is_client = client, send_stream = [], send_base = 0, fin_queued = False, fin_sent = False,
      recv_next = 0, reorder = [], delivered = [], peer_fin_at = None, peer_syn = False,
      announce_syn = client\<rparr>"

definition ep_write :: "bytes \<Rightarrow> ReliableEndpoint \<Rightarrow> ReliableEndpoint" where
  "ep_write bs e = e\<lparr>send_stream := send_stream e @ bs\<rparr>"

definition ep_close :: "ReliableEndpoint \<Rightarrow> ReliableEndpoint" where
  "ep_close e = e\<lparr>fin_queued := True\<rparr>"

definition peer_finished :: "ReliableEndpoint \<Rightarrow> bool" where
  "peer_finished e = (case peer_fin_at e of None \<Rightarrow> False | Some at \<Rightarrow> at \<le> recv_next e)"

definition take_delivered :: "ReliableEndpoint \<Rightarrow> bytes \<times> ReliableEndpoint" where
  "take_delivered e = (delivered e, e\<lparr>delivered := []\<rparr>)"

definition unacked_len :: "ReliableEndpoint \<Rightarrow> nat" where
  "unacked_len e = length (send_stream e)"

definition build_packet :: "nat \<Rightarrow> ReliableEndpoint \<Rightarrow> Packet \<times> ReliableEndpoint" where
  "build_packet max_data e =
     (let n = min (length (send_stream e)) max_data;
          flags = (if announce_syn e then FLAG_SYN else 0);
          fin = (fin_queued e \<and> n = length (send_stream e));
          flags = (if fin then flags OR FLAG_FIN else flags)
      in (\<lparr>pkt_session = ep_session e, pkt_seq = send_base e, pkt_ack = recv_next e, pkt_flags = flags,
           pkt_data = take n (send_stream e)\<rparr>,
          if fin then e\<lparr>fin_sent := True\<rparr> else e))"

text \<open>The \<open>while let Some(seg) = self.reorder.remove(&self.recv_next)\<close> loop.\<close>

function drain_reorder :: "(u32, bytes) hashmap \<Rightarrow> u32 \<Rightarrow> bytes \<Rightarrow> (u32, bytes) hashmap \<times> u32 \<times> bytes" where
  "drain_reorder m next out =
     (case hm_get m next of
        None \<Rightarrow> (m, next, out)
      | Some seg \<Rightarrow> drain_reorder (hm_remove next m) (next + word_of_nat (length seg)) (out @ seg))"
  by pat_completeness auto
termination
proof (relation "measure (\<lambda>(m, next, out). length m)")
  fix m :: "(u32, bytes) hashmap" and k seg
  fix out :: bytes
  assume "hm_get m k = Some seg"
  then have "(k, seg) \<in> set m" by (simp add: hm_get_def map_of_SomeD)
  then have "length (hm_remove k m) < length m"
    unfolding hm_remove_def AList.delete_eq by (intro length_filter_less [of "(k, seg)"]) auto
  then show "((hm_remove k m, k + word_of_nat (length seg), out @ seg), m, k, out) \<in> measure (\<lambda>(m, next, out). length m)"
    by simp
qed simp

declare drain_reorder.simps [simp del]

definition accept_data :: "u32 \<Rightarrow> bytes \<Rightarrow> ReliableEndpoint \<Rightarrow> ReliableEndpoint" where
  "accept_data seq bs e =
     (if seq = recv_next e then
        let (m, next, out) = drain_reorder (reorder e) (recv_next e + word_of_nat (length bs)) (delivered e @ bs)
        in e\<lparr>delivered := out, recv_next := next, reorder := m\<rparr>
      else if recv_next e < seq then
        if MAX_REORDER_AHEAD < seq - recv_next e then e
        else case hm_get (reorder e) seq of
               Some existing \<Rightarrow>
                 if length existing < length bs then e\<lparr>reorder := hm_insert seq bs (reorder e)\<rparr> else e
             | None \<Rightarrow>
                 if hm_len (reorder e) < MAX_REORDER_SEGS then e\<lparr>reorder := hm_insert seq bs (reorder e)\<rparr> else e
      else e)"

definition on_packet :: "Packet \<Rightarrow> ReliableEndpoint \<Rightarrow> ReliableEndpoint" where
  "on_packet pkt e0 =
     (let e1 = (if is_client e0 then e0\<lparr>announce_syn := False\<rparr> else e0);
          e2 = (if pkt_flags pkt AND FLAG_SYN \<noteq> 0 then e1\<lparr>peer_syn := True\<rparr> else e1);
          e3 = (if send_base e2 < pkt_ack pkt then
                  let acked = min (unat (pkt_ack pkt - send_base e2)) (length (send_stream e2)) in
                  e2\<lparr>send_stream := drop acked (send_stream e2), send_base := send_base e2 + word_of_nat acked\<rparr>
                else e2);
          e4 = (if pkt_data pkt \<noteq> [] then accept_data (pkt_seq pkt) (pkt_data pkt) e3 else e3)
      in if pkt_flags pkt AND FLAG_FIN \<noteq> 0
         then e4\<lparr>peer_fin_at := Some (pkt_seq pkt + word_of_nat (length (pkt_data pkt)))\<rparr>
         else e4)"

section \<open>What a packet does to an endpoint\<close>

definition recv_view :: "ReliableEndpoint \<Rightarrow> u32 \<times> (u32, bytes) hashmap \<times> bytes" where
  "recv_view e = (recv_next e, reorder e, delivered e)"

definition acked_by :: "Packet \<Rightarrow> ReliableEndpoint \<Rightarrow> nat" where
  "acked_by p e =
     (if send_base e < pkt_ack p then min (unat (pkt_ack p - send_base e)) (length (send_stream e)) else 0)"

lemma accept_data_frame [simp]:
  "send_stream (accept_data s bs e) = send_stream e" "send_base (accept_data s bs e) = send_base e"
  "fin_queued (accept_data s bs e) = fin_queued e" "peer_fin_at (accept_data s bs e) = peer_fin_at e"
  "fin_sent (accept_data s bs e) = fin_sent e" "is_client (accept_data s bs e) = is_client e"
  by (simp_all add: accept_data_def Let_def split: prod.splits option.splits)

lemma accept_data_view:
  "recv_view e = recv_view e' \<Longrightarrow> recv_view (accept_data s bs e) = recv_view (accept_data s bs e')"
  by (simp add: recv_view_def accept_data_def Let_def split: prod.splits option.splits)

lemma on_packet_send:
  "send_stream (on_packet p e) = drop (acked_by p e) (send_stream e)"
  "send_base (on_packet p e) = send_base e + word_of_nat (acked_by p e)"
  "fin_queued (on_packet p e) = fin_queued e"
  by (simp_all add: on_packet_def acked_by_def Let_def)

lemma recv_view_update [simp]:
  "recv_view (e\<lparr>announce_syn := c\<rparr>) = recv_view e" "recv_view (e\<lparr>peer_syn := c\<rparr>) = recv_view e"
  "recv_view (e\<lparr>send_stream := bs, send_base := w\<rparr>) = recv_view e" "recv_view (e\<lparr>peer_fin_at := f\<rparr>) = recv_view e"
  by (simp_all add: recv_view_def)

lemma on_packet_view:
  "recv_view (on_packet p e) =
     (if pkt_data p = [] then recv_view e else recv_view (accept_data (pkt_seq p) (pkt_data p) e))"
proof -
  define e1 where "e1 = (if is_client e then e\<lparr>announce_syn := False\<rparr> else e)"
  define e2 where "e2 = (if pkt_flags p AND FLAG_SYN \<noteq> 0 then e1\<lparr>peer_syn := True\<rparr> else e1)"
  define e3 where "e3 = (if send_base e2 < pkt_ack p then
      let acked = min (unat (pkt_ack p - send_base e2)) (length (send_stream e2)) in
      e2\<lparr>send_stream := drop acked (send_stream e2), send_base := send_base e2 + word_of_nat acked\<rparr> else e2)"
  define e4 where "e4 = (if pkt_data p \<noteq> [] then accept_data (pkt_seq p) (pkt_data p) e3 else e3)"
  have "recv_view e1 = recv_view e" unfolding e1_def by simp
  moreover have "recv_view e2 = recv_view e1" unfolding e2_def by simp
  moreover have "recv_view e3 = recv_view e2" unfolding e3_def Let_def by simp
  ultimately have e3: "recv_view e3 = recv_view e" by simp
  have "on_packet p e = (if pkt_flags p AND FLAG_FIN \<noteq> 0
      then e4\<lparr>peer_fin_at := Some (pkt_seq p + word_of_nat (length (pkt_data p)))\<rparr> else e4)"
    unfolding on_packet_def e4_def e3_def e2_def e1_def Let_def ..
  then have "recv_view (on_packet p e) = recv_view e4" by simp
  also have "\<dots> = (if pkt_data p = [] then recv_view e else recv_view (accept_data (pkt_seq p) (pkt_data p) e))"
    unfolding e4_def using e3 accept_data_view [OF e3] by simp
  finally show ?thesis .
qed

lemma on_packet_fin:
  "peer_fin_at (on_packet p e) =
     (if pkt_flags p AND FLAG_FIN \<noteq> 0 then Some (pkt_seq p + word_of_nat (length (pkt_data p))) else peer_fin_at e)"
  by (simp add: on_packet_def Let_def)

lemma drain_empty [simp]: "drain_reorder [] next out = ([], next, out)"
  by (simp add: drain_reorder.simps)

text \<open>With an empty reorder buffer, a packet that does not start ahead of the receiver is simple.\<close>

lemma on_packet_in_order:
  assumes "reorder e = []" "pkt_seq p \<le> recv_next e"
  shows "recv_view (on_packet p e) =
    (if pkt_seq p = recv_next e then (recv_next e + word_of_nat (length (pkt_data p)), [], delivered e @ pkt_data p)
     else (recv_next e, [], delivered e))"
  unfolding on_packet_view using assms by (auto simp: recv_view_def accept_data_def)

lemma build_packet_simps [simp]:
  "pkt_seq (fst (build_packet m e)) = send_base e" "pkt_ack (fst (build_packet m e)) = recv_next e"
  "pkt_data (fst (build_packet m e)) = take m (send_stream e)"
  "send_stream (snd (build_packet m e)) = send_stream e" "send_base (snd (build_packet m e)) = send_base e"
  "fin_queued (snd (build_packet m e)) = fin_queued e" "recv_next (snd (build_packet m e)) = recv_next e"
  "reorder (snd (build_packet m e)) = reorder e" "delivered (snd (build_packet m e)) = delivered e"
  "peer_fin_at (snd (build_packet m e)) = peer_fin_at e"
  by (simp_all add: build_packet_def Let_def min_def)

lemma build_packet_fin:
  "pkt_flags (fst (build_packet m e)) AND FLAG_FIN \<noteq> 0 \<longleftrightarrow> fin_queued e \<and> length (send_stream e) \<le> m"
  by (simp add: build_packet_def Let_def FLAG_SYN_def FLAG_FIN_def min_def)

section \<open>Two endpoints over an unreliable network\<close>

text \<open>
  A side is an endpoint with what its application wrote and took, and every packet it ever built.
  The network keeps all of them: delivering a packet of the peer never removes it, so loss,
  duplication, delay and reordering are all steps that the relation allows.
\<close>

record Side =
  sd_ep :: ReliableEndpoint
  wrote :: bytes
  got :: bytes
  sent :: "Packet set"

definition side_new :: "u32 \<Rightarrow> bool \<Rightarrow> Side" where
  "side_new s client = \<lparr>sd_ep = ep_new s client, wrote = [], got = [], sent = {}\<rparr>"

definition recvd :: "Side \<Rightarrow> bytes" where
  "recvd s = got s @ delivered (sd_ep s)"

definition transmit_side :: "nat \<Rightarrow> Side \<Rightarrow> Packet \<times> Side" where
  "transmit_side m s =
     (let (p, e) = build_packet m (sd_ep s) in (p, s\<lparr>sd_ep := e, sent := insert p (sent s)\<rparr>))"

definition deliver_side :: "Packet \<Rightarrow> Side \<Rightarrow> Side" where
  "deliver_side p s = s\<lparr>sd_ep := on_packet p (sd_ep s)\<rparr>"

definition take_side :: "Side \<Rightarrow> Side" where
  "take_side s = (let (bs, e) = take_delivered (sd_ep s) in s\<lparr>sd_ep := e, got := got s @ bs\<rparr>)"

inductive side_step :: "Packet set \<Rightarrow> Side \<Rightarrow> Side \<Rightarrow> bool" where
  app_write: "\<not> fin_queued (sd_ep s) \<Longrightarrow>
     side_step P s (s\<lparr>sd_ep := ep_write bs (sd_ep s), wrote := wrote s @ bs\<rparr>)"
| app_close: "side_step P s (s\<lparr>sd_ep := ep_close (sd_ep s)\<rparr>)"
| transmit: "side_step P s (snd (transmit_side m s))"
| deliver: "p \<in> P \<Longrightarrow> side_step P s (deliver_side p s)"
| app_take: "side_step P s (take_side s)"

lemma side_ops:
  "fst (transmit_side m s) = fst (build_packet m (sd_ep s))"
  "snd (transmit_side m s) =
     s\<lparr>sd_ep := snd (build_packet m (sd_ep s)), sent := insert (fst (build_packet m (sd_ep s))) (sent s)\<rparr>"
  "take_side s = s\<lparr>sd_ep := (sd_ep s)\<lparr>delivered := []\<rparr>, got := got s @ delivered (sd_ep s)\<rparr>"
  by (simp_all add: transmit_side_def take_side_def take_delivered_def Let_def split: prod.splits)

inductive tunnel :: "Side \<Rightarrow> Side \<Rightarrow> bool" where
  start: "tunnel (side_new s True) (side_new s' False)"
| client_step: "tunnel x y \<Longrightarrow> side_step (sent y) x x' \<Longrightarrow> tunnel x' y"
| server_step: "tunnel x y \<Longrightarrow> side_step (sent x) y y' \<Longrightarrow> tunnel x y'"

text \<open>The invariant of one direction, from \<open>x\<close> to \<open>y\<close>.\<close>

definition pkt_ok :: "Side \<Rightarrow> Packet \<Rightarrow> bool" where
  "pkt_ok x p \<longleftrightarrow>
     unat (pkt_seq p) \<le> unat (send_base (sd_ep x)) \<and>
     unat (pkt_seq p) + length (pkt_data p) \<le> length (wrote x) \<and>
     pkt_data p = take (length (pkt_data p)) (drop (unat (pkt_seq p)) (wrote x)) \<and>
     (pkt_flags p AND FLAG_FIN \<noteq> 0 \<longrightarrow>
        fin_queued (sd_ep x) \<and> unat (pkt_seq p) + length (pkt_data p) = length (wrote x))"

definition flow :: "Side \<Rightarrow> Side \<Rightarrow> bool" where
  "flow x y \<longleftrightarrow>
     length (wrote x) < 2 ^ 32 \<and>
     send_stream (sd_ep x) = drop (unat (send_base (sd_ep x))) (wrote x) \<and>
     unat (send_base (sd_ep x)) \<le> unat (recv_next (sd_ep y)) \<and>
     unat (recv_next (sd_ep y)) \<le> length (wrote x) \<and>
     recvd y = take (unat (recv_next (sd_ep y))) (wrote x) \<and>
     reorder (sd_ep y) = [] \<and>
     (\<forall>p \<in> sent x. pkt_ok x p) \<and>
     (\<forall>p \<in> sent y. unat (pkt_ack p) \<le> unat (recv_next (sd_ep y))) \<and>
     (\<forall>at. peer_fin_at (sd_ep y) = Some at \<longrightarrow> fin_queued (sd_ep x) \<and> unat at = length (wrote x))"

lemma flow_new: "flow (side_new s c) (side_new s' c')"
  by (simp add: flow_def side_new_def ep_new_def recvd_def)

lemma unat_add_nat:
  assumes "unat (w :: u32) + n < 2 ^ 32"
  shows "unat (w + word_of_nat n) = unat w + n"
  using assms by (simp add: unat_word_ariths unsigned_of_nat take_bit_eq_mod)

lemma unat_acked:
  assumes "flow x y" "p \<in> sent y"
  shows "unat (send_base (sd_ep x)) + acked_by p (sd_ep x) = max (unat (send_base (sd_ep x))) (unat (pkt_ack p))"
    "unat (send_base (on_packet p (sd_ep x))) = max (unat (send_base (sd_ep x))) (unat (pkt_ack p))"
proof -
  let ?b = "send_base (sd_ep x)"
  have a: "unat (pkt_ack p) \<le> length (wrote x)" "length (wrote x) < 2 ^ 32"
    and s: "length (send_stream (sd_ep x)) = length (wrote x) - unat ?b"
    using assms by (fastforce simp: flow_def)+
  show 1: "unat ?b + acked_by p (sd_ep x) = max (unat ?b) (unat (pkt_ack p))"
  proof (cases "?b < pkt_ack p")
    case True
    then have "unat (pkt_ack p - ?b) = unat (pkt_ack p) - unat ?b" by (simp add: unat_sub word_less_nat_alt word_le_nat_alt)
    moreover have "unat ?b < unat (pkt_ack p)" using True by (simp add: word_less_nat_alt)
    ultimately show ?thesis using True a s by (simp add: acked_by_def)
  next
    case False
    then show ?thesis by (simp add: acked_by_def word_less_nat_alt)
  qed
  show "unat (send_base (on_packet p (sd_ep x))) = max (unat ?b) (unat (pkt_ack p))"
    unfolding on_packet_send 1 [symmetric] using 1 a unsigned_less [of ?b, where 'a = nat]
    by (intro unat_add_nat) (simp add: unsigned_less)
qed

lemma on_packet_recv:
  assumes "reorder e = []" "pkt_seq p \<le> recv_next e"
  shows "reorder (on_packet p e) = []"
    "recv_next (on_packet p e) =
       (if pkt_seq p = recv_next e then recv_next e + word_of_nat (length (pkt_data p)) else recv_next e)"
    "delivered (on_packet p e) = (if pkt_seq p = recv_next e then delivered e @ pkt_data p else delivered e)"
  using on_packet_in_order [OF assms] by (auto simp: recv_view_def split: if_splits)

lemma pkt_ok_write: "pkt_ok x p \<Longrightarrow> \<not> fin_queued (sd_ep x) \<Longrightarrow>
  pkt_ok (x\<lparr>sd_ep := ep_write bs (sd_ep x), wrote := wrote x @ bs\<rparr>) p"
  by (auto simp: pkt_ok_def ep_write_def)

lemma pkt_ok_mono:
  "pkt_ok x p \<Longrightarrow> wrote x' = wrote x \<Longrightarrow> unat (send_base (sd_ep x)) \<le> unat (send_base (sd_ep x')) \<Longrightarrow>
   (fin_queued (sd_ep x) \<Longrightarrow> fin_queued (sd_ep x')) \<Longrightarrow> pkt_ok x' p"
  by (auto simp: pkt_ok_def)

lemma flow_base: "flow x y \<Longrightarrow> unat (send_base (sd_ep x)) \<le> length (wrote x)"
  by (auto simp: flow_def)

lemma pkt_ok_build:
  assumes "flow x y"
  shows "pkt_ok x (fst (build_packet m (sd_ep x)))"
proof -
  have s: "send_stream (sd_ep x) = drop (unat (send_base (sd_ep x))) (wrote x)"
    using assms by (simp add: flow_def)
  with flow_base [OF assms] show ?thesis
    by (auto simp: pkt_ok_def build_packet_fin min_def)
qed

text \<open>The sender's steps keep the invariant.\<close>

lemma flow_sender:
  assumes "flow x y" "side_step (sent y) x x'" "length (wrote x') < 2 ^ 32"
  shows "flow x' y"
  using assms(2)
proof cases
  case (app_write bs)
  have "\<forall>p \<in> sent x'. pkt_ok x' p"
    using assms(1) app_write by (simp add: flow_def pkt_ok_write)
  with app_write assms(1,3) flow_base [OF assms(1)] show ?thesis
    by (auto simp: flow_def ep_write_def)
next
  case app_close
  with assms(1) show ?thesis
    by (auto simp: flow_def ep_close_def intro: pkt_ok_mono)
next
  case (transmit m)
  note transmit = transmit [unfolded side_ops]
  have "pkt_ok x' p" if "p \<in> sent x'" for p
    using that transmit pkt_ok_build [OF assms(1), of m] assms(1)
    by (auto simp: flow_def intro: pkt_ok_mono)
  with transmit assms(1) show ?thesis by (simp add: flow_def)
next
  case (deliver p)
  note deliver = deliver [unfolded deliver_side_def]
  note b = unat_acked [OF assms(1) deliver(2)]
  have w: "wrote x' = wrote x" "sent x' = sent x" using deliver by simp_all
  have f: "fin_queued (sd_ep x') = fin_queued (sd_ep x)" using deliver by (simp add: on_packet_send)
  have base: "unat (send_base (sd_ep x')) = max (unat (send_base (sd_ep x))) (unat (pkt_ack p))"
    using deliver b(2) by simp
  have "send_stream (sd_ep x') = drop (unat (send_base (sd_ep x'))) (wrote x')"
    using deliver b(1) assms(1) base by (simp add: on_packet_send flow_def add.commute)
  moreover have "\<forall>q \<in> sent x'. pkt_ok x' q"
  proof
    fix q assume "q \<in> sent x'"
    with w assms(1) have "pkt_ok x q" by (simp add: flow_def)
    then show "pkt_ok x' q" by (rule pkt_ok_mono) (simp_all add: w(1) base f)
  qed
  moreover have "unat (pkt_ack p) \<le> unat (recv_next (sd_ep y))" using assms(1) deliver(2) by (simp add: flow_def)
  ultimately show ?thesis using assms(1) base w f by (simp add: flow_def)
next
  case app_take
  note app_take = app_take [unfolded side_ops]
  have "\<forall>p \<in> sent x'. pkt_ok x' p"
    using assms(1) app_take by (simp add: flow_def pkt_ok_def)
  with app_take assms(1) show ?thesis by (simp add: flow_def side_ops)
qed

text \<open>The receiver's steps keep the invariant.\<close>

lemma deliver_prefix:
  assumes "flow x y" "p \<in> sent x"
  shows "let y' = deliver_side p y in
    reorder (sd_ep y') = [] \<and> unat (recv_next (sd_ep y)) \<le> unat (recv_next (sd_ep y')) \<and>
    unat (recv_next (sd_ep y')) \<le> length (wrote x) \<and> recvd y' = take (unat (recv_next (sd_ep y'))) (wrote x) \<and>
    unat (recv_next (sd_ep y')) =
      (if pkt_seq p = recv_next (sd_ep y) then unat (recv_next (sd_ep y)) + length (pkt_data p)
       else unat (recv_next (sd_ep y)))"
proof -
  have ok: "pkt_ok x p" "reorder (sd_ep y) = []" "length (wrote x) < 2 ^ 32"
    "unat (send_base (sd_ep x)) \<le> unat (recv_next (sd_ep y))" "unat (recv_next (sd_ep y)) \<le> length (wrote x)"
    "got y @ delivered (sd_ep y) = take (unat (recv_next (sd_ep y))) (wrote x)"
    using assms by (auto simp: flow_def recvd_def)
  have le: "pkt_seq p \<le> recv_next (sd_ep y)"
    using ok(1,4) by (auto simp: pkt_ok_def word_le_nat_alt)
  note r = on_packet_recv [OF ok(2) le]
  show ?thesis
  proof (cases "pkt_seq p = recv_next (sd_ep y)")
    case True
    have n: "unat (recv_next (sd_ep y)) + length (pkt_data p) \<le> length (wrote x)"
      and d: "pkt_data p = take (length (pkt_data p)) (drop (unat (recv_next (sd_ep y))) (wrote x))"
      using ok(1) True by (auto simp: pkt_ok_def)
    have u: "unat (recv_next (sd_ep y) + word_of_nat (length (pkt_data p))) = unat (recv_next (sd_ep y)) + length (pkt_data p)"
      using n ok(3) by (intro unat_add_nat) simp
    have "take (unat (recv_next (sd_ep y))) (wrote x) @ pkt_data p =
        take (unat (recv_next (sd_ep y)) + length (pkt_data p)) (wrote x)"
      by (subst d) (simp add: take_add)
    with ok(6) have "got y @ delivered (sd_ep y) @ pkt_data p =
        take (unat (recv_next (sd_ep y)) + length (pkt_data p)) (wrote x)" by (metis append_assoc)
    with True r u n show ?thesis by (simp add: recvd_def Let_def deliver_side_def)
  next
    case False
    with r ok show ?thesis by (simp add: recvd_def Let_def deliver_side_def)
  qed
qed

lemma flow_receiver:
  assumes "flow x y" "side_step (sent x) y y'"
  shows "flow x y'"
  using assms(2)
proof cases
  case (app_write bs)
  with assms(1) show ?thesis by (simp add: flow_def ep_write_def recvd_def)
next
  case app_close
  with assms(1) show ?thesis by (simp add: flow_def ep_close_def recvd_def)
next
  case (transmit m)
  note transmit = transmit [unfolded side_ops]
  with assms(1) show ?thesis by (auto simp: flow_def recvd_def)
next
  case (deliver p)
  note deliver = deliver [unfolded deliver_side_def]
  have ok: "pkt_ok x p" using assms(1) deliver by (auto simp: flow_def)
  have "fin_queued (sd_ep x) \<and> unat at = length (wrote x)" if "peer_fin_at (on_packet p (sd_ep y)) = Some at" for at
  proof (cases "pkt_flags p AND FLAG_FIN \<noteq> 0")
    case True
    then have f: "fin_queued (sd_ep x)" "unat (pkt_seq p) + length (pkt_data p) = length (wrote x)"
      using ok by (auto simp: pkt_ok_def)
    moreover have "at = pkt_seq p + word_of_nat (length (pkt_data p))" using that True by (simp add: on_packet_fin)
    moreover have "length (wrote x) < 2 ^ 32" using assms(1) by (simp add: flow_def)
    ultimately show ?thesis using unat_add_nat [of "pkt_seq p" "length (pkt_data p)"] by simp
  next
    case False
    with that assms(1) show ?thesis by (simp add: on_packet_fin flow_def)
  qed
  with deliver_prefix [OF assms(1) deliver(2)] deliver assms(1) show ?thesis
    by (fastforce simp: flow_def Let_def deliver_side_def)
next
  case app_take
  note app_take = app_take [unfolded side_ops]
  with assms(1) show ?thesis by (simp add: flow_def side_ops recvd_def)
qed

lemma wrote_mono: "side_step P x x' \<Longrightarrow> length (wrote x) \<le> length (wrote x')"
  by (induction rule: side_step.induct) (auto simp: side_ops deliver_side_def)

lemma tunnel_flow:
  "tunnel x y \<Longrightarrow> length (wrote x) < 2 ^ 32 \<Longrightarrow> length (wrote y) < 2 ^ 32 \<Longrightarrow> flow x y \<and> flow y x"
proof (induction rule: tunnel.induct)
  case (start s s')
  show ?case by (simp add: flow_new)
next
  case (client_step x y x')
  then have "flow x y \<and> flow y x" using wrote_mono [OF client_step(2)] by linarith
  with client_step show ?case by (blast intro: flow_sender flow_receiver)
next
  case (server_step x y y')
  then have "flow x y \<and> flow y x" using wrote_mono [OF server_step(2)] by linarith
  with server_step show ?case by (blast intro: flow_sender flow_receiver)
qed

lemma flow_safe:
  assumes "flow x y"
  shows "prefix (recvd y) (wrote x)" "peer_finished (sd_ep y) \<longrightarrow> recvd y = wrote x" "reorder (sd_ep y) = []"
  using assms by (auto simp: flow_def take_is_prefix peer_finished_def word_le_nat_alt split: option.splits)


section \<open>Round trips\<close>

text \<open>
  One query and its response, both arriving: the client's poller builds a packet, the server
  absorbs it, hands its bytes on and answers, the client absorbs the answer.
\<close>

definition round_trip :: "nat \<Rightarrow> nat \<Rightarrow> Side \<times> Side \<Rightarrow> Side \<times> Side" where
  "round_trip mu md xy =
     (let (x, y) = xy;
          (p, x1) = transmit_side mu x;
          y1 = take_side (deliver_side p y);
          (q, y2) = transmit_side md y1;
          x2 = take_side (deliver_side q x1)
      in (x2, y2))"

fun round_trips :: "nat \<Rightarrow> nat \<Rightarrow> nat \<Rightarrow> Side \<times> Side \<Rightarrow> Side \<times> Side" where
  "round_trips 0 mu md xy = xy"
| "round_trips (Suc n) mu md xy = round_trip mu md (round_trips n mu md xy)"

lemma recvd_take_side [simp]: "recvd (take_side s) = recvd s"
  by (simp add: recvd_def side_ops)

lemma take_side_simps [simp]:
  "recv_next (sd_ep (take_side s)) = recv_next (sd_ep s)" "send_base (sd_ep (take_side s)) = send_base (sd_ep s)"
  "send_stream (sd_ep (take_side s)) = send_stream (sd_ep s)" "fin_queued (sd_ep (take_side s)) = fin_queued (sd_ep s)"
  "peer_fin_at (sd_ep (take_side s)) = peer_fin_at (sd_ep s)" "wrote (take_side s) = wrote s" "sent (take_side s) = sent s"
  by (simp_all add: side_ops)

lemma transmit_side_simps [simp]:
  "recv_next (sd_ep (snd (transmit_side m s))) = recv_next (sd_ep s)"
  "send_base (sd_ep (snd (transmit_side m s))) = send_base (sd_ep s)"
  "send_stream (sd_ep (snd (transmit_side m s))) = send_stream (sd_ep s)"
  "fin_queued (sd_ep (snd (transmit_side m s))) = fin_queued (sd_ep s)"
  "peer_fin_at (sd_ep (snd (transmit_side m s))) = peer_fin_at (sd_ep s)"
  "wrote (snd (transmit_side m s)) = wrote s" "fst (transmit_side m s) \<in> sent (snd (transmit_side m s))"
  "pkt_seq (fst (transmit_side m s)) = send_base (sd_ep s)" "pkt_ack (fst (transmit_side m s)) = recv_next (sd_ep s)"
  "pkt_data (fst (transmit_side m s)) = take m (send_stream (sd_ep s))" "recvd (snd (transmit_side m s)) = recvd s"
  by (simp_all add: side_ops recvd_def)

lemma deliver_side_simps [simp]:
  "fin_queued (sd_ep (deliver_side p s)) = fin_queued (sd_ep s)" "wrote (deliver_side p s) = wrote s"
  "sent (deliver_side p s) = sent s"
  by (simp_all add: deliver_side_def on_packet_send)

text \<open>What the receiver holds after one delivery of a freshly built packet.\<close>

lemma deliver_fresh:
  assumes "flow x y" "p = fst (transmit_side m x)"
  shows "flow (snd (transmit_side m x)) (deliver_side p y)"
    "unat (recv_next (sd_ep (deliver_side p y))) =
       (if send_base (sd_ep x) = recv_next (sd_ep y) then min (length (wrote x)) (unat (recv_next (sd_ep y)) + m)
        else unat (recv_next (sd_ep y)))"
    "fin_queued (sd_ep x) \<Longrightarrow> length (send_stream (sd_ep x)) \<le> m \<Longrightarrow> peer_fin_at (sd_ep (deliver_side p y)) \<noteq> None"
proof -
  let ?x = "snd (transmit_side m x)"
  have f: "flow ?x y"
    using assms(1) by (rule flow_sender) (use assms(1) in \<open>auto simp: flow_def intro: transmit\<close>)
  have p: "p \<in> sent ?x" by (simp add: assms(2))
  show "flow ?x (deliver_side p y)" by (rule flow_receiver [OF f deliver [OF p]])
  have "unat (recv_next (sd_ep (deliver_side p y))) =
      (if send_base (sd_ep x) = recv_next (sd_ep y) then unat (recv_next (sd_ep y)) + min (length (send_stream (sd_ep x))) m
       else unat (recv_next (sd_ep y)))"
    using deliver_prefix [OF f p] by (simp add: Let_def assms(2))
  moreover have "length (send_stream (sd_ep x)) = length (wrote x) - unat (send_base (sd_ep x))"
    "unat (recv_next (sd_ep y)) \<le> length (wrote x)"
    using assms(1) by (auto simp: flow_def)
  ultimately show "unat (recv_next (sd_ep (deliver_side p y))) =
       (if send_base (sd_ep x) = recv_next (sd_ep y) then min (length (wrote x)) (unat (recv_next (sd_ep y)) + m)
        else unat (recv_next (sd_ep y)))" by auto
  assume "fin_queued (sd_ep x)" "length (send_stream (sd_ep x)) \<le> m"
  then show "peer_fin_at (sd_ep (deliver_side p y)) \<noteq> None"
    by (simp add: deliver_side_def assms(2) on_packet_fin side_ops build_packet_fin)
qed

lemma flow_take: "flow x y \<Longrightarrow> flow (take_side x) y" "flow x y \<Longrightarrow> flow x (take_side y)"
  by (rule flow_sender, assumption, rule app_take, simp add: flow_def) (rule flow_receiver, assumption, rule app_take)

lemma finished_at_end:
  assumes "flow x y" "unat (recv_next (sd_ep y)) = length (wrote x)"
  shows "recvd y = wrote x" "peer_fin_at (sd_ep y) \<noteq> None \<Longrightarrow> peer_finished (sd_ep y)"
  using assms by (auto simp: flow_def peer_finished_def word_le_nat_alt split: option.splits)

lemma round_trip_effect:
  assumes xy: "flow x y" and yx: "flow y x" and r: "round_trip mu md (x, y) = (x', y')"
  shows "flow x' y'" "flow y' x'" "wrote x' = wrote x" "wrote y' = wrote y"
    "fin_queued (sd_ep x') = fin_queued (sd_ep x)" "fin_queued (sd_ep y') = fin_queued (sd_ep y)"
    "send_base (sd_ep x') = recv_next (sd_ep y')"
    "unat (recv_next (sd_ep y')) =
       (if send_base (sd_ep x) = recv_next (sd_ep y) then min (length (wrote x)) (unat (recv_next (sd_ep y)) + mu)
        else unat (recv_next (sd_ep y)))"
    "unat (recv_next (sd_ep x')) = min (length (wrote y)) (unat (recv_next (sd_ep x)) + md)"
    "fin_queued (sd_ep x) \<Longrightarrow> length (send_stream (sd_ep x)) \<le> mu \<Longrightarrow> peer_fin_at (sd_ep y') \<noteq> None"
    "fin_queued (sd_ep y) \<Longrightarrow> length (wrote y) \<le> unat (recv_next (sd_ep x)) + md \<Longrightarrow> peer_fin_at (sd_ep x') \<noteq> None"
proof -
  define p where "p = fst (transmit_side mu x)"
  define x1 where "x1 = snd (transmit_side mu x)"
  define y1 where "y1 = take_side (deliver_side p y)"
  define q where "q = fst (transmit_side md y1)"
  have x': "x' = take_side (deliver_side q x1)" and y': "y' = snd (transmit_side md y1)"
    using r by (auto simp: round_trip_def Let_def p_def x1_def y1_def q_def split: prod.splits)
  note up = deliver_fresh [OF xy p_def]
  have xy1: "flow x1 y1" unfolding x1_def y1_def by (rule flow_take(2) [OF up(1)])
  have yx1: "flow y1 x1"
  proof -
    have "flow y x1" unfolding x1_def by (rule flow_receiver [OF yx transmit])
    then have "flow (deliver_side p y) x1"
      by (rule flow_sender) (use yx in \<open>auto simp: flow_def x1_def p_def intro!: deliver\<close>)
    then show ?thesis unfolding y1_def by (rule flow_take(1))
  qed
  note down = deliver_fresh [OF yx1 q_def]
  have xy2: "flow x1 y'" unfolding y' by (rule flow_receiver [OF xy1 transmit])
  show "flow x' y'" unfolding x'
    by (rule flow_take(1), rule flow_sender [OF xy2 deliver]) (use xy2 in \<open>auto simp: y' q_def flow_def\<close>)
  show "flow y' x'" unfolding x' y' by (rule flow_take(2) [OF down(1)])
  show "wrote x' = wrote x" "wrote y' = wrote y" "fin_queued (sd_ep x') = fin_queued (sd_ep x)"
    "fin_queued (sd_ep y') = fin_queued (sd_ep y)" by (simp_all add: x' y' x1_def y1_def)
  show "unat (recv_next (sd_ep y')) =
       (if send_base (sd_ep x) = recv_next (sd_ep y) then min (length (wrote x)) (unat (recv_next (sd_ep y)) + mu)
        else unat (recv_next (sd_ep y)))" using up(2) by (simp add: y' y1_def)
  have "unat (send_base (sd_ep x')) = max (unat (send_base (sd_ep x))) (unat (recv_next (sd_ep y1)))"
    using unat_acked(2) [OF xy2, of q] by (simp add: x' y' q_def deliver_side_def x1_def)
  moreover have "unat (send_base (sd_ep x)) \<le> unat (recv_next (sd_ep y1))" using xy1 by (simp add: flow_def x1_def)
  ultimately show "send_base (sd_ep x') = recv_next (sd_ep y')" by (simp add: y' word_unat_eq_iff)
  have base: "send_base (sd_ep y1) = recv_next (sd_ep x1)"
  proof -
    have "flow y x1" unfolding x1_def by (rule flow_receiver [OF yx transmit])
    then have "unat (send_base (sd_ep y1)) = max (unat (send_base (sd_ep y))) (unat (recv_next (sd_ep x)))"
      using unat_acked(2) [of y x1 p] by (simp add: y1_def p_def x1_def deliver_side_def)
    moreover have "unat (send_base (sd_ep y)) \<le> unat (recv_next (sd_ep x))" using yx by (simp add: flow_def)
    ultimately show ?thesis by (simp add: x1_def word_unat_eq_iff)
  qed
  then show "unat (recv_next (sd_ep x')) = min (length (wrote y)) (unat (recv_next (sd_ep x)) + md)"
    using down(2) by (simp add: x' x1_def y1_def)
  show "fin_queued (sd_ep x) \<Longrightarrow> length (send_stream (sd_ep x)) \<le> mu \<Longrightarrow> peer_fin_at (sd_ep y') \<noteq> None"
    using up(3) by (simp add: y' y1_def)
  show "peer_fin_at (sd_ep x') \<noteq> None" if "fin_queued (sd_ep y)" "length (wrote y) \<le> unat (recv_next (sd_ep x)) + md"
  proof -
    have "length (send_stream (sd_ep y1)) = length (wrote y) - unat (recv_next (sd_ep x))"
      using yx1 base by (simp add: flow_def x1_def y1_def)
    then show ?thesis using down(3) that by (simp add: x' y1_def)
  qed
qed

lemma round_trips_effect:
  assumes "flow x y" "flow y x" "round_trips (Suc n) mu md (x, y) = (x', y')"
  shows "flow x' y' \<and> flow y' x' \<and> wrote x' = wrote x \<and> wrote y' = wrote y \<and>
    fin_queued (sd_ep x') = fin_queued (sd_ep x) \<and> fin_queued (sd_ep y') = fin_queued (sd_ep y) \<and>
    send_base (sd_ep x') = recv_next (sd_ep y') \<and>
    min (length (wrote x)) (unat (recv_next (sd_ep y)) + n * mu) \<le> unat (recv_next (sd_ep y')) \<and>
    unat (recv_next (sd_ep x')) = min (length (wrote y)) (unat (recv_next (sd_ep x)) + Suc n * md)"
  using assms(3)
proof (induction n arbitrary: x' y')
  case 0
  then have r: "round_trip mu md (x, y) = (x', y')" by simp
  note e = round_trip_effect [OF assms(1,2) r]
  from assms(1) have "unat (recv_next (sd_ep y)) \<le> length (wrote x)" by (simp add: flow_def)
  then have "min (length (wrote x)) (unat (recv_next (sd_ep y))) \<le> unat (recv_next (sd_ep y'))" using e(8) by simp
  then show ?case using e(1-7,9) by simp
next
  case (Suc n)
  obtain x1 y1 where r1: "round_trips (Suc n) mu md (x, y) = (x1, y1)" by (cases "round_trips (Suc n) mu md (x, y)")
  have r: "round_trip mu md (x1, y1) = (x', y')" using Suc.prems r1 by simp
  from Suc.IH [OF r1]
  have f: "flow x1 y1" "flow y1 x1" and w: "wrote x1 = wrote x" "wrote y1 = wrote y"
      "fin_queued (sd_ep x1) = fin_queued (sd_ep x)" "fin_queued (sd_ep y1) = fin_queued (sd_ep y)"
    and sync: "send_base (sd_ep x1) = recv_next (sd_ep y1)"
    and up: "min (length (wrote x)) (unat (recv_next (sd_ep y)) + n * mu) \<le> unat (recv_next (sd_ep y1))"
    and down: "unat (recv_next (sd_ep x1)) = min (length (wrote y)) (unat (recv_next (sd_ep x)) + Suc n * md)"
    by auto
  note e = round_trip_effect [OF f r]
  have "min (length (wrote x)) (unat (recv_next (sd_ep y)) + Suc n * mu) \<le> unat (recv_next (sd_ep y'))"
    using e(8) sync up w(1) by simp
  moreover have "unat (recv_next (sd_ep x')) = min (length (wrote y)) (unat (recv_next (sd_ep x)) + Suc (Suc n) * md)"
    using e(9) down w(2) by simp
  ultimately show ?case using e w by simp
qed

lemma round_trips_fin:
  assumes "flow x y" "flow y x" "round_trips (Suc n) mu md (x, y) = (x', y')"
    and "unacked_len (sd_ep x) \<le> n * mu" "unacked_len (sd_ep y) \<le> Suc n * md"
  shows "fin_queued (sd_ep x) \<Longrightarrow> peer_fin_at (sd_ep y') \<noteq> None" "fin_queued (sd_ep y) \<Longrightarrow> peer_fin_at (sd_ep x') \<noteq> None"
proof -
  obtain x1 y1 where r1: "round_trips n mu md (x, y) = (x1, y1)" by (cases "round_trips n mu md (x, y)")
  have r: "round_trip mu md (x1, y1) = (x', y')" using assms(3) r1 by simp
  have b: "length (wrote x) \<le> unat (recv_next (sd_ep y)) + n * mu" "length (wrote y) \<le> unat (recv_next (sd_ep x)) + Suc n * md"
    using assms(1,2,4,5) by (auto simp: flow_def unacked_len_def)
  have s: "flow x1 y1 \<and> flow y1 x1 \<and> fin_queued (sd_ep x1) = fin_queued (sd_ep x) \<and> fin_queued (sd_ep y1) = fin_queued (sd_ep y) \<and>
      length (send_stream (sd_ep x1)) \<le> mu \<and> length (wrote y1) \<le> unat (recv_next (sd_ep x1)) + md"
  proof (cases n)
    case 0
    then show ?thesis using r1 assms b(2) by (simp add: unacked_len_def)
  next
    case (Suc k)
    from round_trips_effect [OF assms(1,2) r1 [unfolded Suc]]
    have f: "flow x1 y1" "flow y1 x1" and w: "wrote x1 = wrote x" "wrote y1 = wrote y"
        "fin_queued (sd_ep x1) = fin_queued (sd_ep x)" "fin_queued (sd_ep y1) = fin_queued (sd_ep y)"
      and sync: "send_base (sd_ep x1) = recv_next (sd_ep y1)"
      and up: "min (length (wrote x)) (unat (recv_next (sd_ep y)) + k * mu) \<le> unat (recv_next (sd_ep y1))"
      and down: "unat (recv_next (sd_ep x1)) = min (length (wrote y)) (unat (recv_next (sd_ep x)) + Suc k * md)"
      by auto
    have "length (send_stream (sd_ep x1)) = length (wrote x) - unat (recv_next (sd_ep y1))"
      using f(1) sync w(1) by (simp add: flow_def)
    then have "length (send_stream (sd_ep x1)) \<le> mu" using up b(1) Suc by simp
    moreover have "length (wrote y1) \<le> unat (recv_next (sd_ep x1)) + md" using down b(2) w(2) Suc by simp
    ultimately show ?thesis using f w by simp
  qed
  then have f: "flow x1 y1" "flow y1 x1" by simp_all
  show "peer_fin_at (sd_ep y') \<noteq> None" if "fin_queued (sd_ep x)"
    using round_trip_effect(10) [OF f r] s that by simp
  show "peer_fin_at (sd_ep x') \<noteq> None" if "fin_queued (sd_ep y)"
    using round_trip_effect(11) [OF f r] s that by simp
qed


section \<open>Crossing \<open>2 ^ 32\<close>\<close>

text \<open>The same round trip on bare endpoints.\<close>

definition exchange :: "nat \<Rightarrow> nat \<Rightarrow> ReliableEndpoint \<times> ReliableEndpoint \<Rightarrow> ReliableEndpoint \<times> ReliableEndpoint" where
  "exchange mu md ab =
     (let (a, b) = ab;
          (p, a1) = build_packet mu a;
          (q, b1) = build_packet md (on_packet p b)
      in (on_packet q a1, b1))"

definition stuck :: "u32 \<Rightarrow> bytes \<Rightarrow> ReliableEndpoint \<times> ReliableEndpoint \<Rightarrow> bool" where
  "stuck s bs ab \<longleftrightarrow> send_base (fst ab) = s \<and> send_stream (fst ab) = bs \<and>
     recv_next (snd ab) < s \<and> MAX_REORDER_AHEAD < s - recv_next (snd ab)"

lemma far_ahead:
  assumes "recv_next e < pkt_seq p" "MAX_REORDER_AHEAD < pkt_seq p - recv_next e"
  shows "recv_next (on_packet p e) = recv_next e"
proof -
  have "accept_data (pkt_seq p) (pkt_data p) e = e" using assms by (simp add: accept_data_def)
  then have "recv_view (on_packet p e) = recv_view e" unfolding on_packet_view by simp
  then show ?thesis by (simp add: recv_view_def)
qed

lemma exchange_parts:
  "fst (exchange mu md (a, b)) = on_packet (fst (build_packet md (on_packet (fst (build_packet mu a)) b))) (snd (build_packet mu a))"
  "snd (exchange mu md (a, b)) = snd (build_packet md (on_packet (fst (build_packet mu a)) b))"
  by (simp_all add: exchange_def split: prod.splits)

lemma no_ack:
  assumes "pkt_ack p \<le> send_base e"
  shows "send_base (on_packet p e) = send_base e" "send_stream (on_packet p e) = send_stream e"
  using assms by (simp_all add: on_packet_send acked_by_def flip: linorder_not_less)

lemma stuck_exchange:
  assumes "stuck s bs ab"
  shows "stuck s bs (exchange mu md ab)"
proof -
  obtain a b where ab: "ab = (a, b)" by (cases ab)
  let ?p = "fst (build_packet mu a)"
  have "recv_next (on_packet ?p b) = recv_next b"
    by (rule far_ahead) (use assms ab in \<open>simp_all add: stuck_def\<close>)
  moreover from this assms ab have "pkt_ack (fst (build_packet md (on_packet ?p b))) \<le> send_base (snd (build_packet mu a))"
    by (simp add: stuck_def order.strict_implies_order)
  note no_ack [OF this]
  ultimately show ?thesis using assms ab by (simp add: stuck_def exchange_parts)
qed

lemma stuck_forever: "stuck s bs ab \<Longrightarrow> stuck s bs ((exchange mu md ^^ n) ab)"
  by (induction n) (simp_all add: stuck_exchange)

lemma wrap_sticks:
  assumes "send_base a = recv_next b" "reorder b = []"
    and "unat (send_base a) + k = 2 ^ 32" "k \<le> min mu (length (send_stream a))" "0 < k" "mu \<le> 65535"
  shows "stuck (send_base a) (send_stream a) (exchange mu md (a, b))"
proof -
  let ?p = "fst (build_packet mu a)" and ?s = "unat (send_base a)"
  let ?r = "recv_next (on_packet ?p b)"
  define N where "N = min mu (length (send_stream a))"
  have n: "k \<le> N" "N \<le> 65535" "?s + k = 4294967296" using assms by (simp_all add: N_def)
  have "?r = send_base a + word_of_nat N"
    using on_packet_recv(2) [of b ?p] assms(1,2) by (simp add: min.commute N_def)
  then have "unat ?r = (?s + N) mod 4294967296"
    by (simp add: unat_word_ariths unsigned_of_nat take_bit_eq_mod mod_simps)
  moreover have "?s + N = (N - k) + 4294967296" using n by linarith
  moreover have "N - k < 4294967296" using n(2) by linarith
  ultimately have r: "unat ?r = N - k" by simp
  then have lt: "unat ?r + 1048576 < ?s" using n assms(5) by linarith
  then have "unat (send_base a - ?r) = ?s - unat ?r"
    by (intro unat_sub) (simp add: word_le_nat_alt)
  then have far: "MAX_REORDER_AHEAD < send_base a - ?r" "?r < send_base a"
    using lt by (simp_all add: word_less_nat_alt MAX_REORDER_AHEAD_def)
  have "pkt_ack (fst (build_packet md (on_packet ?p b))) \<le> send_base (snd (build_packet mu a))"
    using far(2) by (simp add: order.strict_implies_order)
  note no_ack [OF this]
  then show ?thesis using far by (simp add: stuck_def exchange_parts)
qed

text \<open>
  C37: the sequence numbers do not survive wrapping.  When a packet crosses byte \<open>2 ^ 32\<close> of the
  stream, the receiver's \<open>recv_next\<close> wraps to a small number, which the sender's comparison
  \<open>ack > send_base\<close> ignores, and every retransmission is then dropped as too far ahead: no number
  of lossless round trips acknowledges another byte.
\<close>

theorem seq_wrap_stalls:
  assumes "send_base a = recv_next b" "reorder b = []"
    and "unat (send_base a) + k = 2 ^ 32" "k \<le> min mu (length (send_stream a))" "0 < k" "mu \<le> 65535"
  shows "send_stream (fst ((exchange mu md ^^ n) (a, b))) = send_stream a"
proof (cases n)
  case (Suc m)
  have "(exchange mu md ^^ n) (a, b) = (exchange mu md ^^ m) (exchange mu md (a, b))"
    unfolding Suc funpow_Suc_right by simp
  with stuck_forever [OF wrap_sticks [OF assms]] show ?thesis by (simp add: stuck_def)
qed simp

section \<open>The reorder buffer against any peer\<close>

datatype EpOp = Write bytes | Close | Take | Build nat | Recv Packet

fun ep_op :: "EpOp \<Rightarrow> ReliableEndpoint \<Rightarrow> ReliableEndpoint" where
  "ep_op (Write bs) e = ep_write bs e"
| "ep_op Close e = ep_close e"
| "ep_op Take e = snd (take_delivered e)"
| "ep_op (Build m) e = snd (build_packet m e)"
| "ep_op (Recv p) e = on_packet p e"

definition ep_run :: "EpOp list \<Rightarrow> ReliableEndpoint \<Rightarrow> ReliableEndpoint" where
  "ep_run ops e = fold ep_op ops e"

definition buffered_ok :: "nat \<Rightarrow> (u32, bytes) hashmap \<Rightarrow> bool" where
  "buffered_ok M m \<longleftrightarrow> hm_wf m \<and> hm_len m \<le> MAX_REORDER_SEGS \<and> (\<forall>(k, seg) \<in> set m. length seg \<le> M)"

lemma set_hm_remove: "set (hm_remove k m) \<subseteq> set m"
  by (auto simp: hm_remove_def AList.delete_eq)

lemma buffered_remove: "buffered_ok M m \<Longrightarrow> buffered_ok M (hm_remove k m)"
  using hm.len_del_le [of m k] set_hm_remove [of k m] by (auto simp: buffered_ok_def hm.wf_del)

lemma set_hm_insert: "set (hm_insert k v m) \<subseteq> insert (k, v) (set m)"
  unfolding hm_insert_def by (induction m) auto

lemma buffered_insert:
  assumes "buffered_ok M m" "length bs \<le> M" "hm_get m k \<noteq> None \<or> hm_len m < MAX_REORDER_SEGS"
  shows "buffered_ok M (hm_insert k bs m)"
proof -
  have "hm_len (hm_insert k bs m) \<le> MAX_REORDER_SEGS"
    using assms by (cases "hm_get m k") (auto simp: buffered_ok_def hm.len_ins_new hm.len_ins_old)
  with assms set_hm_insert [of k bs m] show ?thesis by (auto simp: buffered_ok_def hm.wf_ins)
qed

lemma buffered_drain:
  "buffered_ok M m \<Longrightarrow> drain_reorder m next out = (m', next', out') \<Longrightarrow> buffered_ok M m'"
proof (induction m "next" out rule: drain_reorder.induct)
  case (1 m "next" out)
  show ?case
  proof (cases "hm_get m next")
    case None
    with 1 show ?thesis by (simp add: drain_reorder.simps)
  next
    case (Some seg)
    with 1 buffered_remove show ?thesis by (simp add: drain_reorder.simps [of m])
  qed
qed

lemma buffered_accept:
  "buffered_ok M (reorder e) \<Longrightarrow> length bs \<le> M \<Longrightarrow> buffered_ok M (reorder (accept_data s bs e))"
  by (auto simp: accept_data_def Let_def buffered_insert split: prod.splits option.splits dest: buffered_drain)

lemma reorder_on_packet:
  "reorder (on_packet p e) = (if pkt_data p = [] then reorder e else reorder (accept_data (pkt_seq p) (pkt_data p) e))"
  using arg_cong [OF on_packet_view [of p e], of "fst \<circ> snd"] by (simp add: recv_view_def split: if_splits)

lemma buffered_op:
  assumes "buffered_ok M (reorder e)" "\<And>p. oper = Recv p \<Longrightarrow> length (pkt_data p) \<le> M"
  shows "buffered_ok M (reorder (ep_op oper e))"
  using assms
  by (cases oper) (auto simp: ep_write_def ep_close_def take_delivered_def reorder_on_packet buffered_accept)

lemma buffered_run:
  "buffered_ok M (reorder e) \<Longrightarrow> (\<And>p. Recv p \<in> set ops \<Longrightarrow> length (pkt_data p) \<le> M) \<Longrightarrow>
   buffered_ok M (reorder (ep_run ops e))"
proof (induction ops arbitrary: e)
  case (Cons oper ops)
  have "buffered_ok M (reorder (ep_op oper e))" using Cons.prems by (intro buffered_op) auto
  with Cons show ?case by (simp add: ep_run_def)
qed (simp add: ep_run_def)

lemma sum_bounded: "(\<forall>(k, seg) \<in> set m. length seg \<le> M) \<Longrightarrow> sum_list (map (length \<circ> snd) m) \<le> length m * M"
  by (induction m) auto

text \<open>
  Whatever an endpoint is sent, in any order and between any other operations, its reorder
  buffer never holds more than 1024 segments, hence at most 1024 payloads of memory.
\<close>

lemma reorder_memory_bounded:
  assumes "\<And>p. Recv p \<in> set ops \<Longrightarrow> length (pkt_data p) \<le> M"
  shows "hm_len (reorder (ep_run ops (ep_new s c))) \<le> MAX_REORDER_SEGS \<and>
    sum_list (map (length \<circ> snd) (reorder (ep_run ops (ep_new s c)))) \<le> MAX_REORDER_SEGS * M"
proof -
  let ?m = "reorder (ep_run ops (ep_new s c))"
  have ok: "buffered_ok M ?m"
    by (rule buffered_run) (use assms in \<open>auto simp: ep_new_def buffered_ok_def\<close>)
  then have "sum_list (map (length \<circ> snd) ?m) \<le> length ?m * M" by (intro sum_bounded) (simp add: buffered_ok_def)
  moreover have "length ?m \<le> MAX_REORDER_SEGS" using ok by (simp add: buffered_ok_def hm_len_def)
  ultimately show ?thesis using ok by (auto simp: buffered_ok_def intro: order.trans mult_le_mono1)
qed

lemma reorder_memory_bounded_witness:
  "hm_len (reorder (ep_run [Recv \<lparr>pkt_session = 1, pkt_seq = 5, pkt_ack = 0, pkt_flags = 0, pkt_data = [1, 2]\<rparr>] (ep_new 1 False)))
     \<le> MAX_REORDER_SEGS \<and>
   reorder (ep_run [Recv \<lparr>pkt_session = 1, pkt_seq = 5, pkt_ack = 0, pkt_flags = 0, pkt_data = [1, 2]\<rparr>] (ep_new 1 False)) =
     [(5, [1, 2])]"
proof
  show "hm_len (reorder (ep_run [Recv \<lparr>pkt_session = 1, pkt_seq = 5, pkt_ack = 0, pkt_flags = 0, pkt_data = [1, 2]\<rparr>] (ep_new 1 False)))
     \<le> MAX_REORDER_SEGS"
    by (rule reorder_memory_bounded [of _ 2, THEN conjunct1]) simp
qed (simp add: ep_run_def ep_new_def reorder_on_packet accept_data_def MAX_REORDER_AHEAD_def MAX_REORDER_SEGS_def hm_eval)

section \<open>Concrete runs\<close>

lemma round_trip_tunnel:
  assumes "tunnel x y" "round_trip mu md (x, y) = (x', y')"
  shows "tunnel x' y'"
proof -
  define p where "p = fst (transmit_side mu x)"
  define x1 where "x1 = snd (transmit_side mu x)"
  define y1 where "y1 = take_side (deliver_side p y)"
  define q where "q = fst (transmit_side md y1)"
  have x': "x' = take_side (deliver_side q x1)" and y': "y' = snd (transmit_side md y1)"
    using assms(2) by (auto simp: round_trip_def Let_def p_def x1_def y1_def q_def split: prod.splits)
  have "tunnel x1 y" unfolding x1_def by (rule client_step [OF assms(1) transmit])
  then have "tunnel x1 (deliver_side p y)" by (rule server_step [OF _ deliver]) (simp add: x1_def p_def)
  then have "tunnel x1 y1" unfolding y1_def by (rule server_step [OF _ app_take])
  then have "tunnel x1 y'" unfolding y' by (rule server_step [OF _ transmit])
  then have "tunnel (deliver_side q x1) y'" by (rule client_step [OF _ deliver]) (simp add: y' q_def)
  then show ?thesis unfolding x' by (rule client_step [OF _ app_take])
qed

definition demo_client :: Side where
  "demo_client = (let s = side_new 7 True in s\<lparr>sd_ep := ep_write [1, 2, 3] (sd_ep s), wrote := wrote s @ [1, 2, 3]\<rparr>)"

lemma demo_tunnel: "tunnel demo_client (side_new 0 False)"
  unfolding demo_client_def Let_def
  by (rule client_step [OF start app_write]) (simp add: side_new_def ep_new_def)

lemma demo_round:
  assumes "round_trip 2 100 (demo_client, side_new 0 False) = (x, y)"
  shows "recvd y = [1, 2]" "wrote x = [1, 2, 3]" "wrote y = []"
proof -
  have w: "wrote demo_client = [1, 2, 3]" "wrote (side_new 0 False) = []"
    and e: "send_base (sd_ep demo_client) = 0" "recv_next (sd_ep (side_new 0 False)) = 0"
    by (simp_all add: demo_client_def side_new_def ep_new_def ep_write_def)
  have f: "flow demo_client (side_new 0 False)" "flow (side_new 0 False) demo_client"
    using tunnel_flow [OF demo_tunnel] w by simp_all
  note r = round_trip_effect [OF f assms]
  show "wrote x = [1, 2, 3]" "wrote y = []" using r(3,4) w by simp_all
  have "unat (recv_next (sd_ep y)) = 2" using r(8) w e by simp
  moreover have "recvd y = take (unat (recv_next (sd_ep y))) (wrote x)" using r(1) by (simp add: flow_def)
  ultimately show "recvd y = [1, 2]" using r(3) w by simp
qed



theorem seq_wrap_stalls_witness:
  "send_stream (fst ((exchange 100 100 ^^ 1000)
      ((ep_new 1 True)\<lparr>send_base := 0xFFFFFFFE, send_stream := [1, 2, 3, 4]\<rparr>, (ep_new 0 False)\<lparr>recv_next := 0xFFFFFFFE\<rparr>))) =
   [1, 2, 3, 4]"
  using seq_wrap_stalls [of "(ep_new 1 True)\<lparr>send_base := 0xFFFFFFFE, send_stream := [1, 2, 3, 4]\<rparr>"
      "(ep_new 0 False)\<lparr>recv_next := 0xFFFFFFFE\<rparr>" 2 100 1000 100]
  by (simp add: ep_new_def)

end
