(* ===== verification/Dnstt_Serve.thy ===== *)
theory Dnstt_Serve
  imports Dnstt_Stream
begin

unbundle bit_operations_syntax

text \<open>
  The driver of the DNS tunnel (\<open>crates/transport-dnstt/src/transport.rs\<close>): the client's poller and
  reader, the server's datagram loop with its session table, admission rate and eviction, and the
  per-session driver.  One definition per loop body; sockets, tasks and the carrier pipe are the
  arguments and results of these bodies.  Shown here: a poll and its answer refine the abstract
  round trip of the endpoints, every answer fits a 512-byte DNS message, the session table is
  bounded, and admissions obey the token bucket.
\<close>

section \<open>Constants\<close>

text \<open>Times are in nanoseconds.\<close>

definition POLL_FAST_MS :: nat where "POLL_FAST_MS = 15"
definition POLL_SLOW_MS :: nat where "POLL_SLOW_MS = 800"
definition MAX_SESSIONS :: nat where "MAX_SESSIONS = 512"
definition SESSION_IDLE :: duration where "SESSION_IDLE = 30000000000"
definition REAP_INTERVAL :: duration where "REAP_INTERVAL = 1000000000"
definition EVICT_SAMPLE :: nat where "EVICT_SAMPLE = 32"
definition NEW_SESSION_RATE_PER_SEC :: nat where "NEW_SESSION_RATE_PER_SEC = 128"
definition NEW_SESSION_BURST :: nat where "NEW_SESSION_BURST = 256"
definition INBOUND_CAP :: nat where "INBOUND_CAP = 128"

lemmas serve_consts = POLL_FAST_MS_def POLL_SLOW_MS_def MAX_SESSIONS_def SESSION_IDLE_def REAP_INTERVAL_def
  EVICT_SAMPLE_def NEW_SESSION_RATE_PER_SEC_def NEW_SESSION_BURST_def INBOUND_CAP_def

definition downstream_mtu :: "bytes \<Rightarrow> nat" where
  "downstream_mtu qname =
     (let name_wire = sum_list (map (\<lambda>l. length l + 1) (filter (\<lambda>l. l \<noteq> []) (split_on 0x2E qname))) + 1;
          overhead = 12 + name_wire + 4 + 12 + 11 + 6
      in 512 - overhead - HEADER_LEN)"

section \<open>The client\<close>

text \<open>One turn of the poller: the endpoint after it and the query it sends, if any.\<close>

definition client_poll ::
  "(bytes \<Rightarrow> bytes) \<Rightarrow> bytes option \<Rightarrow> bytes \<Rightarrow> u16 \<Rightarrow> bytes \<Rightarrow> ReliableEndpoint \<Rightarrow> bytes option \<times> ReliableEndpoint" where
  "client_poll blake3 rnd cookie dns_id domain ep =
     (let (pkt, ep') = build_packet (max_upstream_data domain) ep in
      (case to_query_name blake3 rnd pkt domain of
         None \<Rightarrow> None
       | Some qname \<Rightarrow> encode_query cookie dns_id qname, ep'))"

text \<open>The delay after a turn, in milliseconds; \<open>r\<close> is the random draw.\<close>

definition poll_delay :: "nat \<Rightarrow> u32 \<Rightarrow> u32 \<Rightarrow> nat" where
  "poll_delay unacked idle r =
     (if 0 < unacked \<or> idle < 4 then (POLL_FAST_MS - 10) + unat (r mod 21)
      else min (50 * 2 ^ unat (min idle 4)) POLL_SLOW_MS)"

text \<open>One turn of the reader: the bytes written to the carrier.\<close>

definition client_recv :: "(bytes \<Rightarrow> bytes) \<Rightarrow> bytes \<Rightarrow> ReliableEndpoint \<Rightarrow> bytes \<times> ReliableEndpoint" where
  "client_recv blake3 msg ep =
     (case parse_response msg of
        None \<Rightarrow> ([], ep)
      | Some (_, payload) \<Rightarrow>
          (case Packet_decode blake3 payload of
             None \<Rightarrow> ([], ep)
           | Some pkt \<Rightarrow> take_delivered (on_packet pkt ep)))"

section \<open>The server\<close>

record Inbound =
  inb_from :: nat
  inb_dns_id :: u16
  inb_qname :: bytes
  inb_pkt :: Packet
  inb_rd :: bool
  inb_opt :: bool

text \<open>\<open>s_queue\<close> and \<open>s_rx_open\<close> are the channel behind \<open>tx\<close>: what waits in it, and whether the
  driver still holds the receiver.\<close>

record Session =
  s_queue :: "Inbound list"
  s_rx_open :: bool
  s_last_seen :: instant

text \<open>\<open>carriers\<close> lists the session ids whose carriers were sent on \<open>new_sessions\<close>.\<close>

record Serve =
  sessions :: "(u32, Session) hashmap"
  last_reap :: instant
  new_tokens :: u32
  last_refill :: instant
  carriers :: "u32 list"

definition serve_new :: "instant \<Rightarrow> Serve" where
  "serve_new now =
     \<lparr>sessions = [], last_reap = now, new_tokens = word_of_nat NEW_SESSION_BURST, last_refill = now, carriers = []\<rparr>"

definition reap_idle :: "(u32, Session) hashmap \<Rightarrow> instant \<Rightarrow> (u32, Session) hashmap" where
  "reap_idle m now = hm_retain (\<lambda>_ s. now - s_last_seen s < SESSION_IDLE) m"

text \<open>\<open>ord\<close> is the map's iteration order, which the standard library leaves open.\<close>

type_synonym iteration = "(u32, Session) hashmap \<Rightarrow> (u32 \<times> Session) list"

definition evict_approx_lru :: "iteration \<Rightarrow> (u32, Session) hashmap \<Rightarrow> (u32, Session) hashmap" where
  "evict_approx_lru ord m =
     (case min_by_key (\<lambda>e. s_last_seen (snd e)) (take EVICT_SAMPLE (ord m)) of None \<Rightarrow> m | Some (victim, _) \<Rightarrow> hm_remove victim m)"

definition try_send_inbound :: "Inbound \<Rightarrow> Session \<Rightarrow> Session" where
  "try_send_inbound msg s =
     (if s_rx_open s \<and> length (s_queue s) < INBOUND_CAP then s\<lparr>s_queue := s_queue s @ [msg]\<rparr> else s)"

definition refill_tokens :: "instant \<Rightarrow> Serve \<Rightarrow> Serve" where
  "refill_tokens now st =
     (let elapsed_ms = (now - last_refill st) div 1000000;
          refill = min (elapsed_ms * NEW_SESSION_RATE_PER_SEC div 1000) NEW_SESSION_BURST
      in if 0 < refill
         then st\<lparr>new_tokens := min (saturating_add (new_tokens st) (word_of_nat refill)) (word_of_nat NEW_SESSION_BURST),
                 last_refill := now\<rparr>
         else st)"

text \<open>The admission of a new id; \<open>None\<close> is a \<open>continue\<close>.  \<open>reserve_ok\<close> is the outcome of
  \<open>new_sessions.try_reserve()\<close>.\<close>

definition admit_session ::
  "iteration \<Rightarrow> bool \<Rightarrow> instant \<Rightarrow> u32 \<Rightarrow> Serve \<Rightarrow> Serve \<times> bool" where
  "admit_session ord reserve_ok now sess st0 =
     (let st = refill_tokens now st0 in
      if new_tokens st = 0 then (st, False)
      else if \<not> reserve_ok then (st, False)
      else
        let m = (if MAX_SESSIONS \<le> hm_len (sessions st) then evict_approx_lru ord (sessions st) else sessions st) in
        (st\<lparr>new_tokens := new_tokens st - 1, carriers := carriers st @ [sess],
            sessions := hm_insert sess \<lparr>s_queue = [], s_rx_open = True, s_last_seen = now\<rparr> m\<rparr>, True))"

record Datagram =
  dg_bytes :: bytes
  dg_from :: nat
  dg_now :: instant
  dg_reserve_ok :: bool

definition serve_inbound :: "(bytes \<Rightarrow> bytes) \<Rightarrow> bytes \<Rightarrow> Datagram \<Rightarrow> Inbound option" where
  "serve_inbound blake3 domain d =
     (case parse_query (dg_bytes d) of
        None \<Rightarrow> None
      | Some q \<Rightarrow>
          (case from_query_name blake3 (q_name q) domain of
             None \<Rightarrow> None
           | Some pkt \<Rightarrow>
               Some \<lparr>inb_from = dg_from d, inb_dns_id = q_id q, inb_qname = q_name q, inb_pkt = pkt,
                     inb_rd = recursion_desired q, inb_opt = had_opt q\<rparr>))"

definition sweep :: "instant \<Rightarrow> Serve \<Rightarrow> Serve" where
  "sweep now st =
     (if REAP_INTERVAL \<le> now - last_reap st then st\<lparr>sessions := reap_idle (sessions st) now, last_reap := now\<rparr> else st)"

definition dnstt_serve :: "iteration \<Rightarrow> (bytes \<Rightarrow> bytes) \<Rightarrow> bytes \<Rightarrow> Datagram \<Rightarrow> Serve \<Rightarrow> Serve" where
  "dnstt_serve ord blake3 domain d st0 =
     (case serve_inbound blake3 domain d of
        None \<Rightarrow> st0
      | Some msg \<Rightarrow>
          let sess = pkt_session (inb_pkt msg);
              st = sweep (dg_now d) st0;
              (st', go) =
                (case hm_get (sessions st) sess of
                   Some s \<Rightarrow> (st\<lparr>sessions := hm_insert sess (s\<lparr>s_last_seen := dg_now d\<rparr>) (sessions st)\<rparr>, True)
                 | None \<Rightarrow> admit_session ord (dg_reserve_ok d) (dg_now d) sess st)
          in if \<not> go then st'
             else case hm_get (sessions st') sess of
                    None \<Rightarrow> st'
                  | Some s \<Rightarrow> st'\<lparr>sessions := hm_insert sess (try_send_inbound msg s) (sessions st')\<rparr>)"

text \<open>One turn of a session's driver: the bytes for the carrier, the response, the endpoint.\<close>

definition session_driver ::
  "(bytes \<Rightarrow> bytes) \<Rightarrow> bytes option \<Rightarrow> Inbound \<Rightarrow> ReliableEndpoint \<Rightarrow> bytes \<times> bytes option \<times> ReliableEndpoint" where
  "session_driver blake3 rnd inb ep =
     (let (d, ep1) = take_delivered (on_packet (inb_pkt inb) ep);
          (resp, ep2) = build_packet (downstream_mtu (inb_qname inb)) ep1
      in (d, encode_response (inb_dns_id inb) (inb_qname inb) (Packet_encode blake3 rnd resp) (inb_rd inb) (inb_opt inb),
          ep2))"

section \<open>Answers fit and arrive\<close>

lemma mtu_name: "encode_name name = Some n \<Longrightarrow> downstream_mtu name = 512 - (45 + length n) - 13"
  using encode_labels_length [of "split_on 0x2E name"]
  by (auto simp: downstream_mtu_def encode_name_def HEADER_LEN_def Let_def split: option.splits if_splits)

lemma length_encode_name: "encode_name name = Some n \<Longrightarrow> length n \<le> 255"
  by (auto simp: encode_name_def MAX_NAME_def split: option.splits if_splits)

lemma response_fits:
  assumes "env_ok blake3 rnd" "encode_name name = Some n" "length (pkt_data p) \<le> downstream_mtu name"
  shows "\<exists>msg. encode_response i name (Packet_encode blake3 rnd p) rd opt = Some msg \<and> length msg \<le> 512 \<and>
    parse_response msg = Some (i, Packet_encode blake3 rnd p)"
proof -
  let ?payload = "Packet_encode blake3 rnd p"
  obtain msg where msg: "encode_response i name ?payload rd opt = Some msg"
    using assms(2) by (simp add: encode_response_def Let_def)
  have len: "length ?payload = 16 + length (pkt_data p)" by (rule length_Packet_encode [OF assms(1)])
  have d: "length (pkt_data p) + length n \<le> 454"
    using assms(3) length_encode_name [OF assms(2)] by (simp add: mtu_name [OF assms(2)])
  then have "length ?payload \<le> 470" using len by simp
  then have "(length ?payload + 254) div 255 \<le> (470 + 254) div 255" by (intro div_le_mono) simp
  then have r: "length (txt_rdata ?payload) \<le> length ?payload + 2" by (simp add: length_txt_rdata)
  then have "length msg \<le> 512" using length_encode_response [OF msg assms(2)] d len by simp
  moreover have "parse_response msg = Some (i, ?payload)"
    by (rule parse_encode_response [OF msg]) (use r d len in simp)
  ultimately show ?thesis using msg by blast
qed

text \<open>
  C15: one poll over the wire refines the abstract round trip.  For every pair of endpoints and every
  plain tunnel domain of up to 224 characters, the client's turn yields a query, the server's loop
  turns it into an \<open>Inbound\<close>, the session's driver answers with a DNS message of at most 512 bytes,
  and after the client has read it both endpoints and the bytes handed to both carriers are those
  of \<open>round_trip\<close>; neither budget counts the three nonce bytes, and both still hold.
\<close>

theorem wire_round_trip:
  assumes "env_ok blake3 rnd" "env_ok blake3 rnd'" "plain_name dn" "encode_name dn \<noteq> None" "length dn \<le> 224"
  shows "\<exists>q inb d r d' ex ey ex'.
    client_poll blake3 rnd cookie i dn (sd_ep x) = (Some q, ex) \<and>
    serve_inbound blake3 dn \<lparr>dg_bytes = q, dg_from = addr, dg_now = now, dg_reserve_ok = ok\<rparr> = Some inb \<and>
    session_driver blake3 rnd' inb (sd_ep y) = (d, Some r, ey) \<and> length r \<le> 512 \<and>
    client_recv blake3 r ex = (d', ex') \<and>
    (let (x', y') = round_trip (max_upstream_data dn) (downstream_mtu (inb_qname inb)) (x, y) in
     ex' = sd_ep x' \<and> ey = sd_ep y' \<and> got x' = got x @ d' \<and> got y' = got y @ d)"
proof -
  let ?mu = "max_upstream_data dn"
  obtain p ex where b: "build_packet ?mu (sd_ep x) = (p, ex)" by (cases "build_packet ?mu (sd_ep x)")
  have "length (pkt_data (fst (build_packet ?mu (sd_ep x)))) \<le> ?mu" by simp
  then have "length (pkt_data p) \<le> ?mu" by (simp add: b)
  from query_carries_packet [OF assms(1,3-5) this, of cookie i] obtain name n q where
    name: "to_query_name blake3 rnd p dn = Some name" and n: "encode_name name = Some n" and
    q: "encode_query cookie i name = Some q"
      "parse_query q = Some \<lparr>q_id = i, q_name = name, recursion_desired = True, had_opt = True\<rparr>"
      "from_query_name blake3 name dn = Some p" by blast
  define inb where "inb = \<lparr>inb_from = addr, inb_dns_id = i, inb_qname = name, inb_pkt = p, inb_rd = True, inb_opt = True\<rparr>"
  have inb: "serve_inbound blake3 dn \<lparr>dg_bytes = q, dg_from = addr, dg_now = now, dg_reserve_ok = ok\<rparr> = Some inb"
    by (simp add: serve_inbound_def q inb_def)
  define y1 where "y1 = take_side (deliver_side p y)"
  obtain p' ey where b': "build_packet (downstream_mtu name) (sd_ep y1) = (p', ey)"
    by (cases "build_packet (downstream_mtu name) (sd_ep y1)")
  have "length (pkt_data (fst (build_packet (downstream_mtu name) (sd_ep y1)))) \<le> downstream_mtu name" by simp
  then have "length (pkt_data p') \<le> downstream_mtu name" by (simp add: b')
  from response_fits [OF assms(2) n this] obtain r where
    r: "encode_response i name (Packet_encode blake3 rnd' p') True True = Some r" "length r \<le> 512"
      "parse_response r = Some (i, Packet_encode blake3 rnd' p')" by blast
  have "client_poll blake3 rnd cookie i dn (sd_ep x) = (Some q, ex)" by (simp add: client_poll_def b name q(1))
  moreover have "session_driver blake3 rnd' inb (sd_ep y) = (delivered (on_packet p (sd_ep y)), Some r, ey)"
    using b' by (simp add: session_driver_def inb_def take_delivered_def y1_def side_ops deliver_side_def r(1))
  moreover have "client_recv blake3 r ex = take_delivered (on_packet p' ex)"
    by (simp add: client_recv_def r(3) decode_encode_packet [OF assms(2)])
  moreover have "round_trip ?mu (downstream_mtu (inb_qname inb)) (x, y) =
      (take_side (deliver_side p' (x\<lparr>sd_ep := ex, sent := insert p (sent x)\<rparr>)), y1\<lparr>sd_ep := ey, sent := insert p' (sent y)\<rparr>)"
    using b b' by (simp add: round_trip_def transmit_side_def inb_def flip: y1_def)
  ultimately show ?thesis
    using inb r(2) by (simp add: take_delivered_def side_ops deliver_side_def y1_def)
qed

text \<open>The hypotheses hold for a concrete hash, domain and pair of fresh sides.\<close>

theorem wire_round_trip_witness:
  "\<exists>q inb d r d' ex ey ex'.
    client_poll (\<lambda>x. replicate 32 0x5A) (Some [1, 2, 3]) [1, 2, 3, 4, 5, 6, 7, 8] 0x1234 [0x74, 0x2E, 0x63, 0x6F, 0x6D]
      (sd_ep demo_client) = (Some q, ex) \<and>
    serve_inbound (\<lambda>x. replicate 32 0x5A) [0x74, 0x2E, 0x63, 0x6F, 0x6D]
      \<lparr>dg_bytes = q, dg_from = 9, dg_now = 0, dg_reserve_ok = True\<rparr> = Some inb \<and>
    session_driver (\<lambda>x. replicate 32 0x5A) None inb (sd_ep (side_new 0 False)) = (d, Some r, ey) \<and> length r \<le> 512 \<and>
    client_recv (\<lambda>x. replicate 32 0x5A) r ex = (d', ex') \<and>
    (let (x', y') = round_trip (max_upstream_data [0x74, 0x2E, 0x63, 0x6F, 0x6D]) (downstream_mtu (inb_qname inb))
        (demo_client, side_new 0 False) in
     ex' = sd_ep x' \<and> ey = sd_ep y' \<and> got x' = got demo_client @ d' \<and> got y' = got (side_new 0 False) @ d)"
proof (rule wire_round_trip)
  show "env_ok (\<lambda>x. replicate 32 0x5A) (Some [1, 2, 3])" "env_ok (\<lambda>x. replicate 32 0x5A) None"
    by (simp_all add: env_ok_def HEADER_NONCE_LEN_def)
qed (simp_all add: plain_name_def ascii_lower_def encode_name_def MAX_LABEL_def MAX_NAME_def)

section \<open>The session table\<close>

definition session_ok :: "Session \<Rightarrow> bool" where
  "session_ok s \<longleftrightarrow> length (s_queue s) \<le> INBOUND_CAP"

definition serve_inv :: "Serve \<Rightarrow> bool" where
  "serve_inv st \<longleftrightarrow> hm_wf (sessions st) \<and> hm_len (sessions st) \<le> MAX_SESSIONS \<and> list_all (session_ok \<circ> snd) (sessions st)"

lemma evict_shrinks:
  assumes "iterates ord" "hm_wf m" "m \<noteq> []"
  shows "hm_len (evict_approx_lru ord m) < hm_len m"
proof -
  have "ord m \<noteq> []" using assms(1,3) by (metis iterates_def set_empty)
  then obtain k s where e: "min_by_key (\<lambda>e. s_last_seen (snd e)) (take EVICT_SAMPLE (ord m)) = Some (k, s)"
    using min_by_key_none [of "\<lambda>e. s_last_seen (snd e)" "take EVICT_SAMPLE (ord m)"] by (auto simp: EVICT_SAMPLE_def)
  then have "(k, s) \<in> set m"
    using assms(1) min_by_key_mem [OF e] by (auto simp: iterates_def dest: in_set_takeD)
  then have "hm_get m k = Some s" using assms(2) by (simp add: hm_get_def hm_wf_def)
  with hm.len_del_old [OF assms(2) this] hm.len_pos [OF assms(2) this] e show ?thesis by (simp add: evict_approx_lru_def)
qed

lemma set_hm_retain: "set (hm_retain P m) \<subseteq> set m"
  by (auto simp: hm_retain_def)

lemma evict_inv: "hm_wf m \<Longrightarrow> hm_wf (evict_approx_lru ord m)" "set (evict_approx_lru ord m) \<subseteq> set m"
  using set_hm_remove by (auto simp: evict_approx_lru_def hm.wf_del split: option.splits) fast+

lemma list_all_hm_insert:
  assumes "list_all (P \<circ> snd) m" "P v"
  shows "list_all (P \<circ> snd) (hm_insert k v m)"
  unfolding list_all_iff
proof
  fix e assume "e \<in> set (hm_insert k v m)"
  with set_hm_insert [of k v m] have "e = (k, v) \<or> e \<in> set m" by auto
  with assms show "(P \<circ> snd) e" by (auto simp: list_all_iff)
qed

lemma serve_inv_insert:
  assumes "serve_inv st" "session_ok s" "hm_get (sessions st) k \<noteq> None"
  shows "serve_inv (st\<lparr>sessions := hm_insert k s (sessions st)\<rparr>)"
  using assms by (auto simp: serve_inv_def hm.wf_ins hm.len_ins_old list_all_hm_insert)

lemma session_ok_of: "serve_inv st \<Longrightarrow> hm_get (sessions st) k = Some s \<Longrightarrow> session_ok s"
  by (force simp: serve_inv_def list_all_iff hm_get_def dest: map_of_SomeD)

lemma sweep_inv: "serve_inv st \<Longrightarrow> serve_inv (sweep now st)"
  using set_hm_retain hm.len_retain_le
  by (fastforce simp: serve_inv_def sweep_def reap_idle_def hm.wf_retain list_all_iff intro: order.trans)

lemma refill_sessions [simp]: "sessions (refill_tokens now st) = sessions st" "carriers (refill_tokens now st) = carriers st"
  by (simp_all add: refill_tokens_def Let_def)

lemma admit_inv:
  assumes "iterates ord" "serve_inv st" "hm_get (sessions st) k = None" "admit_session ord ok now k st = (st', go)"
  shows "serve_inv st'" "go \<Longrightarrow> hm_get (sessions st') k \<noteq> None"
proof -
  define m where "m = (if MAX_SESSIONS \<le> hm_len (sessions st) then evict_approx_lru ord (sessions st) else sessions st)"
  have wf: "hm_wf (sessions st)" "hm_len (sessions st) \<le> MAX_SESSIONS" "list_all (session_ok \<circ> snd) (sessions st)"
    using assms(2) by (simp_all add: serve_inv_def)
  have m: "hm_wf m" "set m \<subseteq> set (sessions st)" using wf evict_inv by (auto simp: m_def)
  have len: "hm_len m < MAX_SESSIONS"
  proof (cases "MAX_SESSIONS \<le> hm_len (sessions st)")
    case True
    then have "sessions st \<noteq> []" by (auto simp: MAX_SESSIONS_def)
    with True evict_shrinks [OF assms(1) wf(1)] wf(2) show ?thesis by (simp add: m_def)
  qed (simp add: m_def)
  have none: "hm_get m k = None"
  proof (rule ccontr)
    assume "hm_get m k \<noteq> None"
    then obtain s where "(k, s) \<in> set m" by (auto simp: hm_get_def dest: map_of_SomeD)
    with m(2) have "(k, s) \<in> set (sessions st)" by blast
    with wf(1) assms(3) show False by (simp add: hm_get_def hm_wf_def map_of_eq_None_iff)
  qed
  have all: "list_all (session_ok \<circ> snd) m" using m(2) wf(3) by (auto simp: list_all_iff)
  let ?s = "\<lparr>s_queue = [], s_rx_open = True, s_last_seen = now\<rparr>"
  have "serve_inv (st\<lparr>new_tokens := t, carriers := c, last_refill := r, sessions := hm_insert k ?s m\<rparr>)" for t c r
    using m(1) all len hm.len_ins_new [OF m(1) none]
    by (simp add: serve_inv_def hm.wf_ins list_all_hm_insert session_ok_def)
  then show "serve_inv st'"
    using assms(2,4) by (auto simp: admit_session_def Let_def serve_inv_def m_def split: if_splits)
  show "go \<Longrightarrow> hm_get (sessions st') k \<noteq> None"
    using assms(4) by (auto simp: admit_session_def Let_def hm.get_ins split: if_splits)
qed

lemma serve_inv_step:
  assumes "iterates ord" "serve_inv st"
  shows "serve_inv (dnstt_serve ord blake3 dn d st)"
proof (cases "serve_inbound blake3 dn d")
  case None
  then show ?thesis using assms(2) by (simp add: dnstt_serve_def)
next
  case (Some msg)
  let ?k = "pkt_session (inb_pkt msg)" and ?st = "sweep (dg_now d) st"
  have st: "serve_inv ?st" by (rule sweep_inv [OF assms(2)])
  define r where "r = (case hm_get (sessions ?st) ?k of
      Some s \<Rightarrow> (?st\<lparr>sessions := hm_insert ?k (s\<lparr>s_last_seen := dg_now d\<rparr>) (sessions ?st)\<rparr>, True)
    | None \<Rightarrow> admit_session ord (dg_reserve_ok d) (dg_now d) ?k ?st)"
  obtain st' go where r': "r = (st', go)" by (cases r)
  have inv: "serve_inv st'"
  proof (cases "hm_get (sessions ?st) ?k")
    case None
    with r' admit_inv(1) [OF assms(1) st None] show ?thesis by (simp add: r_def)
  next
    case (Some s)
    with r' serve_inv_insert [OF st, of "s\<lparr>s_last_seen := dg_now d\<rparr>" ?k] session_ok_of [OF st Some]
    show ?thesis by (auto simp: r_def session_ok_def)
  qed
  have "serve_inv (st'\<lparr>sessions := hm_insert ?k (try_send_inbound msg s) (sessions st')\<rparr>)" if "hm_get (sessions st') ?k = Some s" for s
    using session_ok_of [OF inv that] that
    by (intro serve_inv_insert [OF inv]) (auto simp: session_ok_def try_send_inbound_def)
  with inv Some r' show ?thesis
    by (auto simp: dnstt_serve_def Let_def r_def [symmetric] split: option.splits)
qed

definition serve_run :: "iteration \<Rightarrow> (bytes \<Rightarrow> bytes) \<Rightarrow> bytes \<Rightarrow> Datagram list \<Rightarrow> Serve \<Rightarrow> Serve" where
  "serve_run ord blake3 dn ds st = fold (dnstt_serve ord blake3 dn) ds st"

lemma serve_inv_run: "iterates ord \<Longrightarrow> serve_inv st \<Longrightarrow> serve_inv (serve_run ord blake3 dn ds st)"
  by (induction ds arbitrary: st) (simp_all add: serve_run_def serve_inv_step)



section \<open>The admission rate\<close>

definition bucket_inv :: "instant \<Rightarrow> instant \<Rightarrow> Serve \<Rightarrow> bool" where
  "bucket_inv t0 now st \<longleftrightarrow>
     t0 \<le> last_refill st \<and> last_refill st \<le> now \<and>
     1000 * (length (carriers st) + unat (new_tokens st)) \<le> 256000 + 128 * ((last_refill st - t0) div 1000000)"

lemma bucket_later: "bucket_inv t0 now st \<Longrightarrow> now \<le> now' \<Longrightarrow> bucket_inv t0 now' st"
  by (simp add: bucket_inv_def)

lemma div_superadd: "(a div c) + (b div c) \<le> (a + b) div (c :: nat)"
proof (cases "c = 0")
  case False
  have "c * (a div c + b div c) \<le> a + b" by (simp add: distrib_left add_mono)
  then show ?thesis using False by (simp add: less_eq_div_iff_mult_less_eq mult.commute)
qed simp

lemma bucket_refill:
  assumes "bucket_inv t0 now st"
  shows "bucket_inv t0 now (refill_tokens now st)"
proof -
  define e where "e = (now - last_refill st) div 1000000"
  define r where "r = min (e * 128 div 1000) 256"
  define base where "base = (last_refill st - t0) div 1000000"
  have t: "t0 \<le> last_refill st" "last_refill st \<le> now"
    and b: "1000 * length (carriers st) + 1000 * unat (new_tokens st) \<le> 256000 + 128 * base"
    using assms by (simp_all add: bucket_inv_def base_def algebra_simps)
  have "unat (min (saturating_add (new_tokens st) (word_of_nat r)) (word_of_nat 256)) \<le> unat (saturating_add (new_tokens st) (word_of_nat r))"
    by (simp add: min_def word_le_nat_alt)
  also have "\<dots> \<le> unat (new_tokens st) + unat (word_of_nat r :: u32)" by (simp add: unat_saturating_add)
  also have "\<dots> \<le> unat (new_tokens st) + r" by (simp add: unsigned_of_nat)
  finally have tok: "unat (min (saturating_add (new_tokens st) (word_of_nat r)) (word_of_nat 256)) \<le> unat (new_tokens st) + r" .
  have "r \<le> e * 128 div 1000" unfolding r_def by (rule min.cobounded1)
  then have "r * 1000 \<le> (e * 128 div 1000) * 1000" by (rule mult_le_mono1)
  also have "\<dots> \<le> e * 128" by (rule div_times_less_eq_dividend)
  finally have r: "1000 * r \<le> 128 * e" by (simp only: mult.commute)
  have "base + e \<le> (last_refill st - t0 + (now - last_refill st)) div 1000000"
    unfolding base_def e_def by (rule div_superadd)
  moreover have "last_refill st - t0 + (now - last_refill st) = now - t0" using t by simp
  ultimately have "base + e \<le> (now - t0) div 1000000" by simp
  then have "1000 * length (carriers st) + 1000 * unat (min (saturating_add (new_tokens st) (word_of_nat r)) (word_of_nat 256))
      \<le> 256000 + 128 * ((now - t0) div 1000000)"
    using b tok r by linarith
  moreover have "refill_tokens now st = (if 0 < r then st\<lparr>new_tokens := min (saturating_add (new_tokens st) (word_of_nat r))
      (word_of_nat 256), last_refill := now\<rparr> else st)"
    by (simp only: refill_tokens_def Let_def r_def e_def NEW_SESSION_RATE_PER_SEC_def NEW_SESSION_BURST_def)
  ultimately show ?thesis using assms t by (simp add: bucket_inv_def distrib_left del: of_nat_numeral)
qed

lemma bucket_admit:
  assumes "bucket_inv t0 now st" "admit_session ord ok now k st = (st', go)"
  shows "bucket_inv t0 now st'"
proof -
  let ?st = "refill_tokens now st"
  have b: "bucket_inv t0 now ?st" by (rule bucket_refill [OF assms(1)])
  consider "st' = ?st" | "new_tokens ?st \<noteq> 0" "length (carriers st') = Suc (length (carriers ?st))"
      "new_tokens st' = new_tokens ?st - 1" "last_refill st' = last_refill ?st"
    using assms(2) by (auto simp: admit_session_def Let_def split: if_splits)
  then show ?thesis
  proof cases
    case 1
    with b show ?thesis by simp
  next
    case 2
    have "unat (new_tokens ?st - 1) = unat (new_tokens ?st) - 1" "0 < unat (new_tokens ?st)"
      using 2(1) by (simp_all add: unat_minus_one unat_gt_0)
    with 2 b show ?thesis by (simp add: bucket_inv_def)
  qed
qed

lemma bucket_step:
  assumes "bucket_inv t0 now st" "now \<le> dg_now d"
  shows "bucket_inv t0 (dg_now d) (dnstt_serve ord blake3 dn d st)"
proof (cases "serve_inbound blake3 dn d")
  case None
  with bucket_later [OF assms] show ?thesis by (simp add: dnstt_serve_def)
next
  case (Some msg)
  let ?k = "pkt_session (inb_pkt msg)" and ?st = "sweep (dg_now d) st"
  have st: "bucket_inv t0 (dg_now d) ?st"
    using bucket_later [OF assms] by (simp add: bucket_inv_def sweep_def)
  have same: "bucket_inv t0 t (s\<lparr>sessions := m\<rparr>) = bucket_inv t0 t s" for t s m by (simp add: bucket_inv_def)
  show ?thesis
  proof (cases "hm_get (sessions ?st) ?k")
    case None
    obtain st' go where a: "admit_session ord (dg_reserve_ok d) (dg_now d) ?k ?st = (st', go)"
      by (cases "admit_session ord (dg_reserve_ok d) (dg_now d) ?k ?st")
    from bucket_admit [OF st a] None a Some show ?thesis
      by (auto simp: dnstt_serve_def Let_def same split: option.splits)
  next
    case (Some s)
    with st \<open>serve_inbound blake3 dn d = Some msg\<close> show ?thesis
      by (simp add: dnstt_serve_def Let_def same hm.get_ins)
  qed
qed

lemma bucket_run:
  "bucket_inv t0 now st \<Longrightarrow> sorted (now # map dg_now ds) \<Longrightarrow>
   bucket_inv t0 (last (now # map dg_now ds)) (serve_run ord blake3 dn ds st)"
proof (induction ds arbitrary: now st)
  case (Cons d ds)
  have "bucket_inv t0 (dg_now d) (dnstt_serve ord blake3 dn d st)"
    using Cons.prems by (intro bucket_step) auto
  from Cons.IH [OF this] Cons.prems show ?case by (simp add: serve_run_def)
qed (simp add: serve_run_def)

text \<open>
  Over any sequence of datagrams the server admits at most 256 new sessions plus 128 for each
  second that has passed.
\<close>

lemma admission_rate:
  assumes "sorted (t0 # map dg_now ds)"
  shows "1000 * length (carriers (serve_run ord blake3 dn ds (serve_new t0)))
    \<le> 1000 * NEW_SESSION_BURST + NEW_SESSION_RATE_PER_SEC * ((last (t0 # map dg_now ds) - t0) div 1000000)"
proof -
  let ?t = "last (t0 # map dg_now ds)" and ?st = "serve_run ord blake3 dn ds (serve_new t0)"
  have "bucket_inv t0 t0 (serve_new t0)"
    by (simp add: bucket_inv_def serve_new_def NEW_SESSION_BURST_def)
  from bucket_run [OF this assms]
  have b: "last_refill ?st \<le> ?t" "1000 * (length (carriers ?st) + unat (new_tokens ?st)) \<le> 256000 + 128 * ((last_refill ?st - t0) div 1000000)"
    by (simp_all add: bucket_inv_def)
  have "(last_refill ?st - t0) div 1000000 \<le> (?t - t0) div 1000000"
    using b(1) by (intro div_le_mono diff_le_mono)
  with b(2) show ?thesis unfolding NEW_SESSION_BURST_def NEW_SESSION_RATE_PER_SEC_def by simp
qed

lemma admission_rate_witness:
  "1000 * length (carriers (serve_run (\<lambda>m. m) (\<lambda>x. replicate 32 0) [0x74]
      [\<lparr>dg_bytes = [], dg_from = 1, dg_now = 5, dg_reserve_ok = True\<rparr>] (serve_new 0))) \<le> 256000"
  using admission_rate [of 0 "[\<lparr>dg_bytes = [], dg_from = 1, dg_now = 5, dg_reserve_ok = True\<rparr>]"]
  by (simp add: NEW_SESSION_BURST_def)

section \<open>A session whose driver is gone\<close>

definition dead_entry :: "u32 \<Rightarrow> instant \<Rightarrow> Serve \<Rightarrow> bool" where
  "dead_entry k t st \<longleftrightarrow> hm_wf (sessions st) \<and>
     (\<exists>s. hm_get (sessions st) k = Some s \<and> \<not> s_rx_open s \<and> s_last_seen s = t)"

lemma dead_step:
  assumes "dead_entry k t st" "serve_inbound blake3 dn d = Some msg" "pkt_session (inb_pkt msg) = k"
    and "dg_now d < t + SESSION_IDLE"
  shows "dead_entry k (dg_now d) (dnstt_serve ord blake3 dn d st)" "carriers (dnstt_serve ord blake3 dn d st) = carriers st"
proof -
  obtain s where s: "hm_wf (sessions st)" "hm_get (sessions st) k = Some s" "\<not> s_rx_open s" "s_last_seen s = t"
    using assms(1) by (auto simp: dead_entry_def)
  have "hm_get (sessions (sweep (dg_now d) st)) k = Some s" "hm_wf (sessions (sweep (dg_now d) st))"
    using s assms(4) by (auto simp: sweep_def reap_idle_def hm.get_retain hm.wf_retain SESSION_IDLE_def)
  then show "dead_entry k (dg_now d) (dnstt_serve ord blake3 dn d st)" "carriers (dnstt_serve ord blake3 dn d st) = carriers st"
    using assms(2,3) s(3)
    by (simp_all add: dnstt_serve_def Let_def dead_entry_def hm.get_ins hm.wf_ins try_send_inbound_def)
      (simp add: sweep_def)
qed

fun polls :: "(bytes \<Rightarrow> bytes) \<Rightarrow> bytes \<Rightarrow> u32 \<Rightarrow> instant \<Rightarrow> Datagram list \<Rightarrow> bool" where
  "polls blake3 dn k t [] = True"
| "polls blake3 dn k t (d # ds) =
     ((case serve_inbound blake3 dn d of None \<Rightarrow> False | Some msg \<Rightarrow> pkt_session (inb_pkt msg) = k) \<and>
      dg_now d < t + SESSION_IDLE \<and> polls blake3 dn k (dg_now d) ds)"

text \<open>
  Once the driver of a session has ended, its entry in the table is never replaced while the
  client keeps polling: every query refreshes the entry and is dropped, and no new carrier is made.
\<close>

lemma dead_session_pinned:
  assumes "dead_entry k t st" "polls blake3 dn k t ds"
  shows "dead_entry k (last (t # map dg_now ds)) (serve_run ord blake3 dn ds st) \<and>
    carriers (serve_run ord blake3 dn ds st) = carriers st"
  using assms
proof (induction ds arbitrary: t st)
  case (Cons d ds)
  from Cons.prems(2) obtain msg where d: "serve_inbound blake3 dn d = Some msg" "pkt_session (inb_pkt msg) = k"
    "dg_now d < t + SESSION_IDLE" "polls blake3 dn k (dg_now d) ds" by (auto split: option.splits)
  note s = dead_step [OF Cons.prems(1) d(1-3), of ord]
  show ?case using Cons.IH [OF s(1) d(4)] s(2) by (simp add: serve_run_def)
qed (simp add: serve_run_def)

lemma dead_session_pinned_witness:
  "\<exists>ds st. length ds = 1 \<and> polls (\<lambda>x. replicate 32 0x5A) [0x74, 0x2E, 0x63, 0x6F, 0x6D] 7 0 ds \<and>
     dead_entry 7 0 st \<and> dead_entry 7 5 (serve_run (\<lambda>m. m) (\<lambda>x. replicate 32 0x5A) [0x74, 0x2E, 0x63, 0x6F, 0x6D] ds st)"
proof -
  let ?h = "\<lambda>x :: bytes. replicate 32 (0x5A :: u8)" and ?dn = "[0x74, 0x2E, 0x63, 0x6F, 0x6D] :: bytes"
  let ?p = "\<lparr>pkt_session = 7, pkt_seq = 0, pkt_ack = 0, pkt_flags = 1, pkt_data = []\<rparr>"
  let ?s = "\<lparr>s_queue = [], s_rx_open = False, s_last_seen = 0\<rparr>"
  let ?st = "(serve_new 0)\<lparr>sessions := [(7, ?s)]\<rparr>"
  have "\<exists>name n msg. to_query_name ?h None ?p ?dn = Some name \<and> encode_name name = Some n \<and>
    encode_query [] 1 name = Some msg \<and>
    parse_query msg = Some \<lparr>q_id = 1, q_name = name, recursion_desired = True, had_opt = True\<rparr> \<and>
    from_query_name ?h name ?dn = Some ?p"
  proof (rule query_carries_packet)
    show "env_ok ?h None" by (simp add: env_ok_def)
  qed (simp_all add: plain_name_def ascii_lower_def encode_name_def MAX_LABEL_def MAX_NAME_def)
  then obtain name msg where q: "parse_query msg = Some \<lparr>q_id = 1, q_name = name, recursion_desired = True, had_opt = True\<rparr>"
    "from_query_name ?h name ?dn = Some ?p" by blast
  let ?ds = "[\<lparr>dg_bytes = msg, dg_from = 1, dg_now = 5, dg_reserve_ok = True\<rparr>]"
  have p: "polls ?h ?dn 7 0 ?ds" by (simp add: serve_inbound_def q SESSION_IDLE_def)
  have d: "dead_entry 7 0 ?st" by (simp add: dead_entry_def hm_wf_def hm_get_def)
  from dead_session_pinned [OF d p, of "\<lambda>m. m"] p d show ?thesis
    by (intro exI [of _ ?ds] exI [of _ ?st]) simp
qed

end
