(* ===== verification/Record_Log.thy ===== *)
theory Record_Log
  imports Mirage_Prelude
begin

text \<open>
  The append-only files of the bridge: a header of eight bytes and records of one fixed length, written
  through a buffered writer.  The replay log (\<open>crates/discovery/src/replay_log.rs\<close>) and the claim log
  (\<open>crates/bridge/src/claim_log.rs\<close>) share this code up to header and record length, so the operations
  take the record length and what they guarantee is proved once, in a locale both logs interpret.
\<close>

section \<open>The buffered writer\<close>

text \<open>
  \<open>lg_disk\<close> is the file, \<open>lg_buf\<close> the buffer of its \<open>BufWriter\<close>.  The outcome of a flush is \<open>None\<close> when
  the system takes everything, and \<open>Some n\<close> when it fails after \<open>n\<close> bytes; the bytes not written
  stay in the buffer.  The file position is always the end of the file.
\<close>

record BufferedLog =
  lg_disk :: bytes
  lg_buf :: bytes
  fsync_every_write :: bool

type_synonym outcome = "nat option"

definition bw_flush :: "outcome \<Rightarrow> BufferedLog \<Rightarrow> bool \<times> BufferedLog" where
  "bw_flush w lg =
     (let k = (case w of None \<Rightarrow> length (lg_buf lg) | Some n \<Rightarrow> min n (length (lg_buf lg))) in
      (k = length (lg_buf lg), lg\<lparr>lg_disk := lg_disk lg @ take k (lg_buf lg), lg_buf := drop k (lg_buf lg)\<rparr>))"

definition BUF_CAPACITY :: nat where "BUF_CAPACITY = 8192"

text \<open>\<open>BufWriter::write_all\<close> for a slice shorter than the buffer's capacity.\<close>

definition bw_write_all :: "outcome \<Rightarrow> bytes \<Rightarrow> BufferedLog \<Rightarrow> bool \<times> BufferedLog" where
  "bw_write_all w bs lg =
     (let spare = BUF_CAPACITY - length (lg_buf lg);
          (ok, lg') = (if spare < length bs then bw_flush w lg else (True, lg))
      in if ok then (True, lg'\<lparr>lg_buf := lg_buf lg' @ bs\<rparr>) else (False, lg'))"

section \<open>Records\<close>

definition LOG_HEADER_LEN :: nat where "LOG_HEADER_LEN = 8"

definition truncate_torn :: "nat \<Rightarrow> bytes \<Rightarrow> bytes" where
  "truncate_torn rl d =
     (if LOG_HEADER_LEN < length d then
        let remainder = (length d - LOG_HEADER_LEN) mod rl in
        if remainder \<noteq> 0 then take (length d - remainder) d else d
      else d)"

text \<open>The outcomes one \<open>append\<close> may meet: a flush inside \<open>write_all\<close>, the flush, \<open>sync_data\<close>, and in the
  clean-up another flush and \<open>set_len\<close>.\<close>

record append_io =
  io_fill :: outcome
  io_flush :: outcome
  io_sync :: bool
  io_reflush :: outcome
  io_set_len :: bool

definition write_record :: "append_io \<Rightarrow> bytes \<Rightarrow> BufferedLog \<Rightarrow> bool \<times> BufferedLog" where
  "write_record io rec lg =
     (let (ok1, lg1) = bw_write_all (io_fill io) rec lg in
      if \<not> ok1 then (False, lg1)
      else
        let (ok2, lg2) = bw_flush (io_flush io) lg1 in
        if \<not> ok2 then (False, lg2)
        else if fsync_every_write lg2 \<and> \<not> io_sync io then (False, lg2)
        else (True, lg2))"

definition realign_to_record_boundary :: "nat \<Rightarrow> append_io \<Rightarrow> BufferedLog \<Rightarrow> BufferedLog" where
  "realign_to_record_boundary rl io lg =
     (let lg1 = snd (bw_flush (io_reflush io) lg) in
      if io_set_len io then lg1\<lparr>lg_disk := truncate_torn rl (lg_disk lg1)\<rparr> else lg1)"

definition append_record :: "nat \<Rightarrow> append_io \<Rightarrow> bytes \<Rightarrow> BufferedLog \<Rightarrow> bool \<times> BufferedLog" where
  "append_record rl io rec lg =
     (let (ok, lg1) = write_record io rec lg in
      if ok then (True, lg1) else (False, realign_to_record_boundary rl io lg1))"

lemma flush_split: "bw_flush w lg = (ok, lg') \<Longrightarrow>
  lg_disk lg' @ lg_buf lg' = lg_disk lg @ lg_buf lg \<and> fsync_every_write lg' = fsync_every_write lg \<and> (ok \<longleftrightarrow> lg_buf lg' = [])"
  by (auto simp: bw_flush_def Let_def split: option.splits)

text \<open>A log whose file is the header and whole records, with nothing buffered.\<close>

definition synced :: "bytes \<Rightarrow> ('e \<Rightarrow> bytes) \<Rightarrow> ('e \<Rightarrow> bool) \<Rightarrow> 'e list \<Rightarrow> BufferedLog \<Rightarrow> bool" where
  "synced hdr rec ok es lg \<longleftrightarrow> list_all ok es \<and> lg_buf lg = [] \<and> lg_disk lg = hdr @ concat (map rec es)"

text \<open>I/O whose clean-up after a failure works.\<close>

definition clean_io :: "append_io \<Rightarrow> bool" where
  "clean_io io \<longleftrightarrow> io_reflush io = None \<and> io_set_len io"

locale record_log =
  fixes hdr :: bytes
    and rec :: "'e \<Rightarrow> bytes"
    and rl :: nat
    and ok :: "'e \<Rightarrow> bool"
  assumes hdr_len: "length hdr = 8"
    and rl_pos: "0 < rl"
    and rl_buf: "rl \<le> BUF_CAPACITY"
    and rec_len: "ok e \<Longrightarrow> length (rec e) = rl"
begin

lemma rec_lens: "list_all ok es \<Longrightarrow> length (concat (map rec es)) = rl * length es"
  by (induction es) (auto simp: rec_len)

text \<open>Records up to the torn one survive: \<open>take n\<close> is the file after a crash.\<close>

lemma rec_take:
  assumes "list_all ok es"
  shows "\<exists>tail. take n (concat (map rec es)) = concat (map rec (take (n div rl) es)) @ tail \<and> length tail < rl"
  using assms
proof (induction es arbitrary: n)
  case Nil
  then show ?case using rl_pos by simp
next
  case (Cons e es)
  have len: "length (rec e) = rl" using Cons.prems by (simp add: rec_len)
  show ?case
  proof (cases "n < rl")
    case True
    then show ?thesis using len by simp
  next
    case False
    then have n: "n div rl = Suc ((n - rl) div rl)" using rl_pos by (simp add: div_if)
    obtain tail where "take (n - rl) (concat (map rec es)) =
        concat (map rec (take ((n - rl) div rl) es)) @ tail" "length tail < rl"
      using Cons.IH [of "n - rl"] Cons.prems by auto
    with False len n show ?thesis by simp
  qed
qed

lemma rec_truncate:
  assumes "list_all ok es" "length tail < rl"
  shows "truncate_torn rl (hdr @ concat (map rec es) @ tail) = hdr @ concat (map rec es)"
proof -
  let ?c = "concat (map rec es)"
  have len: "length ?c = rl * length es" by (rule rec_lens [OF assms(1)])
  then have "(length ?c + length tail) mod rl = length tail" using assms(2) by simp
  then show ?thesis using assms(2) by (auto simp: truncate_torn_def LOG_HEADER_LEN_def hdr_len Let_def)
qed

lemma rec_append_ok:
  assumes "synced hdr rec ok es lg" "ok e" "append_record rl io (rec e) lg = (True, lg')"
  shows "synced hdr rec ok (es @ [e]) lg'"
  using assms rec_len [OF assms(2)] rl_buf
  by (auto simp: synced_def append_record_def write_record_def bw_write_all_def bw_flush_def Let_def
      split: if_splits option.splits prod.splits)

text \<open>
  A failed append that leaves the buffer empty left the log aligned; the record may or may not
  have reached the file.
\<close>

lemma rec_write:
  assumes "synced hdr rec ok es lg" "ok e" "write_record io (rec e) lg = (b, lg')"
  shows "lg_disk lg' @ lg_buf lg' = hdr @ concat (map rec es) @ rec e"
proof -
  have w: "bw_write_all (io_fill io) (rec e) lg = (True, lg\<lparr>lg_buf := rec e\<rparr>)"
    using assms(1) rec_len [OF assms(2)] rl_buf by (simp add: bw_write_all_def synced_def)
  obtain ok2 lg2 where f: "bw_flush (io_flush io) (lg\<lparr>lg_buf := rec e\<rparr>) = (ok2, lg2)"
    by (cases "bw_flush (io_flush io) (lg\<lparr>lg_buf := rec e\<rparr>)")
  then have "lg' = lg2" using assms(3) w by (auto simp: write_record_def split: if_splits)
  with flush_split [OF f] assms(1) show ?thesis by (simp add: synced_def)
qed

lemma rec_append_err:
  assumes "synced hdr rec ok es lg" "ok e" "append_record rl io (rec e) lg = (False, lg')" "io_set_len io" "lg_buf lg' = []"
  shows "synced hdr rec ok es lg' \<or> synced hdr rec ok (es @ [e]) lg'"
proof -
  obtain lg1 where w: "write_record io (rec e) lg = (False, lg1)" and l: "lg' = realign_to_record_boundary rl io lg1"
    using assms(3) by (auto simp: append_record_def split: prod.splits if_splits)
  obtain b lg2 where f: "bw_flush (io_reflush io) lg1 = (b, lg2)" by (cases "bw_flush (io_reflush io) lg1")
  have "lg_disk lg2 @ lg_buf lg2 = hdr @ concat (map rec es) @ rec e"
    using flush_split [OF f] rec_write [OF assms(1,2) w] by simp
  moreover have b: "lg_buf lg2 = []" "lg_disk lg' = truncate_torn rl (lg_disk lg2)"
    using assms(4,5) l f by (simp_all add: realign_to_record_boundary_def)
  ultimately have "lg_disk lg2 = hdr @ concat (map rec (es @ [e]))" by simp
  moreover have es: "list_all ok (es @ [e])" using assms(1,2) by (simp add: synced_def)
  ultimately have "lg_disk lg' = hdr @ concat (map rec (es @ [e]))"
    using b(2) rec_truncate [OF es, of "[]"] rl_pos by simp
  then show ?thesis using es assms(5) by (simp add: synced_def)
qed

lemma rec_append_clean:
  assumes "synced hdr rec ok es lg" "ok e" "clean_io io" "append_record rl io (rec e) lg = (b, lg')"
  shows "synced hdr rec ok (es @ [e]) lg' \<or> \<not> b \<and> synced hdr rec ok es lg'"
proof (cases b)
  case True
  with rec_append_ok [OF assms(1,2)] assms(4) show ?thesis by simp
next
  case False
  have "lg_buf lg' = []"
    using assms(3,4) False
    by (auto simp: append_record_def realign_to_record_boundary_def clean_io_def bw_flush_def split: prod.splits if_splits)
  with rec_append_err [OF assms(1,2)] assms(3,4) False show ?thesis by (auto simp: clean_io_def)
qed

text \<open>
  A flush that fails part-way twice: the clean-up cuts the file back to a whole record, but the
  rest of the record is still in the buffer, and the next append writes it in front of its own.
\<close>

lemma rec_append_stale:
  assumes "synced hdr rec ok es lg" "ok e" "0 < n" "n < rl"
    and io: "io_flush io = Some n" "io_reflush io = Some 0" "io_set_len io"
  shows "append_record rl io (rec e) lg = (False, lg\<lparr>lg_buf := drop n (rec e)\<rparr>)"
proof -
  have len: "length (rec e) = rl" by (rule rec_len [OF assms(2)])
  have "bw_write_all (io_fill io) (rec e) lg = (True, lg\<lparr>lg_buf := rec e\<rparr>)"
    using assms(1) len rl_buf by (simp add: bw_write_all_def synced_def)
  moreover have "bw_flush (io_flush io) (lg\<lparr>lg_buf := rec e\<rparr>) =
      (False, lg\<lparr>lg_disk := lg_disk lg @ take n (rec e), lg_buf := drop n (rec e)\<rparr>)"
    using assms(4) len by (simp add: bw_flush_def io)
  ultimately have w: "write_record io (rec e) lg =
      (False, lg\<lparr>lg_disk := lg_disk lg @ take n (rec e), lg_buf := drop n (rec e)\<rparr>)"
    by (simp add: write_record_def)
  have "truncate_torn rl (lg_disk lg @ take n (rec e)) = lg_disk lg"
    using rec_truncate [of es "take n (rec e)"] assms(1,4) len by (simp add: synced_def)
  then show ?thesis
    by (simp add: append_record_def w realign_to_record_boundary_def bw_flush_def io)
qed

lemma rec_append_after_stale:
  assumes "synced hdr rec ok es lg" "ok e" "length stale < rl" "length stale + rl \<le> BUF_CAPACITY"
    and "io_fill io = None" "io_flush io = None" "io_sync io"
  shows "append_record rl io (rec e) (lg\<lparr>lg_buf := stale\<rparr>) =
    (True, lg\<lparr>lg_disk := lg_disk lg @ stale @ rec e, lg_buf := []\<rparr>)"
  using assms rec_len [OF assms(2)]
  by (simp add: append_record_def write_record_def bw_write_all_def bw_flush_def)

end

end
