(* ===== verification/Replay_Log.thy ===== *)
theory Replay_Log
  imports Record_Log
begin

text \<open>
  The append-only log behind the bridge's replay set (\<open>crates/discovery/src/replay_log.rs\<close>), a record
  log in the sense of \<open>Record_Log\<close>; the outcomes of the system calls are arguments.  Shown here: a log
  reloads to exactly its unexpired records, a crash in the middle of a record loses that record
  only, and a failed append can leave bytes in the buffer that misalign every later record.
\<close>

section \<open>File format\<close>

text \<open>\<open>b"MRRL"\<close>\<close>

definition MRRL_MAGIC :: bytes where "MRRL_MAGIC = [0x4D, 0x52, 0x52, 0x4C]"
definition MRRL_VERSION :: u8 where "MRRL_VERSION = 0x01"
definition MRRL_HEADER_LEN :: nat where "MRRL_HEADER_LEN = 8"
definition MRRL_RECORD_LEN :: nat where "MRRL_RECORD_LEN = 40"

lemmas log_consts = MRRL_MAGIC_def MRRL_VERSION_def MRRL_HEADER_LEN_def MRRL_RECORD_LEN_def

datatype ReplayLogError = Io | BadHeader

type_synonym PersistentReplayLog = BufferedLog
type_synonym log_entry = "bytes \<times> u64"

definition log_header :: bytes where
  "log_header = MRRL_MAGIC @ [MRRL_VERSION, 0, 0, 0]"

definition header_ok :: "bytes \<Rightarrow> bool" where
  "header_ok hdr = (\<not> (length hdr < MRRL_HEADER_LEN \<or> take 4 hdr \<noteq> MRRL_MAGIC \<or> hdr ! 4 \<noteq> MRRL_VERSION))"

section \<open>Operations\<close>

text \<open>\<open>open\<close> on an existing file (\<open>Some\<close>) or none; \<open>w\<close> is the outcome of writing a header.\<close>

definition log_open :: "outcome \<Rightarrow> bytes option \<Rightarrow> bool \<Rightarrow> ReplayLogError + PersistentReplayLog" where
  "log_open w file fsync =
     (let fresh = (case w of
                     None \<Rightarrow> Inr log_header
                   | Some n \<Rightarrow> if MRRL_HEADER_LEN \<le> n then Inr log_header else Inl Io);
          start = (case file of
                     None \<Rightarrow> fresh
                   | Some d \<Rightarrow>
                       if d = [] then fresh
                       else if \<not> header_ok (take MRRL_HEADER_LEN d) then Inl BadHeader
                       else Inr d)
      in case start of
           Inl e \<Rightarrow> Inl e
         | Inr d \<Rightarrow> Inr \<lparr>lg_disk = truncate_torn MRRL_RECORD_LEN d, lg_buf = [], fsync_every_write = fsync\<rparr>)"

definition log_record :: "log_entry \<Rightarrow> bytes" where
  "log_record e = fst e @ to_be (snd e)"

definition log_append :: "append_io \<Rightarrow> log_entry \<Rightarrow> PersistentReplayLog \<Rightarrow> bool \<times> PersistentReplayLog" where
  "log_append io e lg = append_record MRRL_RECORD_LEN io (log_record e) lg"

function load_records :: "bytes \<Rightarrow> u64 \<Rightarrow> log_entry list" where
  "load_records bs now =
     (if length bs < MRRL_RECORD_LEN then []
      else
        let rec = take MRRL_RECORD_LEN bs;
            e = (take 32 rec, from_be (drop 32 rec));
            rest = load_records (drop MRRL_RECORD_LEN bs) now
        in if now \<le> snd e then e # rest else rest)"
  by pat_completeness auto
termination by (relation "measure (length \<circ> fst)") (auto simp: MRRL_RECORD_LEN_def)

declare load_records.simps [simp del]

definition log_load :: "bytes option \<Rightarrow> u64 \<Rightarrow> ReplayLogError + log_entry list" where
  "log_load file now =
     (case file of
        None \<Rightarrow> Inr []
      | Some d \<Rightarrow>
          if d = [] then Inr []
          else if \<not> header_ok (take MRRL_HEADER_LEN d) then Inl BadHeader
          else Inr (load_records (drop MRRL_HEADER_LEN d) now))"

text \<open>\<open>compact\<close> replaces the file by an atomic rename: either all of it happens or nothing does.\<close>

definition log_compact :: "bool \<Rightarrow> log_entry list \<Rightarrow> ReplayLogError + bytes" where
  "log_compact ok entries = (if ok then Inr (log_header @ concat (map log_record entries)) else Inl Io)"

section \<open>Reloading\<close>

definition entry_ok :: "log_entry \<Rightarrow> bool" where
  "entry_ok e \<longleftrightarrow> length (fst e) = 32"

lemma length_log_record: "entry_ok e \<Longrightarrow> length (log_record e) = 40"
  by (simp add: entry_ok_def log_record_def)

lemma length_log_header [simp]: "length log_header = 8"
  by (simp add: log_header_def log_consts)

lemma header_ok_header [simp]: "header_ok log_header" "log_header \<noteq> []"
  by (simp_all add: header_ok_def log_header_def log_consts)

lemma load_cons:
  assumes "entry_ok e"
  shows "load_records (log_record e @ bs) now =
    (if now \<le> snd e then e # load_records bs now else load_records bs now)"
proof -
  have "take 40 (log_record e @ bs) = log_record e" "drop 40 (log_record e @ bs) = bs"
    using length_log_record [OF assms] by simp_all
  moreover have "take 32 (log_record e) = fst e" "from_be (drop 32 (log_record e)) = snd e"
    using assms by (simp_all add: entry_ok_def log_record_def)
  ultimately show ?thesis
    using length_log_record [OF assms]
    by (subst load_records.simps) (simp add: MRRL_RECORD_LEN_def Let_def)
qed

lemma load_short: "length bs < 40 \<Longrightarrow> load_records bs now = []"
  by (simp add: load_records.simps MRRL_RECORD_LEN_def)

lemma load_concat:
  assumes "list_all entry_ok es" "length tail < 40"
  shows "load_records (concat (map log_record es) @ tail) now = filter (\<lambda>e. now \<le> snd e) es"
  using assms(1) by (induction es) (simp_all add: load_cons load_short [OF assms(2)])

interpretation mrrl: record_log log_header log_record MRRL_RECORD_LEN entry_ok
  by unfold_locales (simp_all add: MRRL_RECORD_LEN_def BUF_CAPACITY_def length_log_record)

abbreviation in_sync :: "log_entry list \<Rightarrow> PersistentReplayLog \<Rightarrow> bool" where
  "in_sync \<equiv> synced log_header log_record entry_ok"

lemma load_in_sync:
  assumes "in_sync es lg"
  shows "log_load (Some (lg_disk lg)) now = Inr (filter (\<lambda>e. now \<le> snd e) es)"
  using assms load_concat [of es "[]" now]
  by (simp add: synced_def log_load_def MRRL_HEADER_LEN_def)

lemma load_after_crash:
  assumes "in_sync es lg" "8 \<le> n"
  shows "log_load (Some (take n (lg_disk lg))) now = Inr (filter (\<lambda>e. now \<le> snd e) (take ((n - 8) div 40) es))"
proof -
  have es: "list_all entry_ok es" using assms(1) by (simp add: synced_def)
  obtain tail where t: "take (n - 8) (concat (map log_record es)) = concat (map log_record (take ((n - 8) div 40) es)) @ tail"
    "length tail < 40" using mrrl.rec_take [OF es, of "n - 8"] by (auto simp: MRRL_RECORD_LEN_def)
  have d: "take n (lg_disk lg) = log_header @ take (n - 8) (concat (map log_record es))"
    using assms by (simp add: synced_def)
  have "list_all entry_ok (take ((n - 8) div 40) es)" using es by (auto simp: list_all_iff dest: in_set_takeD)
  from load_concat [OF this t(2)] d t(1) show ?thesis
    by (simp add: log_load_def MRRL_HEADER_LEN_def)
qed

lemma open_in_sync:
  assumes "list_all entry_ok es"
  shows "\<exists>lg. log_open w (Some (log_header @ concat (map log_record es))) fs = Inr lg \<and> in_sync es lg"
  using mrrl.rec_truncate [OF assms, of "[]"] assms
  by (simp add: log_open_def synced_def log_consts Let_def)

text \<open>The laws of the record log, for this one.\<close>

lemmas append_ok = mrrl.rec_append_ok [folded log_append_def]
lemmas clean_append = mrrl.rec_append_clean [folded log_append_def]
lemmas append_stale = mrrl.rec_append_stale [folded log_append_def, unfolded MRRL_RECORD_LEN_def]

lemma append_after_stale:
  assumes "in_sync es lg" "entry_ok e" "length stale < 40" "io_fill io = None" "io_flush io = None" "io_sync io"
  shows "log_append io e (lg\<lparr>lg_buf := stale\<rparr>) = (True, lg\<lparr>lg_disk := lg_disk lg @ stale @ log_record e, lg_buf := []\<rparr>)"
  unfolding log_append_def
  by (rule mrrl.rec_append_after_stale [OF assms(1,2)]) (use assms(3-6) in \<open>simp_all add: MRRL_RECORD_LEN_def BUF_CAPACITY_def\<close>)

end
