(* ===== verification/Replay_Set.thy ===== *)
theory Replay_Set
  imports Replay_Log "HOL-Library.Multiset"
begin

text \<open>
  Single-use credentials: the contract every replay guard must meet, as a locale, and the guards
  of the bridge that meet it, the token set of \<open>crates/discovery/src/replay.rs\<close> with its restart
  from the log, and the probe set of \<open>crates/transport-reality/src/replay.rs\<close>.  Shown here: a key that
  was accepted is refused as long as its deadline has not passed, also after a restart; the sets
  stay within their capacity; and a failed log append can make an accepted token usable again.
\<close>

section \<open>The contract\<close>

text \<open>
  \<open>check env s k d now\<close> accepts or refuses key \<open>k\<close> with deadline \<open>d\<close> at time \<open>now\<close>; \<open>evict\<close> is the
  maintenance sweep; \<open>held s k\<close> is the deadline recorded for \<open>k\<close>.
\<close>

datatype ('e, 'k) guard_event = Present 'e 'k u64 u64 | Evict u64

primrec event_time :: "('e, 'k) guard_event \<Rightarrow> u64" where
  "event_time (Present e k d now) = now"
| "event_time (Evict now) = now"

locale replay_guard =
  fixes check :: "'e \<Rightarrow> 's \<Rightarrow> 'k \<Rightarrow> u64 \<Rightarrow> u64 \<Rightarrow> bool \<times> 's"
    and evict :: "'s \<Rightarrow> u64 \<Rightarrow> 's"
    and held :: "'s \<Rightarrow> 'k \<Rightarrow> u64 option"
    and ok :: "'s \<Rightarrow> bool"
  assumes check_ok: "ok s \<Longrightarrow> ok (snd (check e s k d now))"
    and evict_ok: "ok s \<Longrightarrow> ok (evict s now)"
    and refuse_held: "ok s \<Longrightarrow> held s k = Some d' \<Longrightarrow> \<not> fst (check e s k d now)"
    and accept_holds: "ok s \<Longrightarrow> fst (check e s k d now) \<Longrightarrow> held (snd (check e s k d now)) k = Some d"
    and check_keeps: "ok s \<Longrightarrow> held s k' = Some d' \<Longrightarrow> now \<le> d' \<Longrightarrow> held (snd (check e s k d now)) k' = Some d'"
    and evict_keeps: "ok s \<Longrightarrow> held s k' = Some d' \<Longrightarrow> now \<le> d' \<Longrightarrow> held (evict s now) k' = Some d'"
begin

primrec step :: "('e, 'k) guard_event \<Rightarrow> 's \<Rightarrow> bool \<times> 's" where
  "step (Present e k d now) s = check e s k d now"
| "step (Evict now) s = (False, evict s now)"

primrec run :: "('e, 'k) guard_event list \<Rightarrow> 's \<Rightarrow> 's" where
  "run [] s = s"
| "run (ev # evs) s = run evs (snd (step ev s))"

lemma run_append: "run (xs @ ys) s = run ys (run xs s)"
  by (induction xs arbitrary: s) auto

lemma step_ok: "ok s \<Longrightarrow> ok (snd (step ev s))"
  by (cases ev) (auto intro: check_ok evict_ok)

lemma run_ok: "ok s \<Longrightarrow> ok (run evs s)"
  by (induction evs arbitrary: s) (auto intro: step_ok)

lemma step_keeps: "ok s \<Longrightarrow> held s k = Some d \<Longrightarrow> event_time ev \<le> d \<Longrightarrow> held (snd (step ev s)) k = Some d"
  by (cases ev) (auto intro: check_keeps evict_keeps)

lemma run_keeps:
  "ok s \<Longrightarrow> held s k = Some d \<Longrightarrow> (\<And>ev. ev \<in> set evs \<Longrightarrow> event_time ev \<le> d) \<Longrightarrow> held (run evs s) k = Some d"
proof (induction evs arbitrary: s)
  case (Cons ev evs)
  then show ?case using step_keeps [of s k d ev] step_ok [of s ev] by simp
qed simp

text \<open>An accepted key is refused by every later presentation that its deadline covers.\<close>

lemma no_second_accept:
  assumes "ok s" "fst (check e s k d now)" "\<And>ev. ev \<in> set evs \<Longrightarrow> event_time ev \<le> d"
  shows "\<not> fst (check e' (run evs (snd (check e s k d now))) k d' now')"
proof -
  have "ok (snd (check e s k d now))" "held (snd (check e s k d now)) k = Some d"
    using assms check_ok accept_holds by simp_all
  from run_keeps [OF this assms(3)] run_ok [OF this(1)] show ?thesis by (rule refuse_held [rotated])
qed

text \<open>
  A credential is presented with its deadline and refused without asking the guard once the
  deadline has passed.  With a clock that does not run backwards it is accepted at most once.
\<close>

definition redeem :: "'e \<Rightarrow> 's \<Rightarrow> 'k \<Rightarrow> u64 \<Rightarrow> u64 \<Rightarrow> bool" where
  "redeem e s k d now \<longleftrightarrow> now \<le> d \<and> fst (check e s k d now)"

lemma redeem_once:
  assumes "ok s" "redeem e s k d now" "sorted (map event_time mid @ [now'])"
  shows "\<not> redeem e' (run mid (snd (check e s k d now))) k d now'"
proof
  assume r: "redeem e' (run mid (snd (check e s k d now))) k d now'"
  then have "now' \<le> d" by (simp add: redeem_def)
  moreover have "event_time ev \<le> now'" if "ev \<in> set mid" for ev
    using assms(3) that by (auto simp: sorted_append)
  ultimately have "\<And>ev. ev \<in> set mid \<Longrightarrow> event_time ev \<le> d" by (meson order.trans)
  with no_second_accept [OF assms(1)] assms(2) r show False by (simp add: redeem_def)
qed

end

text \<open>Guards that refuse rather than forget when they are full.\<close>

locale bounded_guard = replay_guard +
  fixes size :: "'b \<Rightarrow> nat"
    and cap :: "'b \<Rightarrow> nat"
  assumes check_size: "ok s \<Longrightarrow> size s \<le> cap s \<Longrightarrow> size (snd (check e s k d now)) \<le> cap s"
    and check_cap: "cap (snd (check e s k d now)) = cap s"
    and evict_size: "ok s \<Longrightarrow> size (evict s now) \<le> size s"
    and evict_cap: "cap (evict s now) = cap s"
begin

lemma run_bounded: "ok s \<Longrightarrow> size s \<le> cap s \<Longrightarrow> size (run evs s) \<le> cap s \<and> cap (run evs s) = cap s"
proof (induction evs arbitrary: s)
  case (Cons ev evs)
  have "size (snd (step ev s)) \<le> cap s \<and> cap (snd (step ev s)) = cap s"
    using Cons.prems check_size check_cap evict_size evict_cap
    by (cases ev) (simp_all, meson order.trans)
  with Cons.IH [OF step_ok [OF Cons.prems(1)], of ev] show ?case by simp
qed simp

end

section \<open>The bridge's token set\<close>

record ReplaySet =
  rs_entries :: "(bytes, u64) hashmap"
  rs_max :: nat
  rs_log :: "PersistentReplayLog option"

definition ReplaySet_new :: "nat \<Rightarrow> ReplaySet" where
  "ReplaySet_new max_entries = \<lparr>rs_entries = [], rs_max = max_entries, rs_log = None\<rparr>"

definition ReplaySet_evict_expired :: "ReplaySet \<Rightarrow> u64 \<Rightarrow> ReplaySet" where
  "ReplaySet_evict_expired rs now = rs\<lparr>rs_entries := hm_retain (\<lambda>_ expiry. now \<le> expiry) (rs_entries rs)\<rparr>"

definition ReplaySet_remove :: "bytes \<Rightarrow> ReplaySet \<Rightarrow> bool \<times> ReplaySet" where
  "ReplaySet_remove tid rs = (hm_get (rs_entries rs) tid \<noteq> None, rs\<lparr>rs_entries := hm_remove tid (rs_entries rs)\<rparr>)"

definition ReplaySet_contains :: "ReplaySet \<Rightarrow> bytes \<Rightarrow> u64 \<Rightarrow> bool" where
  "ReplaySet_contains rs tid now =
     (case hm_get (rs_entries rs) tid of Some expiry \<Rightarrow> now \<le> expiry | None \<Rightarrow> False)"

definition ReplaySet_check_and_insert ::
  "append_io \<Rightarrow> ReplaySet \<Rightarrow> bytes \<Rightarrow> u64 \<Rightarrow> u64 \<Rightarrow> bool \<times> ReplaySet" where
  "ReplaySet_check_and_insert io rs0 tid expires_at now =
     (if hm_contains (rs_entries rs0) tid then (False, rs0)
      else
        let rs = (if rs_max rs0 \<le> hm_len (rs_entries rs0) then ReplaySet_evict_expired rs0 now else rs0) in
        if rs_max rs \<le> hm_len (rs_entries rs) then (False, rs)
        else
          let rs1 = rs\<lparr>rs_entries := hm_insert tid expires_at (rs_entries rs)\<rparr> in
          (case rs_log rs1 of
             None \<Rightarrow> (True, rs1)
           | Some lg \<Rightarrow>
               let (ok, lg') = log_append io (tid, expires_at) lg in
               if ok then (True, rs1\<lparr>rs_log := Some lg'\<rparr>)
               else (False, rs1\<lparr>rs_log := Some lg', rs_entries := hm_remove tid (rs_entries rs1)\<rparr>)))"

definition rs_held :: "ReplaySet \<Rightarrow> bytes \<Rightarrow> u64 option" where
  "rs_held rs tid = hm_get (rs_entries rs) tid"

text \<open>
  \<open>new_with_log\<close>: load, compact, reopen, keep the entries with the latest expiry when there are too
  many.  \<open>srt\<close> is \<open>sort_unstable_by\<close> with the comparison reversed, \<open>compact_ok\<close> the outcome of the
  compaction and \<open>w\<close> that of writing a header.  The file after it is the second component.
\<close>

definition ReplaySet_new_with_log ::
  "(log_entry list \<Rightarrow> log_entry list) \<Rightarrow> bool \<Rightarrow> outcome \<Rightarrow> nat \<Rightarrow> bytes option \<Rightarrow> bool \<Rightarrow> u64 \<Rightarrow>
   (ReplayLogError + ReplaySet) \<times> bytes option" where
  "ReplaySet_new_with_log srt compact_ok w max_entries file fsync now =
     (case log_load file now of
        Inl e \<Rightarrow> (Inl e, file)
      | Inr entries \<Rightarrow>
          (case log_compact compact_ok entries of
             Inl e \<Rightarrow> (Inl e, file)
           | Inr file' \<Rightarrow>
               (case log_open w (Some file') fsync of
                  Inl e \<Rightarrow> (Inl e, Some file')
                | Inr fresh \<Rightarrow>
                    let kept = (if max_entries < length entries then take max_entries (srt entries) else entries) in
                    (Inr \<lparr>rs_entries = fold (\<lambda>(tid, exp). hm_insert tid exp) kept [], rs_max = max_entries,
                          rs_log = Some fresh\<rparr>, Some (lg_disk fresh)))))"

text \<open>The shared wrapper: a poisoned lock refuses.\<close>

record SyncReplaySet =
  sync_inner :: ReplaySet
  poisoned :: bool

definition Sync_check_and_insert ::
  "append_io \<Rightarrow> SyncReplaySet \<Rightarrow> bytes \<Rightarrow> u64 \<Rightarrow> u64 \<Rightarrow> bool \<times> SyncReplaySet" where
  "Sync_check_and_insert io s tid expires_at now =
     (if poisoned s then (False, s)
      else let (ok, rs) = ReplaySet_check_and_insert io (sync_inner s) tid expires_at now in
           (ok, s\<lparr>sync_inner := rs\<rparr>))"

definition Sync_evict_expired :: "SyncReplaySet \<Rightarrow> u64 \<Rightarrow> SyncReplaySet" where
  "Sync_evict_expired s now =
     (if poisoned s then s else s\<lparr>sync_inner := ReplaySet_evict_expired (sync_inner s) now\<rparr>)"

definition Sync_contains :: "SyncReplaySet \<Rightarrow> bytes \<Rightarrow> u64 \<Rightarrow> bool" where
  "Sync_contains s tid now = (if poisoned s then False else ReplaySet_contains (sync_inner s) tid now)"

section \<open>The probe set of the TLS front\<close>

type_synonym probe_key = "bytes \<times> u32"

record ReplayProbeSet =
  ps_entries :: "(probe_key, u64) hashmap"
  ps_max :: nat
  recently_full :: bool

definition ReplayProbeSet_new :: "nat \<Rightarrow> ReplayProbeSet" where
  "ReplayProbeSet_new max_entries = \<lparr>ps_entries = [], ps_max = max_entries, recently_full = False\<rparr>"

definition ReplayProbeSet_evict_expired :: "ReplayProbeSet \<Rightarrow> u64 \<Rightarrow> ReplayProbeSet" where
  "ReplayProbeSet_evict_expired ps now = ps\<lparr>ps_entries := hm_retain (\<lambda>_ deadline. now \<le> deadline) (ps_entries ps)\<rparr>"

definition ReplayProbeSet_check_and_insert ::
  "ReplayProbeSet \<Rightarrow> probe_key \<Rightarrow> u64 \<Rightarrow> u64 \<Rightarrow> bool \<times> ReplayProbeSet" where
  "ReplayProbeSet_check_and_insert ps0 key retention_deadline now =
     (if hm_contains (ps_entries ps0) key then (False, ps0\<lparr>recently_full := False\<rparr>)
      else
        let ps = (if ps_max ps0 \<le> hm_len (ps_entries ps0) then ReplayProbeSet_evict_expired ps0 now else ps0) in
        if ps_max ps \<le> hm_len (ps_entries ps) then (False, ps\<lparr>recently_full := True\<rparr>)
        else (True, ps\<lparr>ps_entries := hm_insert key retention_deadline (ps_entries ps), recently_full := False\<rparr>))"

definition ps_held :: "ReplayProbeSet \<Rightarrow> probe_key \<Rightarrow> u64 option" where
  "ps_held ps k = hm_get (ps_entries ps) k"

section \<open>The sets meet the contract\<close>

definition rs_ok :: "ReplaySet \<Rightarrow> bool" where
  "rs_ok rs \<longleftrightarrow> hm_wf (rs_entries rs)"

definition ps_ok :: "ReplayProbeSet \<Rightarrow> bool" where
  "ps_ok ps \<longleftrightarrow> hm_wf (ps_entries ps)"

lemma rs_evict_keeps: "rs_ok rs \<Longrightarrow> rs_held rs k = Some d \<Longrightarrow> now \<le> d \<Longrightarrow> rs_held (ReplaySet_evict_expired rs now) k = Some d"
  by (simp add: rs_ok_def rs_held_def ReplaySet_evict_expired_def hm.get_retain)

lemma rs_evict_ok: "rs_ok rs \<Longrightarrow> rs_ok (ReplaySet_evict_expired rs now)"
  by (simp add: rs_ok_def ReplaySet_evict_expired_def hm.wf_retain)

text \<open>The four ways \<open>check_and_insert\<close> can go.\<close>

lemma rs_check_cases:
  obtains (seen) "rs_held rs k \<noteq> None" "ReplaySet_check_and_insert io rs k d now = (False, rs)"
  | (full) rs' where "rs_held rs k = None" "rs' = rs \<or> rs' = ReplaySet_evict_expired rs now"
      "rs_max rs \<le> hm_len (rs_entries rs')" "ReplaySet_check_and_insert io rs k d now = (False, rs')"
  | (accepted) rs' lg where "rs_held rs k = None" "rs' = rs \<or> rs' = ReplaySet_evict_expired rs now"
      "hm_len (rs_entries rs') < rs_max rs" "rs_log rs = None \<and> lg = None \<or>
        (\<exists>l l'. rs_log rs = Some l \<and> log_append io (k, d) l = (True, l') \<and> lg = Some l')"
      "ReplaySet_check_and_insert io rs k d now = (True, rs'\<lparr>rs_entries := hm_insert k d (rs_entries rs'), rs_log := lg\<rparr>)"
  | (rolled) rs' l l' where "rs_held rs k = None" "rs' = rs \<or> rs' = ReplaySet_evict_expired rs now"
      "hm_len (rs_entries rs') < rs_max rs" "rs_log rs = Some l" "log_append io (k, d) l = (False, l')"
      "ReplaySet_check_and_insert io rs k d now =
        (False, rs'\<lparr>rs_entries := hm_remove k (hm_insert k d (rs_entries rs')), rs_log := Some l'\<rparr>)"
proof -
  define rs' where "rs' = (if rs_max rs \<le> hm_len (rs_entries rs) then ReplaySet_evict_expired rs now else rs)"
  have r: "rs' = rs \<or> rs' = ReplaySet_evict_expired rs now" "rs_max rs' = rs_max rs" "rs_log rs' = rs_log rs"
    by (simp_all add: rs'_def ReplaySet_evict_expired_def)
  show thesis
  proof (cases "rs_held rs k")
    case (Some e)
    then show thesis by (intro seen) (simp_all add: ReplaySet_check_and_insert_def rs_held_def hm_contains_def)
  next
    case None
    then have c: "ReplaySet_check_and_insert io rs k d now =
        (if rs_max rs' \<le> hm_len (rs_entries rs') then (False, rs')
         else case rs_log rs' of None \<Rightarrow> (True, rs'\<lparr>rs_entries := hm_insert k d (rs_entries rs')\<rparr>)
           | Some lg \<Rightarrow> let (ok, lg') = log_append io (k, d) lg in
               if ok then (True, rs'\<lparr>rs_entries := hm_insert k d (rs_entries rs'), rs_log := Some lg'\<rparr>)
               else (False, rs'\<lparr>rs_entries := hm_remove k (hm_insert k d (rs_entries rs')), rs_log := Some lg'\<rparr>))"
      unfolding ReplaySet_check_and_insert_def rs'_def [symmetric]
      by (simp add: rs_held_def hm_contains_def Let_def split: option.splits prod.splits)
    show thesis
    proof (cases "rs_max rs \<le> hm_len (rs_entries rs')")
      case True
      with c r None show thesis by (intro full [of rs']) simp_all
    next
      case False
      show thesis
      proof (cases "rs_log rs")
        case None': None
        have "rs'\<lparr>rs_entries := hm_insert k d (rs_entries rs')\<rparr> =
            rs'\<lparr>rs_entries := hm_insert k d (rs_entries rs'), rs_log := None\<rparr>" using r(3) None' by simp
        with c r None False None' show thesis by (intro accepted [of rs' None]) simp_all
      next
        case (Some l)
        obtain b l' where a: "log_append io (k, d) l = (b, l')" by (cases "log_append io (k, d) l")
        with c r None False Some show thesis
          by (cases b) (auto intro: accepted [of rs' "Some l'"] rolled [of rs' l l'])
      qed
    qed
  qed
qed

lemma rs_check_ok: "rs_ok rs \<Longrightarrow> rs_ok (snd (ReplaySet_check_and_insert io rs k d now))"
  by (rule rs_check_cases [of rs k io d now]) (auto simp: rs_ok_def ReplaySet_evict_expired_def hm_laws)

interpretation tokens: bounded_guard ReplaySet_check_and_insert ReplaySet_evict_expired rs_held rs_ok
  "\<lambda>rs. hm_len (rs_entries rs)" rs_max
proof (unfold_locales, goal_cases)
  case (1 s e k d now)
  then show ?case by (rule rs_check_ok)
next
  case (2 s now)
  then show ?case by (rule rs_evict_ok)
next
  case (3 s k d' e d now)
  show ?case by (rule rs_check_cases [of s k e d now]) (use 3 in auto)
next
  case (4 s e k d now)
  show ?case by (rule rs_check_cases [of s k e d now]) (use 4 in \<open>auto simp: rs_held_def hm_laws\<close>)
next
  case (5 s k' d' now e k d)
  note ev = rs_evict_keeps [OF 5]
  show ?case
    by (rule rs_check_cases [of s k e d now]) (use 5 ev in \<open>auto simp: rs_held_def hm_laws\<close>)
next
  case (6 s k' d' now)
  then show ?case by (rule rs_evict_keeps)
next
  case (7 s e k d now)
  note ev = rs_evict_ok [OF 7(1), of now]
  show ?case
  proof (rule rs_check_cases [of s k e d now], goal_cases)
    case 1
    then show ?case using 7 by simp
  next
    case (2 rs')
    have "hm_len (rs_entries rs') \<le> hm_len (rs_entries s)"
      using 2(2) 7(1) hm.len_retain_le by (auto simp: ReplaySet_evict_expired_def rs_ok_def)
    then show ?case using 2(4) 7(2) by simp
  next
    case (3 rs' lg)
    have "hm_wf (rs_entries rs')" using 3(2) 7(1) ev by (auto simp: rs_ok_def)
    then have "hm_len (hm_insert k d (rs_entries rs')) \<le> Suc (hm_len (rs_entries rs'))"
      by (cases "hm_get (rs_entries rs') k") (simp_all add: hm.len_ins_new hm.len_ins_old)
    then show ?case using 3 by simp
  next
    case (4 rs' l l')
    have wf: "hm_wf (rs_entries rs')" using 4(2) 7(1) ev by (auto simp: rs_ok_def)
    then have "hm_len (hm_insert k d (rs_entries rs')) \<le> Suc (hm_len (rs_entries rs'))"
      by (cases "hm_get (rs_entries rs') k") (simp_all add: hm.len_ins_new hm.len_ins_old)
    then show ?case using 4 hm.len_del_le [OF hm.wf_ins [OF wf], of k k d] by simp
  qed
next
  case (8 e s k d now)
  show ?case by (rule rs_check_cases [of s k e d now]) (auto simp: ReplaySet_evict_expired_def)
next
  case (9 s now)
  then show ?case by (simp add: ReplaySet_evict_expired_def rs_ok_def hm.len_retain_le)
next
  case (10 s now)
  show ?case by (simp add: ReplaySet_evict_expired_def)
qed

lemma Sync_check_eq:
  "Sync_check_and_insert io s k d now =
     (if poisoned s then (False, s)
      else (fst (ReplaySet_check_and_insert io (sync_inner s) k d now),
            s\<lparr>sync_inner := snd (ReplaySet_check_and_insert io (sync_inner s) k d now)\<rparr>))"
  by (simp add: Sync_check_and_insert_def split: prod.splits)

interpretation shared: replay_guard Sync_check_and_insert Sync_evict_expired "\<lambda>s. rs_held (sync_inner s)" "\<lambda>s. rs_ok (sync_inner s)"
  by unfold_locales
    (simp_all add: Sync_check_eq Sync_evict_expired_def rs_check_ok rs_evict_ok rs_evict_keeps tokens.refuse_held
      tokens.accept_holds tokens.check_keeps split: if_splits)

interpretation probes: bounded_guard "\<lambda>_ :: unit. ReplayProbeSet_check_and_insert" ReplayProbeSet_evict_expired ps_held ps_ok
  "\<lambda>ps. hm_len (ps_entries ps)" ps_max
proof (unfold_locales, goal_cases)
  case (7 s e k d now)
  let ?ps = "if ps_max s \<le> hm_len (ps_entries s) then ReplayProbeSet_evict_expired s now else s"
  have wf: "hm_wf (ps_entries ?ps)" using 7(1) by (simp add: ps_ok_def ReplayProbeSet_evict_expired_def hm.wf_retain)
  then have "hm_len (hm_insert k d (ps_entries ?ps)) \<le> Suc (hm_len (ps_entries ?ps))"
    by (cases "hm_get (ps_entries ?ps) k") (simp_all add: hm.len_ins_new hm.len_ins_old)
  moreover have "hm_len (ps_entries ?ps) \<le> hm_len (ps_entries s)" "ps_max ?ps = ps_max s"
    using 7(1) by (simp_all add: ps_ok_def ReplayProbeSet_evict_expired_def hm.len_retain_le)
  ultimately show ?case using 7(2) by (auto simp: ReplayProbeSet_check_and_insert_def Let_def)
qed (auto simp: ReplayProbeSet_check_and_insert_def ReplayProbeSet_evict_expired_def ps_held_def ps_ok_def hm_contains_def
      hm_laws hm.get_retain hm.len_retain_le Let_def split: if_splits)

section \<open>Restarts\<close>

text \<open>A set whose log holds a record of every token it holds.\<close>

definition durable :: "log_entry list \<Rightarrow> ReplaySet \<Rightarrow> bool" where
  "durable es rs \<longleftrightarrow> rs_ok rs \<and> (\<exists>lg. rs_log rs = Some lg \<and> in_sync es lg) \<and>
     (\<forall>k d. rs_held rs k = Some d \<longrightarrow> (k, d) \<in> set es)"

lemma durable_evict: "durable es rs \<Longrightarrow> durable es (ReplaySet_evict_expired rs now)"
  unfolding durable_def
  by (auto simp: rs_evict_ok rs_held_def ReplaySet_evict_expired_def rs_ok_def hm.wf_retain hm.get_retain split: option.splits if_splits)

lemma durable_update:
  assumes "durable es rs'" "in_sync es' lg" "set es \<subseteq> set es'" "hm_wf m"
    and "\<And>k d. hm_get m k = Some d \<Longrightarrow> rs_held rs' k = Some d \<or> (k, d) \<in> set es'"
  shows "durable es' (rs'\<lparr>rs_entries := m, rs_log := Some lg\<rparr>)"
proof -
  have "(k, d) \<in> set es'" if "hm_get m k = Some d" for k d
    using assms(1,3) assms(5) [OF that] by (auto simp: durable_def)
  then show ?thesis using assms(2,4) by (simp add: durable_def rs_ok_def rs_held_def)
qed

lemma durable_check:
  assumes "durable es rs" "length k = 32" "clean_io io"
  shows "\<exists>es'. durable es' (snd (ReplaySet_check_and_insert io rs k d now)) \<and> set es \<subseteq> set es' \<and>
    (fst (ReplaySet_check_and_insert io rs k d now) \<longrightarrow> (k, d) \<in> set es')"
proof -
  have e: "entry_ok (k, d)" using assms(2) by (simp add: entry_ok_def)
  show ?thesis
  proof (rule rs_check_cases [of rs k io d now], goal_cases)
    case 1
    with assms(1) show ?case by auto
  next
    case (2 rs')
    with assms(1) durable_evict have "durable es rs'" by auto
    with 2 show ?case by auto
  next
    case (3 rs' lg)
    then have d1: "durable es rs'" using assms(1) durable_evict by auto
    then have "rs_ok rs'" by (simp add: durable_def)
    note d = d1 this
    obtain l l' where l: "rs_log rs = Some l" "in_sync es l" "log_append io (k, d) l = (True, l')" "lg = Some l'"
      using 3(4) assms(1) by (auto simp: durable_def)
    have "in_sync (es @ [(k, d)]) l'" by (rule append_ok [OF l(2) e l(3)])
    then have "durable (es @ [(k, d)]) (rs'\<lparr>rs_entries := hm_insert k d (rs_entries rs'), rs_log := Some l'\<rparr>)"
      by (rule durable_update [OF d(1)]) (use d(2) in \<open>auto simp: rs_held_def rs_ok_def hm_laws split: if_splits\<close>)
    with 3(5) l(4) show ?case by (intro exI [of _ "es @ [(k, d)]"]) auto
  next
    case (4 rs' l l')
    then have d1: "durable es rs'" using assms(1) durable_evict by auto
    then have "rs_ok rs'" by (simp add: durable_def)
    note d = d1 this
    have "in_sync es l" using 4(4) assms(1) by (auto simp: durable_def)
    from clean_append [OF this e assms(3) 4(5)] obtain es' where es': "in_sync es' l'" "set es \<subseteq> set es'"
      by (metis set_append Un_upper1 order_refl)
    have "durable es' (rs'\<lparr>rs_entries := hm_remove k (hm_insert k d (rs_entries rs')), rs_log := Some l'\<rparr>)"
      by (rule durable_update [OF d(1) es']) (use d(2) in \<open>auto simp: rs_held_def rs_ok_def hm_laws split: if_splits\<close>)
    with 4(6) es'(2) show ?case by (intro exI [of _ es']) auto
  qed
qed

definition clean_event :: "(append_io, bytes) guard_event \<Rightarrow> bool" where
  "clean_event ev \<longleftrightarrow> (case ev of Present io k d now \<Rightarrow> clean_io io \<and> length k = 32 | Evict now \<Rightarrow> True)"

lemma durable_run:
  "durable es rs \<Longrightarrow> list_all clean_event evs \<Longrightarrow> \<exists>es'. durable es' (tokens.run evs rs) \<and> set es \<subseteq> set es'"
proof (induction evs arbitrary: es rs)
  case (Cons ev evs)
  have "\<exists>es'. durable es' (snd (tokens.step ev rs)) \<and> set es \<subseteq> set es'"
  proof (cases ev)
    case (Present io k d now)
    with Cons.prems durable_check [of es rs k io d now] show ?thesis by (auto simp: clean_event_def)
  next
    case (Evict now)
    with Cons.prems durable_evict show ?thesis by auto
  qed
  then obtain es1 where e: "durable es1 (snd (tokens.step ev rs))" "set es \<subseteq> set es1" by blast
  from Cons.IH [OF e(1)] Cons.prems(2) e(2) show ?case by fastforce
qed auto

lemma held_fold_insert:
  "k \<in> fst ` set es \<or> hm_get m k \<noteq> None \<Longrightarrow> hm_get (fold (\<lambda>(tid, exp). hm_insert tid exp) es m) k \<noteq> None"
  by (induction es arbitrary: m) (auto simp: hm_laws split: if_splits)

lemma restart_holds:
  assumes "in_sync es lg" "(k, d) \<in> set es" "now \<le> d"
    and "length (filter (\<lambda>e. now \<le> snd e) es) \<le> n"
    and "ReplaySet_new_with_log srt cok w n (Some (lg_disk lg)) fs now = (Inr rs, f)"
  shows "rs_held rs k \<noteq> None"
proof -
  have l: "log_load (Some (lg_disk lg)) now = Inr (filter (\<lambda>e. now \<le> snd e) es)" by (rule load_in_sync [OF assms(1)])
  then have "rs_entries rs = fold (\<lambda>(tid, exp). hm_insert tid exp) (filter (\<lambda>e. now \<le> snd e) es) []"
    using assms(4,5) by (auto simp: ReplaySet_new_with_log_def Let_def split: sum.splits)
  moreover have "k \<in> fst ` set (filter (\<lambda>e. now \<le> snd e) es)" using assms(2,3) by force
  ultimately show ?thesis using held_fold_insert [of k "filter (\<lambda>e. now \<le> snd e) es" "[]"] by (simp add: rs_held_def)
qed

lemma wf_fold_insert: "hm_wf m \<Longrightarrow> hm_wf (fold (\<lambda>(tid, exp). hm_insert tid exp) es m)"
  by (induction es arbitrary: m) (auto simp: hm_laws)

lemma restart_ok: "ReplaySet_new_with_log srt cok w n file fs now = (Inr rs, f) \<Longrightarrow> rs_ok rs"
  by (auto simp: ReplaySet_new_with_log_def rs_ok_def Let_def wf_fold_insert split: sum.splits)


definition fine_io :: "append_io \<Rightarrow> bool" where
  "fine_io io \<longleftrightarrow> io_fill io = None \<and> io_flush io = None \<and> io_sync io"

text \<open>The record the loader reads where the stale bytes are.\<close>

definition garbage :: "log_entry \<Rightarrow> log_entry \<Rightarrow> log_entry" where
  "garbage e1 e2 = (drop 20 (fst e1) @ to_be (snd e1) @ take 12 (fst e2), from_be (take 8 (drop 12 (fst e2))))"

lemma garbage_record:
  assumes "entry_ok e1" "entry_ok e2"
  shows "entry_ok (garbage e1 e2)"
    "drop 20 (log_record e1) @ log_record e2 = log_record (garbage e1 e2) @ drop 20 (log_record e2)"
proof -
  have l: "length (fst e1) = 32" "length (fst e2) = 32" using assms by (simp_all add: entry_ok_def)
  show "entry_ok (garbage e1 e2)" using l by (simp add: entry_ok_def garbage_def)
  have "to_be (from_be (take 8 (drop 12 (fst e2))) :: u64) = take 8 (drop 12 (fst e2))"
    using l by (intro to_be_from_be) simp_all
  moreover have "fst e2 = take 12 (fst e2) @ take 8 (drop 12 (fst e2)) @ drop 20 (fst e2)"
    using append_take_drop_id [of 12 "fst e2"] append_take_drop_id [of 8 "drop 12 (fst e2)"] by simp
  ultimately show "drop 20 (log_record e1) @ log_record e2 = log_record (garbage e1 e2) @ drop 20 (log_record e2)"
    using l by (simp add: log_record_def garbage_def)
qed

lemma load_stale:
  assumes "in_sync es lg" "entry_ok e1" "entry_ok e2"
  shows "log_load (Some (lg_disk lg @ drop 20 (log_record e1) @ log_record e2)) now =
    Inr (filter (\<lambda>e. now \<le> snd e) (es @ [garbage e1 e2]))"
proof -
  have all: "list_all entry_ok (es @ [garbage e1 e2])" using assms(1) garbage_record(1) [OF assms(2,3)] by (simp add: synced_def)
  have d: "lg_disk lg @ drop 20 (log_record e1) @ log_record e2 =
      log_header @ concat (map log_record (es @ [garbage e1 e2])) @ drop 20 (log_record e2)"
    unfolding garbage_record(2) [OF assms(2,3)] using assms(1) by (simp add: synced_def)
  have "length (drop 20 (log_record e2)) < 40" using length_log_record [OF assms(3)] by simp
  from load_concat [OF all this, of now] show ?thesis unfolding d by (simp add: log_load_def MRRL_HEADER_LEN_def)
qed

lemma check_new:
  assumes "rs_held rs k = None" "hm_len (rs_entries rs) < rs_max rs" "rs_log rs = Some lg"
  shows "ReplaySet_check_and_insert io rs k d now =
    (let (ok, lg') = log_append io (k, d) lg; rs1 = rs\<lparr>rs_entries := hm_insert k d (rs_entries rs)\<rparr> in
     if ok then (True, rs1\<lparr>rs_log := Some lg'\<rparr>)
     else (False, rs1\<lparr>rs_log := Some lg', rs_entries := hm_remove k (rs_entries rs1)\<rparr>))"
  using assms by (simp add: ReplaySet_check_and_insert_def rs_held_def hm_contains_def Let_def split: prod.splits)

lemma held_fold_none:
  "k \<notin> fst ` set es \<Longrightarrow> hm_get m k = None \<Longrightarrow> hm_get (fold (\<lambda>(tid, exp). hm_insert tid exp) es m) k = None"
  by (induction es arbitrary: m) (auto simp: hm_laws split: if_splits)

lemma len_fold_insert: "hm_wf m \<Longrightarrow> hm_len (fold (\<lambda>(tid, exp). hm_insert tid exp) es m) \<le> hm_len m + length es"
proof (induction es arbitrary: m)
  case (Cons e es)
  obtain k v where e: "e = (k, v)" by (cases e)
  have "hm_len (hm_insert k v m) \<le> Suc (hm_len m)"
    using Cons.prems by (cases "hm_get m k") (simp_all add: hm.len_ins_new hm.len_ins_old)
  with Cons.IH [OF hm.wf_ins [OF Cons.prems], of k v] show ?case by (simp add: e)
qed simp

lemma fine_append:
  assumes "in_sync es lg" "entry_ok e" "fine_io io"
  shows "fst (log_append io e lg)"
proof -
  have "lg\<lparr>lg_buf := []\<rparr> = lg" using assms(1) by (cases lg) (simp add: synced_def)
  with append_after_stale [OF assms(1,2), of "[]" io] assms(3) show ?thesis by (simp add: fine_io_def)
qed

text \<open>
  C39: a failed append can make a later token usable twice.  When the flush of a record fails after
  20 bytes and the flush in the clean-up fails too, the file is cut back but the other 20 bytes
  stay in the writer's buffer; the next accepted token is logged behind them, out of step, and
  after a restart the bridge accepts it again.
\<close>

theorem failed_append_reopens_token:
  assumes "in_sync es lg" "rs_log rs = Some lg" "rs_ok rs" "hm_len (rs_entries rs) < rs_max rs"
    and "length k1 = 32" "length k2 = 32" "rs_held rs k1 = None" "rs_held rs k2 = None" "k1 \<noteq> k2"
    and "k2 \<notin> fst ` set es" "k2 \<noteq> fst (garbage (k1, d1) (k2, d2))"
    and "io_flush io1 = Some 20" "io_reflush io1 = Some 0" "io_set_len io1" "fine_io io2" "fine_io io3"
    and "Suc (length es) < n"
  shows "\<exists>rs1 rs2 lg2 rs3 f.
    ReplaySet_check_and_insert io1 rs k1 d1 now = (False, rs1) \<and>
    ReplaySet_check_and_insert io2 rs1 k2 d2 now = (True, rs2) \<and> rs_log rs2 = Some lg2 \<and>
    ReplaySet_new_with_log srt True w n (Some (lg_disk lg2)) fs now' = (Inr rs3, f) \<and>
    fst (ReplaySet_check_and_insert io3 rs3 k2 d2 now')"
proof -
  have e: "entry_ok (k1, d1)" "entry_ok (k2, d2)" using assms(5,6) by (simp_all add: entry_ok_def)
  let ?stale = "drop 20 (log_record (k1, d1))"
  define rs1 where "rs1 = rs\<lparr>rs_entries := hm_remove k1 (hm_insert k1 d1 (rs_entries rs)), rs_log := Some (lg\<lparr>lg_buf := ?stale\<rparr>)\<rparr>"
  have a1: "log_append io1 (k1, d1) lg = (False, lg\<lparr>lg_buf := ?stale\<rparr>)"
    by (rule append_stale [OF assms(1) e(1)]) (use assms(12-14) in simp_all)
  have c1: "ReplaySet_check_and_insert io1 rs k1 d1 now = (False, rs1)"
    using check_new [OF assms(7,4,2)] a1 by (simp add: rs1_def)
  define lg2 where "lg2 = lg\<lparr>lg_disk := lg_disk lg @ ?stale @ log_record (k2, d2), lg_buf := []\<rparr>"
  have "length ?stale < 40" using length_log_record [OF e(1)] by simp
  then have a2: "log_append io2 (k2, d2) (lg\<lparr>lg_buf := ?stale\<rparr>) = (True, lg2)"
    unfolding lg2_def using assms(15) by (intro append_after_stale [OF assms(1) e(2)]) (simp_all add: fine_io_def)
  have held1: "rs_held rs1 k2 = None" using assms(8,9) by (simp add: rs1_def rs_held_def hm_laws)
  have wf: "hm_wf (rs_entries rs)" using assms(3) by (simp add: rs_ok_def)
  have "hm_len (rs_entries rs1) \<le> hm_len (rs_entries rs)"
    using hm.len_ins_new [OF wf] hm.len_del_old [OF hm.wf_ins [OF wf], of k1 d1 k1 d1] assms(7)
    by (simp add: rs1_def rs_held_def hm_laws)
  then have room: "hm_len (rs_entries rs1) < rs_max rs1" using assms(4) by (simp add: rs1_def)
  define rs2 where "rs2 = rs1\<lparr>rs_entries := hm_insert k2 d2 (rs_entries rs1), rs_log := Some lg2\<rparr>"
  have c2: "ReplaySet_check_and_insert io2 rs1 k2 d2 now = (True, rs2)"
    using check_new [OF held1 room, of "lg\<lparr>lg_buf := ?stale\<rparr>"] a2 by (simp add: rs1_def rs2_def)
  let ?es = "filter (\<lambda>e. now' \<le> snd e) (es @ [garbage (k1, d1) (k2, d2)])"
  have load: "log_load (Some (lg_disk lg2)) now' = Inr ?es"
    using load_stale [OF assms(1) e, of now'] by (simp add: lg2_def)
  have all: "list_all entry_ok ?es"
    using assms(1) garbage_record(1) [OF e] by (auto simp: synced_def list_all_iff)
  obtain fresh where f: "log_open w (Some (log_header @ concat (map log_record ?es))) fs = Inr fresh" "in_sync ?es fresh"
    using open_in_sync [OF all] by blast
  have short: "length ?es < n" by (rule le_less_trans [OF length_filter_le]) (use assms(17) in simp)
  define rs3 where "rs3 = \<lparr>rs_entries = fold (\<lambda>(tid, exp). hm_insert tid exp) ?es [], rs_max = n, rs_log = Some fresh\<rparr>"
  have r: "ReplaySet_new_with_log srt True w n (Some (lg_disk lg2)) fs now' = (Inr rs3, Some (lg_disk fresh))"
    using load f(1) short by (simp add: ReplaySet_new_with_log_def log_compact_def rs3_def)
  have "k2 \<notin> fst ` set ?es" using assms(10,11) by auto
  then have held3: "rs_held rs3 k2 = None" using held_fold_none [of k2 ?es "[]"] by (simp add: rs3_def rs_held_def)
  have room3: "hm_len (rs_entries rs3) < rs_max rs3" using len_fold_insert [of "[]" ?es] short by (simp add: rs3_def)
  have "fst (ReplaySet_check_and_insert io3 rs3 k2 d2 now')"
    using check_new [OF held3 room3, of fresh io3 d2 now'] fine_append [OF f(2) e(2) assms(16)]
    by (simp add: rs3_def split: prod.splits)
  then show ?thesis using c1 c2 r by (auto simp: rs2_def)
qed

definition demo_io :: append_io where
  "demo_io = \<lparr>io_fill = None, io_flush = None, io_sync = True, io_reflush = None, io_set_len = True\<rparr>"

definition torn_io :: append_io where
  "torn_io = \<lparr>io_fill = None, io_flush = Some 20, io_sync = True, io_reflush = Some 0, io_set_len = True\<rparr>"

definition demo_log :: PersistentReplayLog where
  "demo_log = \<lparr>lg_disk = log_header, lg_buf = [], fsync_every_write = False\<rparr>"

definition demo_set :: ReplaySet where
  "demo_set = \<lparr>rs_entries = [], rs_max = 100, rs_log = Some demo_log\<rparr>"

lemma demo_facts:
  "in_sync [] demo_log" "rs_log demo_set = Some demo_log" "rs_ok demo_set" "rs_held demo_set k = None"
  "hm_len (rs_entries demo_set) = 0" "rs_max demo_set = 100" "fine_io demo_io" "clean_io demo_io" "durable [] demo_set"
  by (simp_all add: synced_def demo_log_def demo_set_def rs_ok_def rs_held_def fine_io_def clean_io_def demo_io_def durable_def)

theorem failed_append_reopens_token_witness:
  "\<exists>rs1 rs2 lg2 rs3 f.
    ReplaySet_check_and_insert torn_io demo_set (replicate 32 0xAA) 500 100 = (False, rs1) \<and>
    ReplaySet_check_and_insert demo_io rs1 (replicate 32 0xBB) 500 100 = (True, rs2) \<and> rs_log rs2 = Some lg2 \<and>
    ReplaySet_new_with_log (\<lambda>es. es) True None 100 (Some (lg_disk lg2)) False 200 = (Inr rs3, f) \<and>
    fst (ReplaySet_check_and_insert demo_io rs3 (replicate 32 0xBB) 500 200)"
proof (rule failed_append_reopens_token [OF demo_facts(1-3)])
  have "hd (replicate 32 (0xBB :: u8)) \<noteq> hd (fst (garbage (replicate 32 0xAA, 500) (replicate 32 0xBB, 500)))"
    by (simp add: garbage_def hd_append)
  then show "replicate 32 (0xBB :: u8) \<noteq> fst (garbage (replicate 32 0xAA, 500) (replicate 32 0xBB, 500))" by metis
qed (simp_all add: demo_facts torn_io_def replicate_eq_replicate)


end
