(* ===== verification/Seen_Nonce.thy ===== *)
theory Seen_Nonce
  imports Mirage_Prelude
begin

text \<open>
  The bounded set of recently seen nonces that the transports, the gossip layer and the onion
  services share (\<open>crates/common/src/replay_nonce.rs\<close>).  Shown here: the map and the eviction queue
  stay in step and within the capacity; a repeat within the time to live is rejected as long as
  fewer fresh nonces than the capacity arrived in between; and a nonce that returns after its time
  to live keeps its old place in the queue, so it is evicted first although it is the newest.
\<close>

definition DEFAULT_SEEN_NONCE_CAPACITY :: nat where "DEFAULT_SEEN_NONCE_CAPACITY = 65536"

record SeenNonceSet =
  sn_map :: "(bytes, instant) hashmap"
  sn_order :: "bytes list"
  sn_ttl :: duration
  sn_capacity :: nat
  sn_poisoned :: bool

definition sn_with_capacity :: "duration \<Rightarrow> nat \<Rightarrow> SeenNonceSet" where
  "sn_with_capacity ttl capacity =
     \<lparr>sn_map = [], sn_order = [], sn_ttl = ttl, sn_capacity = max capacity 1, sn_poisoned = False\<rparr>"

definition sn_new :: "duration \<Rightarrow> SeenNonceSet" where
  "sn_new ttl = sn_with_capacity ttl DEFAULT_SEEN_NONCE_CAPACITY"

text \<open>The eviction loop: pop queue entries until one of them was in the map.\<close>

fun sn_evict :: "bytes list \<Rightarrow> (bytes, instant) hashmap \<Rightarrow> bytes list \<times> (bytes, instant) hashmap" where
  "sn_evict [] m = ([], m)"
| "sn_evict (victim # rest) m =
     (if hm_get m victim \<noteq> None then (rest, hm_remove victim m) else sn_evict rest (hm_remove victim m))"

definition sn_check_and_insert :: "bytes \<Rightarrow> instant \<Rightarrow> SeenNonceSet \<Rightarrow> bool \<times> SeenNonceSet" where
  "sn_check_and_insert nonce now s =
     (if sn_poisoned s then (False, s)
      else if (case hm_get (sn_map s) nonce of
                 Some seen_at \<Rightarrow> saturating_duration_since now seen_at \<le> sn_ttl s
               | None \<Rightarrow> False)
      then (False, s)
      else
        let is_new = \<not> hm_contains (sn_map s) nonce;
            (order, m) = (if is_new \<and> sn_capacity s \<le> hm_len (sn_map s) then sn_evict (sn_order s) (sn_map s)
                          else (sn_order s, sn_map s));
            order' = (if is_new then order @ [nonce] else order)
        in (True, s\<lparr>sn_map := hm_insert nonce now m, sn_order := order'\<rparr>))"

definition sn_reap :: "instant \<Rightarrow> SeenNonceSet \<Rightarrow> nat \<times> SeenNonceSet" where
  "sn_reap now s =
     (if sn_poisoned s then (0, s)
      else
        let m = hm_retain (\<lambda>_ t. saturating_duration_since now t \<le> sn_ttl s) (sn_map s) in
        (hm_len (sn_map s) - hm_len m, s\<lparr>sn_map := m, sn_order := filter (hm_contains m) (sn_order s)\<rparr>))"

definition sn_len :: "SeenNonceSet \<Rightarrow> nat" where
  "sn_len s = (if sn_poisoned s then 0 else hm_len (sn_map s))"

section \<open>The queue mirrors the map\<close>

definition sn_inv :: "SeenNonceSet \<Rightarrow> bool" where
  "sn_inv s \<longleftrightarrow> hm_wf (sn_map s) \<and> distinct (sn_order s) \<and> set (sn_order s) = dom (hm_get (sn_map s)) \<and>
     length (sn_order s) \<le> sn_capacity s \<and> 0 < sn_capacity s"

lemma sn_inv_new: "sn_inv (sn_with_capacity ttl c)"
  by (simp add: sn_inv_def sn_with_capacity_def hm_get_def [abs_def])

lemma sn_inv_len: "sn_inv s \<Longrightarrow> hm_len (sn_map s) = length (sn_order s)"
  by (metis sn_inv_def hm.len_card distinct_card)

lemma sn_inv_none: "sn_inv s \<Longrightarrow> hm_get (sn_map s) n = None \<Longrightarrow> n \<notin> set (sn_order s)"
  by (auto simp: sn_inv_def)

lemma sn_inv_front:
  assumes "sn_inv s" "sn_order s = v # rest"
  shows "sn_evict (sn_order s) (sn_map s) = (rest, hm_remove v (sn_map s))"
proof -
  have "v \<in> dom (hm_get (sn_map s))" using assms by (auto simp: sn_inv_def)
  with assms(2) show ?thesis by (simp add: dom_def)
qed

lemma sn_check_cases:
  assumes "sn_inv s"
  obtains (rejected) "sn_check_and_insert n now s = (False, s)"
  | (refreshed) t where "hm_get (sn_map s) n = Some t" "sn_ttl s < now - t"
      "sn_check_and_insert n now s = (True, s\<lparr>sn_map := hm_insert n now (sn_map s)\<rparr>)"
  | (added) "hm_get (sn_map s) n = None" "length (sn_order s) < sn_capacity s"
      "sn_check_and_insert n now s = (True, s\<lparr>sn_map := hm_insert n now (sn_map s), sn_order := sn_order s @ [n]\<rparr>)"
  | (replaced) v rest where "hm_get (sn_map s) n = None" "length (sn_order s) = sn_capacity s" "sn_order s = v # rest"
      "sn_check_and_insert n now s =
        (True, s\<lparr>sn_map := hm_insert n now (hm_remove v (sn_map s)), sn_order := rest @ [n]\<rparr>)"
proof (cases "hm_get (sn_map s) n")
  case (Some t)
  show thesis
  proof (cases "sn_poisoned s \<or> now - t \<le> sn_ttl s")
    case True
    with Some show thesis
      by (intro rejected) (auto simp: sn_check_and_insert_def saturating_duration_since_def)
  next
    case False
    with Some show thesis
      by (intro refreshed [of t]) (auto simp: sn_check_and_insert_def saturating_duration_since_def hm_contains_def)
  qed
next
  case None
  show thesis
  proof (cases "sn_poisoned s")
    case True
    then show thesis using rejected by (simp add: sn_check_and_insert_def)
  next
    case False
    show thesis
    proof (cases "length (sn_order s) < sn_capacity s")
      case True
      with None False sn_inv_len [OF assms] show thesis
        by (intro added) (simp_all add: sn_check_and_insert_def hm_contains_def)
    next
      case full: False
      then have eq: "length (sn_order s) = sn_capacity s" using assms by (simp add: sn_inv_def)
      then obtain v rest where o: "sn_order s = v # rest" using assms by (cases "sn_order s") (auto simp: sn_inv_def)
      have "sn_check_and_insert n now s =
          (True, s\<lparr>sn_map := hm_insert n now (hm_remove v (sn_map s)), sn_order := rest @ [n]\<rparr>)"
        using None False eq sn_inv_len [OF assms] sn_inv_front [OF assms o]
        by (simp add: sn_check_and_insert_def hm_contains_def)
      with None eq o show thesis by (rule replaced)
    qed
  qed
qed

lemma sn_check_inv:
  assumes "sn_inv s"
  shows "sn_inv (snd (sn_check_and_insert n now s))"
proof (rule sn_check_cases [OF assms, of n now], goal_cases)
  case 1
  then show ?case using assms by simp
next
  case (2 t)
  then show ?case using assms by (auto simp: sn_inv_def hm_laws hm.keys_ins)
next
  case 3
  have "n \<notin> set (sn_order s)" by (rule sn_inv_none [OF assms 3(1)])
  with 3 assms show ?case by (simp add: sn_inv_def hm_laws hm.keys_ins)
next
  case (4 v rest)
  have "n \<notin> set (sn_order s)" by (rule sn_inv_none [OF assms 4(1)])
  moreover have "set rest = dom (hm_get (sn_map s)) - {v}" using assms 4(3) by (auto simp: sn_inv_def)
  ultimately show ?case using 4 assms by (simp add: sn_inv_def hm_laws hm.keys_ins hm.keys_del)
qed

lemma sn_reap_inv:
  assumes "sn_inv s"
  shows "sn_inv (snd (sn_reap now s))"
proof -
  let ?m = "hm_retain (\<lambda>_ t. saturating_duration_since now t \<le> sn_ttl s) (sn_map s)"
  have wf: "hm_wf (sn_map s)" using assms by (simp add: sn_inv_def)
  have "set (filter (hm_contains ?m) (sn_order s)) = dom (hm_get ?m)"
    using assms hm.keys_retain [OF wf] by (auto simp: sn_inv_def hm_contains_def dom_def)
  moreover have "length (filter (hm_contains ?m) (sn_order s)) \<le> sn_capacity s"
    using assms by (auto simp: sn_inv_def intro: order.trans [OF length_filter_le])
  ultimately show ?thesis using assms wf by (simp add: sn_reap_def sn_inv_def Let_def hm.wf_retain)
qed

section \<open>Repeats within the window\<close>

datatype SnEvent = Check bytes instant | Reap instant

primrec sn_time :: "SnEvent \<Rightarrow> instant" where
  "sn_time (Check n t) = t"
| "sn_time (Reap t) = t"

primrec sn_event :: "SnEvent \<Rightarrow> SeenNonceSet \<Rightarrow> bool \<times> SeenNonceSet" where
  "sn_event (Check n t) s = sn_check_and_insert n t s"
| "sn_event (Reap t) s = (False, snd (sn_reap t s))"

text \<open>A run, with the number of nonces it accepted.\<close>

fun sn_run :: "SnEvent list \<Rightarrow> SeenNonceSet \<Rightarrow> nat \<times> SeenNonceSet" where
  "sn_run [] s = (0, s)"
| "sn_run (ev # evs) s =
     (let (acc, s1) = sn_event ev s; (k, s2) = sn_run evs s1 in ((if acc then Suc k else k), s2))"

text \<open>\<open>n\<close> was seen at \<open>t0\<close>, and at most \<open>k\<close> nonces stand behind it in the queue.\<close>

definition remembers :: "bytes \<Rightarrow> instant \<Rightarrow> nat \<Rightarrow> SeenNonceSet \<Rightarrow> bool" where
  "remembers n t0 k s \<longleftrightarrow> sn_inv s \<and> hm_get (sn_map s) n = Some t0 \<and>
     (\<exists>pre post. sn_order s = pre @ n # post \<and> length post \<le> k)"

lemma remembersI:
  "sn_inv s \<Longrightarrow> hm_get (sn_map s) n = Some t0 \<Longrightarrow> sn_order s = pre @ n # post \<Longrightarrow> length post \<le> k \<Longrightarrow> remembers n t0 k s"
  by (auto simp: remembers_def)

lemma sn_keep_params [simp]:
  "sn_ttl (snd (sn_check_and_insert n t s)) = sn_ttl s" "sn_capacity (snd (sn_check_and_insert n t s)) = sn_capacity s"
  "sn_ttl (snd (sn_reap t s)) = sn_ttl s" "sn_capacity (snd (sn_reap t s)) = sn_capacity s"
  by (simp_all add: sn_check_and_insert_def sn_reap_def Let_def split: prod.splits)

lemma sn_repeat_rejected: "hm_get (sn_map s) n = Some t0 \<Longrightarrow> t \<le> t0 + sn_ttl s \<Longrightarrow> sn_check_and_insert n t s = (False, s)"
  by (simp add: sn_check_and_insert_def saturating_duration_since_def le_diff_conv add.commute)

lemma remembers_check:
  assumes "remembers n t0 k s" "t \<le> t0 + sn_ttl s" "Suc k < sn_capacity s"
  shows "remembers n t0 (if fst (sn_check_and_insert n' t s) then Suc k else k) (snd (sn_check_and_insert n' t s))"
proof (cases "n' = n")
  case True
  with assms show ?thesis by (simp add: remembers_def sn_repeat_rejected)
next
  case False
  have inv: "sn_inv s" and get: "hm_get (sn_map s) n = Some t0" using assms(1) by (simp_all add: remembers_def)
  obtain pre post where o: "sn_order s = pre @ n # post" "length post \<le> k" using assms(1) by (auto simp: remembers_def)
  note inv' = sn_check_inv [OF inv, of n' t]
  show ?thesis
  proof (rule sn_check_cases [OF inv, of n' t], goal_cases)
    case 1
    with assms(1) show ?case by simp
  next
    case (2 t')
    with inv' get o False show ?case by (auto simp: hm_laws intro!: remembersI [of _ n t0 pre post])
  next
    case 3
    with inv' get o False show ?case by (auto simp: hm_laws intro!: remembersI [of _ n t0 pre "post @ [n']"])
  next
    case (4 v rest)
    then obtain pre' where p: "pre = v # pre'" using o assms(3) by (cases pre) auto
    then have r: "rest @ [n'] = pre' @ n # post @ [n']" "v \<noteq> n"
      using 4(3) o inv by (auto simp: sn_inv_def)
    with 4 inv' get o False show ?case by (auto simp: hm_laws intro!: remembersI [of _ n t0 pre' "post @ [n']"])
  qed
qed

lemma remembers_reap:
  assumes "remembers n t0 k s" "t \<le> t0 + sn_ttl s"
  shows "remembers n t0 k (snd (sn_reap t s))"
proof -
  let ?m = "hm_retain (\<lambda>_ u. saturating_duration_since t u \<le> sn_ttl s) (sn_map s)"
  obtain pre post where o: "sn_order s = pre @ n # post" "length post \<le> k" using assms(1) by (auto simp: remembers_def)
  have inv: "sn_inv s" and get: "hm_get (sn_map s) n = Some t0" using assms(1) by (simp_all add: remembers_def)
  have g: "hm_get ?m n = Some t0"
    using inv get assms(2) by (simp add: sn_inv_def hm.get_retain saturating_duration_since_def le_diff_conv add.commute)
  have "filter (hm_contains ?m) (sn_order s) = filter (hm_contains ?m) pre @ n # filter (hm_contains ?m) post"
    using o g by (simp add: hm_contains_def)
  moreover have "length (filter (hm_contains ?m) post) \<le> k" using o(2) by (rule order.trans [OF length_filter_le])
  ultimately have "\<exists>pre post. filter (hm_contains ?m) (sn_order s) = pre @ n # post \<and> length post \<le> k" by blast
  with sn_reap_inv [OF inv, of t] assms(1) g show ?thesis by (simp add: remembers_def sn_reap_def Let_def)
qed

lemma remembers_run:
  assumes "remembers n t0 k s" "list_all (\<lambda>ev. sn_time ev \<le> t0 + sn_ttl s) evs" "k + fst (sn_run evs s) < sn_capacity s"
  shows "remembers n t0 (k + fst (sn_run evs s)) (snd (sn_run evs s)) \<and> sn_ttl (snd (sn_run evs s)) = sn_ttl s"
  using assms
proof (induction evs arbitrary: k s)
  case (Cons ev evs)
  obtain acc s1 where e: "sn_event ev s = (acc, s1)" by (cases "sn_event ev s")
  let ?k = "if acc then Suc k else k"
  have r: "k + fst (sn_run (ev # evs) s) = ?k + fst (sn_run evs s1)" "snd (sn_run (ev # evs) s) = snd (sn_run evs s1)"
    using e by (auto simp: Let_def split: prod.splits)
  have "sn_ttl (snd (sn_event ev s)) = sn_ttl s \<and> sn_capacity (snd (sn_event ev s)) = sn_capacity s"
    by (cases ev) simp_all
  then have same: "sn_ttl s1 = sn_ttl s" "sn_capacity s1 = sn_capacity s" using e by simp_all
  have "remembers n t0 ?k s1"
  proof (cases ev)
    case (Check n' t)
    show ?thesis
    proof (cases "Suc k < sn_capacity s")
      case True
      with remembers_check [OF Cons.prems(1), of t n'] Check e Cons.prems(2) show ?thesis by auto
    next
      case False
      then have "\<not> acc" using Cons.prems(3) r(1) by (auto split: if_splits)
      with Check e have "sn_check_and_insert n' t s = (False, s1)" by simp
      then have "s1 = s" by (auto simp: sn_check_and_insert_def Let_def split: if_splits prod.splits)
      with Cons.prems(1) \<open>\<not> acc\<close> show ?thesis by simp
    qed
  next
    case (Reap t)
    with remembers_reap [OF Cons.prems(1), of t] e Cons.prems(2) show ?thesis by auto
  qed
  with Cons.IH [of ?k s1] Cons.prems r same show ?case by simp
qed simp



text \<open>
  The proviso that the nonce is newly recorded is needed: one that returns after its time to live
  keeps its place at the front of the queue and is the next to be evicted.
\<close>

lemma refreshed_evicted_first:
  assumes "sn_inv s" "sn_order s = n # rest" "length (sn_order s) = sn_capacity s" "\<not> sn_poisoned s"
    and "hm_get (sn_map s) n = Some t0" "sn_ttl s < t - t0" "hm_get (sn_map s) n' = None"
  shows "\<exists>s1 s2. sn_check_and_insert n t s = (True, s1) \<and> sn_check_and_insert n' t s1 = (True, s2) \<and>
    fst (sn_check_and_insert n t s2)"
proof -
  define s1 where "s1 = s\<lparr>sn_map := hm_insert n t (sn_map s)\<rparr>"
  have c1: "sn_check_and_insert n t s = (True, s1)"
    using assms(4-6) by (simp add: sn_check_and_insert_def saturating_duration_since_def hm_contains_def s1_def)
  have inv1: "sn_inv s1" using sn_check_inv [OF assms(1), of n t] c1 by simp
  have n': "n' \<noteq> n" "hm_get (sn_map s1) n' = None" using assms(5,7) by (auto simp: s1_def hm_laws)
  have len1: "sn_capacity s1 \<le> hm_len (sn_map s1)" using sn_inv_len [OF inv1] assms(3) by (simp add: s1_def)
  define s2 where "s2 = s1\<lparr>sn_map := hm_insert n' t (hm_remove n (sn_map s1)), sn_order := rest @ [n']\<rparr>"
  have "sn_evict (sn_order s1) (sn_map s1) = (rest, hm_remove n (sn_map s1))"
    by (rule sn_inv_front [OF inv1]) (simp add: s1_def assms(2))
  then have c2: "sn_check_and_insert n' t s1 = (True, s2)"
    using n' len1 assms(4) by (simp add: sn_check_and_insert_def hm_contains_def s2_def) (simp add: s1_def)
  have "hm_get (sn_map s2) n = None" "\<not> sn_poisoned s2" using n' assms(4) by (simp_all add: s2_def s1_def hm_laws)
  then have "fst (sn_check_and_insert n t s2)"
    by (simp add: sn_check_and_insert_def Let_def split: prod.splits)
  with c1 c2 show ?thesis by blast
qed

end
