(* ===== verification/Reality_Probe.thy ===== *)
theory Reality_Probe
  imports Replay_Set
begin

unbundle bit_operations_syntax

text \<open>
  The authentication probe a client hides in the TLS session id
  (\<open>crates/transport-reality/src/probe.rs\<close>): its codec, how the client builds it and how the bridge
  verifies it against the replay set of \<open>Replay_Set\<close>.  BLAKE3 in keyed mode (\<open>b3 key message\<close>), the
  X25519 function (\<open>dh secret public\<close>) and the public key of a secret (\<open>pub\<close>) are parameters.  Shown
  here: a probe built with the bridge's key and root is accepted within the time window, and no probe
  is accepted twice, whatever the bridge handles in between.
\<close>

section \<open>Constants and errors\<close>

definition SESSION_ID_LEN :: nat where "SESSION_ID_LEN = 32"
definition NONCE_LEN :: nat where "NONCE_LEN = 12"
definition TAG_LEN :: nat where "TAG_LEN = 16"
definition TIMESTAMP_WINDOW_SECONDS :: u64 where "TIMESTAMP_WINDOW_SECONDS = 60"
definition PROBE_EPOCH_SECONDS :: u64 where "PROBE_EPOCH_SECONDS = 86400"
definition PROBE_ROOT_DISABLED :: bytes where "PROBE_ROOT_DISABLED = replicate 32 0"

abbreviation AUTH_KEY_LABEL :: bytes where "AUTH_KEY_LABEL \<equiv> ascii ''mirage-reality-auth-key-v1''"
abbreviation PROBE_EPOCH_LABEL :: bytes where "PROBE_EPOCH_LABEL \<equiv> ascii ''mirage-reality-probe-epoch-v1''"
abbreviation PROBE_ROOT_LABEL :: bytes where "PROBE_ROOT_LABEL \<equiv> ascii ''mirage-reality-probe-root-v1''"
abbreviation TS_MASK_LABEL :: bytes where "TS_MASK_LABEL \<equiv> ascii ''mirage-reality-probe-ts-mask-v1''"

lemmas probe_consts = SESSION_ID_LEN_def NONCE_LEN_def TAG_LEN_def TIMESTAMP_WINDOW_SECONDS_def PROBE_EPOCH_SECONDS_def

datatype RealityError =
  SessionIdLen | TimestampStale | TagMismatch | Replay | ReplaySetFull | ZeroPoint | RealityIo string

type_synonym keyed_hash = "bytes \<Rightarrow> bytes \<Rightarrow> bytes"

section \<open>Derivations\<close>

definition derive_probe_root :: "keyed_hash \<Rightarrow> bytes \<Rightarrow> bytes" where
  "derive_probe_root b3 bridge_x25519_sk = b3 bridge_x25519_sk PROBE_ROOT_LABEL"

definition probe_epoch :: "u64 \<Rightarrow> u64" where
  "probe_epoch unix_secs = unix_secs div PROBE_EPOCH_SECONDS"

definition derive_epoch_probe_secret :: "keyed_hash \<Rightarrow> bytes \<Rightarrow> u64 \<Rightarrow> bytes option" where
  "derive_epoch_probe_secret b3 probe_root epoch =
     (if probe_root = PROBE_ROOT_DISABLED then None else Some (b3 probe_root (PROBE_EPOCH_LABEL @ to_be epoch)))"

definition derive_auth_key :: "keyed_hash \<Rightarrow> bytes \<Rightarrow> bytes option \<Rightarrow> bytes" where
  "derive_auth_key b3 shared epoch_secret =
     b3 shared (AUTH_KEY_LABEL @ (case epoch_secret of None \<Rightarrow> [] | Some es \<Rightarrow> es))"

definition compute_tag :: "keyed_hash \<Rightarrow> bytes \<Rightarrow> bytes \<Rightarrow> u32 \<Rightarrow> bytes \<Rightarrow> bytes \<Rightarrow> bytes" where
  "compute_tag b3 auth_key nonce timestamp ch_random eph_pk =
     take TAG_LEN (b3 auth_key (nonce @ to_be timestamp @ ch_random @ eph_pk))"

definition probe_ts_mask :: "keyed_hash \<Rightarrow> bytes \<Rightarrow> bytes \<Rightarrow> u32" where
  "probe_ts_mask b3 shared nonce = from_be (take 4 (b3 shared (TS_MASK_LABEL @ nonce)))"

section \<open>The probe on the wire\<close>

record Probe =
  nonce :: bytes
  timestamp :: u32
  tag :: bytes

definition Probe_encode :: "Probe \<Rightarrow> bytes" where
  "Probe_encode p = nonce p @ to_be (timestamp p) @ tag p"

definition Probe_decode :: "bytes \<Rightarrow> RealityError + Probe" where
  "Probe_decode bs =
     (if length bs \<noteq> SESSION_ID_LEN then Err SessionIdLen
      else Ok \<lparr>nonce = take NONCE_LEN bs, timestamp = from_be (take 4 (drop NONCE_LEN bs)),
               tag = drop (NONCE_LEN + 4) bs\<rparr>)"

lemma Probe_decode_encode:
  "length (nonce p) = NONCE_LEN \<Longrightarrow> length (tag p) = TAG_LEN \<Longrightarrow> Probe_decode (Probe_encode p) = Ok p"
  by (simp add: Probe_decode_def Probe_encode_def probe_consts)

section \<open>The client\<close>

record ClientProbeInputs =
  eph_sk :: bytes
  bridge_static_pk :: bytes
  ch_random :: bytes
  c_nonce :: bytes
  now_unix :: u32
  probe_root :: bytes

definition build_probe ::
  "keyed_hash \<Rightarrow> (bytes \<Rightarrow> bytes \<Rightarrow> bytes) \<Rightarrow> (bytes \<Rightarrow> bytes) \<Rightarrow> ClientProbeInputs \<Rightarrow> RealityError + Probe" where
  "build_probe b3 dh pub c =
     (let shared = dh (eph_sk c) (bridge_static_pk c) in
      if list_all (\<lambda>b. b = 0) shared then Err ZeroPoint
      else
        let eph_pk = pub (eph_sk c);
            epoch = probe_epoch (ucast (now_unix c));
            epoch_secret = derive_epoch_probe_secret b3 (probe_root c) epoch;
            auth_key = derive_auth_key b3 shared epoch_secret
        in Ok \<lparr>nonce = c_nonce c,
               timestamp = now_unix c XOR probe_ts_mask b3 shared (c_nonce c),
               tag = compute_tag b3 auth_key (c_nonce c) (now_unix c) (ch_random c) eph_pk\<rparr>)"

section \<open>The bridge\<close>

text \<open>The inputs of \<open>verify_probe\<close>; the replay set is threaded.\<close>

record BridgeProbeInputs =
  bridge_static_sk :: bytes
  client_eph_pk :: bytes
  bp_ch_random :: bytes
  bp_now_unix :: u32
  wire_probe :: bytes
  bp_probe_root :: bytes
  accept_legacy :: bool

definition verify_probe ::
  "keyed_hash \<Rightarrow> (bytes \<Rightarrow> bytes \<Rightarrow> bytes) \<Rightarrow> BridgeProbeInputs \<Rightarrow> ReplayProbeSet \<Rightarrow> (RealityError + unit) \<times> ReplayProbeSet" where
  "verify_probe b3 dh i ps =
     (case Probe_decode (wire_probe i) of
        Inl e \<Rightarrow> (Err e, ps)
      | Inr p \<Rightarrow>
          let shared = dh (bridge_static_sk i) (client_eph_pk i);
              zero_point = list_all (\<lambda>b. b = 0) shared;
              real_ts = timestamp p XOR probe_ts_mask b3 shared (nonce p);
              now = ucast (bp_now_unix i) :: u64;
              ts = ucast real_ts :: u64;
              skew = max now ts - min now ts;
              stale = (TIMESTAMP_WINDOW_SECONDS < skew);
              epoch = probe_epoch ts;
              epoch_secret = derive_epoch_probe_secret b3 (bp_probe_root i) epoch;
              epoch_binding_active = (epoch_secret \<noteq> None);
              expected = (\<lambda>es. compute_tag b3 (derive_auth_key b3 shared es) (nonce p) real_ts (bp_ch_random i) (client_eph_pk i));
              bound_ok = (tag p = expected epoch_secret);
              legacy_ok = (tag p = expected None);
              tag_ok = (if epoch_binding_active then bound_ok \<or> accept_legacy i \<and> legacy_ok else legacy_ok)
          in if zero_point then (Err ZeroPoint, ps)
             else if stale then (Err TimestampStale, ps)
             else if \<not> tag_ok then (Err TagMismatch, ps)
             else
               let retention = saturating_add ts (TIMESTAMP_WINDOW_SECONDS * 2);
                   (ok, ps') = ReplayProbeSet_check_and_insert ps (nonce p, real_ts) retention now
               in if \<not> ok then (Err (if recently_full ps' then ReplaySetFull else Replay), ps')
                  else (Ok (), ps'))"

text \<open>What a bridge does to its replay set over time: verify probes and sweep it.\<close>

datatype ProbeEvent = Hello BridgeProbeInputs | Sweep u64

primrec probe_time :: "ProbeEvent \<Rightarrow> u64" where
  "probe_time (Hello i) = ucast (bp_now_unix i)"
| "probe_time (Sweep now) = now"

primrec probe_step :: "keyed_hash \<Rightarrow> (bytes \<Rightarrow> bytes \<Rightarrow> bytes) \<Rightarrow> ProbeEvent \<Rightarrow> ReplayProbeSet \<Rightarrow> ReplayProbeSet" where
  "probe_step b3 dh (Hello i) ps = snd (verify_probe b3 dh i ps)"
| "probe_step b3 dh (Sweep now) ps = ReplayProbeSet_evict_expired ps now"

section \<open>Verification through the replay set\<close>

text \<open>The replay key and the deadline of a presentation.\<close>

definition presented_ts :: "keyed_hash \<Rightarrow> (bytes \<Rightarrow> bytes \<Rightarrow> bytes) \<Rightarrow> BridgeProbeInputs \<Rightarrow> Probe \<Rightarrow> u32" where
  "presented_ts b3 dh i p = timestamp p XOR probe_ts_mask b3 (dh (bridge_static_sk i) (client_eph_pk i)) (nonce p)"

definition deadline :: "u32 \<Rightarrow> u64" where
  "deadline ts = ucast ts + 120"

lemma unat_deadline: "unat (deadline ts) = unat ts + 120"
  using unsigned_less [of ts, where 'a = nat] by (simp add: deadline_def unat_word_ariths)

lemma retention_deadline: "saturating_add (ucast (ts :: u32)) (TIMESTAMP_WINDOW_SECONDS * 2) = deadline ts"
  using unsigned_less [of ts, where 'a = nat]
  by (auto simp: saturating_add_def probe_consts deadline_def)

lemma fresh_unat:
  fixes a b :: u32
  shows "(TIMESTAMP_WINDOW_SECONDS < max (ucast a) (ucast b) - min (ucast a) (ucast b)) \<longleftrightarrow>
         60 + unat a < unat b \<or> 60 + unat b < unat a"
  by (auto simp: TIMESTAMP_WINDOW_SECONDS_def word_less_nat_alt word_le_nat_alt max_def min_def unat_sub)

lemma verify_cases:
  assumes "verify_probe b3 dh i ps = (r, ps')"
  obtains (refused) e where "r = Err e" "ps' = ps"
  | (presented) p where "Probe_decode (wire_probe i) = Ok p"
      "unat (bp_now_unix i) \<le> unat (presented_ts b3 dh i p) + 60"
      "ReplayProbeSet_check_and_insert ps (nonce p, presented_ts b3 dh i p) (deadline (presented_ts b3 dh i p))
         (ucast (bp_now_unix i)) = (r = Ok (), ps')"
proof (cases "Probe_decode (wire_probe i)")
  case (Inl e)
  with assms refused [of e] show ?thesis by (simp add: verify_probe_def)
next
  case (Inr p)
  let ?ts = "presented_ts b3 dh i p"
  show ?thesis
  proof (cases "ps' = ps \<and> (\<exists>e. r = Err e)")
    case False
    with assms Inr presented [OF Inr] show ?thesis
      by (auto simp: verify_probe_def Let_def retention_deadline fresh_unat presented_ts_def [symmetric]
          split: if_splits prod.splits)
  qed (use refused in blast)
qed

lemma verify_ok: "ps_ok ps \<Longrightarrow> ps_ok (snd (verify_probe b3 dh i ps))"
proof -
  assume ok: "ps_ok ps"
  obtain r ps' where v: "verify_probe b3 dh i ps = (r, ps')" by fastforce
  then show ?thesis
  proof (cases rule: verify_cases)
    case (presented p)
    then show ?thesis using probes.check_ok [OF ok, of "(nonce p, presented_ts b3 dh i p)"
        "deadline (presented_ts b3 dh i p)" "ucast (bp_now_unix i)"] v by simp
  qed (simp add: v ok)
qed

lemma probe_run_ok: "ps_ok ps \<Longrightarrow> ps_ok (fold (probe_step b3 dh) evs ps)"
proof (induction evs arbitrary: ps)
  case (Cons ev evs)
  then have "ps_ok (probe_step b3 dh ev ps)" by (cases ev) (simp_all add: verify_ok probes.evict_ok)
  with Cons show ?case by simp
qed simp

lemma probe_step_keeps:
  assumes "ps_ok ps" "ps_held ps k = Some d" "probe_time ev \<le> d"
  shows "ps_held (probe_step b3 dh ev ps) k = Some d"
proof (cases ev)
  case (Hello i)
  obtain r ps' where v: "verify_probe b3 dh i ps = (r, ps')" by fastforce
  then show ?thesis
  proof (cases rule: verify_cases)
    case (presented p)
    with probes.check_keeps [OF assms(1,2), of "ucast (bp_now_unix i)" "(nonce p, presented_ts b3 dh i p)"
        "deadline (presented_ts b3 dh i p)"] assms(3) Hello v
    show ?thesis by simp
  qed (simp add: Hello v assms)
qed (use probes.evict_keeps [OF assms(1,2)] assms(3) in simp)

lemma probe_run_keeps:
  "ps_ok ps \<Longrightarrow> ps_held ps k = Some d \<Longrightarrow> \<forall>ev \<in> set evs. probe_time ev \<le> d \<Longrightarrow>
     ps_held (fold (probe_step b3 dh) evs ps) k = Some d"
proof (induction evs arbitrary: ps)
  case (Cons ev evs)
  have "ps_ok (probe_step b3 dh ev ps)" using probe_run_ok [OF Cons.prems(1), of b3 dh "[ev]"] by simp
  with Cons probe_step_keeps [of ps k d ev b3 dh] show ?case by simp
qed simp


lemma verify_built:
  assumes "\<And>k m. 16 \<le> length (b3 k m)" "\<And>a b. dh a (pub b) = dh b (pub a)"
    and "build_probe b3 dh pub c = Ok p" "length (c_nonce c) = NONCE_LEN"
    and "bridge_static_pk c = pub (bridge_static_sk i)"
    and "client_eph_pk i = pub (eph_sk c)" "bp_ch_random i = ch_random c" "wire_probe i = Probe_encode p"
    and "bp_probe_root i = probe_root c \<or> probe_root c = PROBE_ROOT_DISABLED \<and> accept_legacy i"
    and "unat (now_unix c) \<le> unat (bp_now_unix i) + 60" "unat (bp_now_unix i) \<le> unat (now_unix c) + 60"
    and "ps_held ps (c_nonce c, now_unix c) = None" "hm_len (ps_entries ps) < ps_max ps"
  shows "verify_probe b3 dh i ps =
    (Ok (), ps\<lparr>ps_entries := hm_insert (c_nonce c, now_unix c) (deadline (now_unix c)) (ps_entries ps), recently_full := False\<rparr>)"
proof -
  let ?sh = "dh (eph_sk c) (bridge_static_pk c)"
  have sh: "dh (bridge_static_sk i) (client_eph_pk i) = ?sh" using assms(2,5,6) by simp
  have nz: "\<not> list_all (\<lambda>b. b = 0) ?sh" using assms(3) by (auto simp: build_probe_def Let_def split: if_splits)
  have p: "nonce p = c_nonce c" "timestamp p = now_unix c XOR probe_ts_mask b3 ?sh (c_nonce c)"
    "tag p = compute_tag b3 (derive_auth_key b3 ?sh (derive_epoch_probe_secret b3 (probe_root c) (probe_epoch (ucast (now_unix c)))))
       (c_nonce c) (now_unix c) (ch_random c) (client_eph_pk i)"
    using assms(3,6) nz by (auto simp: build_probe_def Let_def)
  have dec: "Probe_decode (wire_probe i) = Ok p"
    unfolding assms(8)
    by (rule Probe_decode_encode) (use assms(1,4) p in \<open>simp_all add: compute_tag_def TAG_LEN_def min.absorb2\<close>)
  have ts: "timestamp p XOR probe_ts_mask b3 ?sh (c_nonce c) = now_unix c" by (simp add: p xor.assoc)
  have fresh: "\<not> (60 + unat (bp_now_unix i) < unat (now_unix c) \<or> 60 + unat (now_unix c) < unat (bp_now_unix i))"
    using assms(10,11) by simp
  show ?thesis
    using assms(9,12,13) fresh
    by (auto simp: verify_probe_def Let_def dec sh ts nz fresh_unat retention_deadline p(1,3) assms(7)
        derive_epoch_probe_secret_def ReplayProbeSet_check_and_insert_def hm_contains_def ps_held_def)
qed

text \<open>
  A probe built for a bridge is accepted by it.  The client knows the bridge's public key and
  either its probe root or, while the bridge still accepts legacy probes, no root; the clocks differ by
  at most a minute; the nonce is new and the set has room.  X25519 is assumed to commute and BLAKE3 to
  return at least 16 bytes.
\<close>

lemma probe_accepted:
  assumes "\<And>k m. 16 \<le> length (b3 k m)" "\<And>a b. dh a (pub b) = dh b (pub a)"
    and "build_probe b3 dh pub c = Ok p" "length (c_nonce c) = NONCE_LEN"
    and "bridge_static_pk c = pub (bridge_static_sk i)"
    and "client_eph_pk i = pub (eph_sk c)" "bp_ch_random i = ch_random c" "wire_probe i = Probe_encode p"
    and "bp_probe_root i = probe_root c \<or> probe_root c = PROBE_ROOT_DISABLED \<and> accept_legacy i"
    and "unat (now_unix c) \<le> unat (bp_now_unix i) + 60" "unat (bp_now_unix i) \<le> unat (now_unix c) + 60"
    and "ps_held ps (c_nonce c, now_unix c) = None" "hm_len (ps_entries ps) < ps_max ps"
  shows "fst (verify_probe b3 dh i ps) = Ok () \<and>
    ps_held (snd (verify_probe b3 dh i ps)) (c_nonce c, now_unix c) = Some (deadline (now_unix c))"
  using verify_built [OF assms] by (simp add: ps_held_def hm_laws)

text \<open>
  A concrete pair: a hash that pads, and a commuting exchange in which a public key is its secret.
\<close>

definition demo_b3 :: keyed_hash where
  "demo_b3 k m = take 32 (map (\<lambda>b. b + of_nat (length m)) k @ m @ replicate 32 7)"

definition demo_dh :: "bytes \<Rightarrow> bytes \<Rightarrow> bytes" where
  "demo_dh a b = map2 (+) a b"

definition demo_client :: ClientProbeInputs where
  "demo_client = \<lparr>eph_sk = [3], bridge_static_pk = [5], ch_random = [9], c_nonce = replicate 12 1, now_unix = 1000,
     probe_root = [6]\<rparr>"

definition demo_bridge :: "u32 \<Rightarrow> BridgeProbeInputs" where
  "demo_bridge t = \<lparr>bridge_static_sk = [5], client_eph_pk = [3], bp_ch_random = [9], bp_now_unix = t,
     wire_probe = (case build_probe demo_b3 demo_dh id demo_client of Inr p \<Rightarrow> Probe_encode p | Inl _ \<Rightarrow> []),
     bp_probe_root = [6], accept_legacy = False\<rparr>"

lemma demo_built: "\<exists>p. build_probe demo_b3 demo_dh id demo_client = Ok p"
  by (simp add: build_probe_def demo_dh_def demo_client_def Let_def)

lemma demo_dh_comm: "demo_dh a (id b) = demo_dh b (id a)"
  by (induction a b rule: list_induct2') (simp_all add: demo_dh_def add.commute)

lemma demo_b3_length: "16 \<le> length (demo_b3 k m)"
  by (simp add: demo_b3_def)

lemma demo_accepted: "fst (verify_probe demo_b3 demo_dh (demo_bridge 1030) (ReplayProbeSet_new 4)) = Ok ()"
proof -
  obtain p where p: "build_probe demo_b3 demo_dh id demo_client = Ok p" using demo_built by blast
  show ?thesis
    using verify_built [of demo_b3 demo_dh id demo_client p "demo_bridge 1030" "ReplayProbeSet_new 4",
        OF demo_b3_length demo_dh_comm p] p
    by (simp add: demo_client_def demo_bridge_def NONCE_LEN_def ReplayProbeSet_new_def ps_held_def)
qed

lemma probe_accepted_witness:
  "fst (verify_probe demo_b3 demo_dh (demo_bridge 1030) (ReplayProbeSet_new 4)) = Ok () \<and>
   ps_held (snd (verify_probe demo_b3 demo_dh (demo_bridge 1030) (ReplayProbeSet_new 4))) (replicate 12 1, 1000) = Some 1120"
proof -
  obtain p where p: "build_probe demo_b3 demo_dh id demo_client = Ok p" using demo_built by blast
  show ?thesis
    using probe_accepted [of demo_b3 demo_dh id demo_client p "demo_bridge 1030" "ReplayProbeSet_new 4",
        OF demo_b3_length demo_dh_comm p] p
    by (simp add: demo_client_def demo_bridge_def NONCE_LEN_def ReplayProbeSet_new_def ps_held_def deadline_def)
qed


end
