(* ===== verification/Session_Wire.thy ===== *)
theory Session_Wire
  imports Mirage_Prelude
begin

text \<open>
  The wire format of the session handshake (\<open>crates/session/src/wire.rs\<close>): messages 1 to 3 and the
  cleartext alert, with the errors of \<open>crates/session/src/error.rs\<close>.  Every decoder is the exact
  inverse of its encoder.
\<close>

datatype SessionError =
    SessionWire string
  | VersionMismatch u16 u16 u16
  | Noise string
  | MlKem string
  | State string
  | TokenVerification string
  | SessionIo string

definition MAGIC :: bytes where "MAGIC = [0x4D, 0x49]"
definition MSG_TYPE_1 :: u8 where "MSG_TYPE_1 = 0x01"
definition MSG_TYPE_2 :: u8 where "MSG_TYPE_2 = 0x02"
definition MSG_TYPE_3 :: u8 where "MSG_TYPE_3 = 0x03"
definition MSG_TYPE_3_FS :: u8 where "MSG_TYPE_3_FS = 0x04"
definition MSG_TYPE_ALERT :: u8 where "MSG_TYPE_ALERT = 0xFE"

definition MLKEM_EK_LEN :: nat where "MLKEM_EK_LEN = 1184"
definition MLKEM_CT_LEN :: nat where "MLKEM_CT_LEN = 1088"
definition NOISE_MSG_1_LEN :: nat where "NOISE_MSG_1_LEN = 32 + MLKEM_EK_LEN"
definition NOISE_MSG_2_LEN :: nat where "NOISE_MSG_2_LEN = 32 + 48 + MLKEM_CT_LEN + 16"
definition NOISE_MSG_3_LEN_NO_TOKEN :: nat where "NOISE_MSG_3_LEN_NO_TOKEN = 64"
definition NOISE_MSG_3_LEN_WITH_TOKEN :: nat where "NOISE_MSG_3_LEN_WITH_TOKEN = 200"
definition NOISE_MSG_3_LEN_WITH_FS_TOKEN :: nat where "NOISE_MSG_3_LEN_WITH_FS_TOKEN = 312"
definition TOKEN_PAYLOAD_LEN :: nat where "TOKEN_PAYLOAD_LEN = 136"
definition FS_TOKEN_PAYLOAD_LEN :: nat where "FS_TOKEN_PAYLOAD_LEN = 248"
definition MSG_1_LEN :: nat where "MSG_1_LEN = 2 + 1 + 2 + NOISE_MSG_1_LEN"
definition MSG_2_LEN :: nat where "MSG_2_LEN = 2 + 1 + 2 + NOISE_MSG_2_LEN"
definition MSG_3_LEN_NO_TOKEN :: nat where "MSG_3_LEN_NO_TOKEN = 2 + 1 + NOISE_MSG_3_LEN_NO_TOKEN"
definition MSG_3_LEN_WITH_TOKEN :: nat where "MSG_3_LEN_WITH_TOKEN = 2 + 1 + NOISE_MSG_3_LEN_WITH_TOKEN"
definition MSG_3_LEN_WITH_FS_TOKEN :: nat where "MSG_3_LEN_WITH_FS_TOKEN = 2 + 1 + NOISE_MSG_3_LEN_WITH_FS_TOKEN"
definition ALERT_REASON_MAX :: nat where "ALERT_REASON_MAX = 1024"

lemmas msg_types = MAGIC_def MSG_TYPE_1_def MSG_TYPE_2_def MSG_TYPE_3_def MSG_TYPE_3_FS_def MSG_TYPE_ALERT_def
lemmas msg_lens = MLKEM_EK_LEN_def MLKEM_CT_LEN_def NOISE_MSG_1_LEN_def NOISE_MSG_2_LEN_def NOISE_MSG_3_LEN_NO_TOKEN_def
  NOISE_MSG_3_LEN_WITH_TOKEN_def NOISE_MSG_3_LEN_WITH_FS_TOKEN_def TOKEN_PAYLOAD_LEN_def FS_TOKEN_PAYLOAD_LEN_def
  MSG_1_LEN_def MSG_2_LEN_def MSG_3_LEN_NO_TOKEN_def MSG_3_LEN_WITH_TOKEN_def MSG_3_LEN_WITH_FS_TOKEN_def

section \<open>Messages\<close>

record Message1 =
  m1_wire_version :: u16
  noise_msg_1 :: bytes

definition Message1_encode :: "Message1 \<Rightarrow> bytes" where
  "Message1_encode m = MAGIC @ [MSG_TYPE_1] @ to_be (m1_wire_version m) @ noise_msg_1 m"

definition Message1_decode :: "bytes \<Rightarrow> SessionError + Message1" where
  "Message1_decode buf =
     (if length buf \<noteq> MSG_1_LEN then Err (SessionWire ''message 1: wrong length'')
      else if take 2 buf \<noteq> MAGIC then Err (SessionWire ''message 1: bad magic'')
      else if buf ! 2 \<noteq> MSG_TYPE_1 then Err (SessionWire ''message 1: wrong msg_type'')
      else Ok \<lparr>m1_wire_version = from_be [buf ! 3, buf ! 4], noise_msg_1 = take NOISE_MSG_1_LEN (drop 5 buf)\<rparr>)"

record Message2 =
  m2_wire_version :: u16
  noise_msg_2 :: bytes

definition Message2_encode :: "Message2 \<Rightarrow> bytes" where
  "Message2_encode m = MAGIC @ [MSG_TYPE_2] @ to_be (m2_wire_version m) @ noise_msg_2 m"

definition Message2_decode :: "bytes \<Rightarrow> SessionError + Message2" where
  "Message2_decode buf =
     (if length buf \<noteq> MSG_2_LEN then Err (SessionWire ''message 2: wrong length'')
      else if take 2 buf \<noteq> MAGIC then Err (SessionWire ''message 2: bad magic'')
      else if buf ! 2 \<noteq> MSG_TYPE_2 then Err (SessionWire ''message 2: wrong msg_type'')
      else Ok \<lparr>m2_wire_version = from_be [buf ! 3, buf ! 4], noise_msg_2 = take NOISE_MSG_2_LEN (drop 5 buf)\<rparr>)"

record Message3 =
  noise_msg_3 :: bytes

definition Message3_encode :: "Message3 \<Rightarrow> bytes" where
  "Message3_encode m =
     MAGIC @ [if length (noise_msg_3 m) = NOISE_MSG_3_LEN_WITH_FS_TOKEN then MSG_TYPE_3_FS else MSG_TYPE_3] @ noise_msg_3 m"

definition Message3_decode :: "bytes \<Rightarrow> SessionError + Message3" where
  "Message3_decode buf =
     (if length buf \<noteq> MSG_3_LEN_NO_TOKEN \<and> length buf \<noteq> MSG_3_LEN_WITH_TOKEN \<and> length buf \<noteq> MSG_3_LEN_WITH_FS_TOKEN
      then Err (SessionWire ''message 3: wrong length'')
      else if take 2 buf \<noteq> MAGIC then Err (SessionWire ''message 3: bad magic'')
      else
        let type_ok = (if length buf = MSG_3_LEN_WITH_FS_TOKEN then buf ! 2 = MSG_TYPE_3_FS else buf ! 2 = MSG_TYPE_3) in
        if \<not> type_ok then Err (SessionWire ''message 3: wrong msg_type'')
        else Ok \<lparr>noise_msg_3 = drop 3 buf\<rparr>)"

record CleartextAlert =
  alert_code :: u16
  alert_reason :: bytes

definition CleartextAlert_decode :: "bytes \<Rightarrow> SessionError + CleartextAlert" where
  "CleartextAlert_decode buf =
     (if length buf < 7 then Err (SessionWire ''alert: too short'')
      else if take 2 buf \<noteq> MAGIC then Err (SessionWire ''alert: bad magic'')
      else if buf ! 2 \<noteq> MSG_TYPE_ALERT then Err (SessionWire ''alert: wrong msg_type'')
      else
        let reason_len = unat (from_be [buf ! 5, buf ! 6] :: u16) in
        if ALERT_REASON_MAX < reason_len then Err (SessionWire ''alert: reason_len exceeds max'')
        else if length buf \<noteq> 7 + reason_len then Err (SessionWire ''alert: length mismatch'')
        else if \<not> valid_utf8 (take reason_len (drop 7 buf)) then Err (SessionWire ''alert: reason not UTF-8'')
        else Ok \<lparr>alert_code = from_be [buf ! 3, buf ! 4], alert_reason = take reason_len (drop 7 buf)\<rparr>)"

section \<open>Round trips\<close>

lemma from_be_pair: "from_be [to_be (w :: u16) ! 0, to_be w ! Suc 0] = w"
proof -
  have "length (to_be w) = 2" by simp
  then have "[to_be w ! 0, to_be w ! Suc 0] = to_be w" by (cases "to_be w" rule: list.exhaust) (auto simp: length_Suc_conv)
  then show ?thesis by simp
qed

lemma Message1_decode_encode:
  "length (noise_msg_1 m) = NOISE_MSG_1_LEN \<Longrightarrow> Message1_decode (Message1_encode m) = Ok m"
  by (simp add: Message1_decode_def Message1_encode_def msg_types msg_lens nth_append from_be_pair)

lemma Message2_decode_encode:
  "length (noise_msg_2 m) = NOISE_MSG_2_LEN \<Longrightarrow> Message2_decode (Message2_encode m) = Ok m"
  by (simp add: Message2_decode_def Message2_encode_def msg_types msg_lens nth_append from_be_pair)

definition msg3_len_ok :: "nat \<Rightarrow> bool" where
  "msg3_len_ok n = (n \<in> {NOISE_MSG_3_LEN_NO_TOKEN, NOISE_MSG_3_LEN_WITH_TOKEN, NOISE_MSG_3_LEN_WITH_FS_TOKEN})"

lemma Message3_decode_iff:
  "Message3_decode buf = Ok m \<longleftrightarrow> buf = Message3_encode m \<and> msg3_len_ok (length (noise_msg_3 m))"
proof
  assume d: "Message3_decode buf = Ok m"
  then have m: "noise_msg_3 m = drop 3 buf" "take 2 buf = MAGIC"
    "buf ! 2 = (if length buf = 315 then MSG_TYPE_3_FS else MSG_TYPE_3)" "length buf \<in> {67, 203, 315}"
    by (auto simp: Message3_decode_def msg_lens Let_def split: if_splits)
  have "3 \<le> length buf" using m(4) by auto
  then have "buf = take 2 buf @ buf ! 2 # drop 3 buf"
    using id_take_nth_drop [of 2 buf] by (simp add: numeral_eq_Suc)
  then have "buf = MAGIC @ [buf ! 2] @ noise_msg_3 m" by (simp add: m(1,2) [symmetric])
  with m show "buf = Message3_encode m \<and> msg3_len_ok (length (noise_msg_3 m))"
    by (auto simp: Message3_encode_def msg3_len_ok_def msg_lens)
next
  assume "buf = Message3_encode m \<and> msg3_len_ok (length (noise_msg_3 m))"
  then show "Message3_decode buf = Ok m"
    by (auto simp: Message3_decode_def Message3_encode_def msg3_len_ok_def msg_types msg_lens)
qed

end
