(* ===== verification/Capability_Token.thy ===== *)
theory Capability_Token
  imports Mirage_Prelude
begin

text \<open>
  The credentials a client presents to a bridge, as \<open>crates/discovery/src\<close> defines them: the
  operator-signed capability token (\<open>token.rs\<close>), the forward-secure token with its inline epoch
  certificate (\<open>token_fs.rs\<close>) and the bridge-signed refresh token with the request and response that
  issue it (\<open>refresh.rs\<close>): codecs, signing and verification.  Ed25519 is a record of functions; what the
  theorems need of it is \<open>ed25519_laws\<close>.  Randomness is an argument.
\<close>

section \<open>Ed25519\<close>

record ed25519 =
  ed_vk_valid :: "bytes \<Rightarrow> bool"
  ed_verify :: "bytes \<Rightarrow> bytes \<Rightarrow> bytes \<Rightarrow> bool"
  ed_sign :: "bytes \<Rightarrow> bytes \<Rightarrow> bytes"
  ed_pk :: "bytes \<Rightarrow> bytes"

text \<open>A key derived from a seed is valid and 32 bytes long, signatures are 64 bytes long and verify.\<close>

definition ed25519_laws :: "ed25519 \<Rightarrow> bool" where
  "ed25519_laws ed \<longleftrightarrow>
     (\<forall>sk m. ed_vk_valid ed (ed_pk ed sk) \<and> length (ed_pk ed sk) = 32 \<and> length (ed_sign ed sk m) = 64 \<and>
        ed_verify ed (ed_pk ed sk) m (ed_sign ed sk m))"

definition ED25519_PK_LEN :: nat where "ED25519_PK_LEN = 32"
definition SIG_LEN :: nat where "SIG_LEN = 64"

datatype DiscoveryError = Wire string | Signature string | Decrypt string | Time string | Ed25519 string

definition is_ok :: "'e + 'a \<Rightarrow> bool" where
  "is_ok r = (case r of Inl _ \<Rightarrow> False | Inr _ \<Rightarrow> True)"

lemma is_ok_simps [simp]: "is_ok (Ok x)" "\<not> is_ok (Err e)"
  by (simp_all add: is_ok_def)

section \<open>Capability tokens\<close>

definition TOKEN_LEN :: nat where "TOKEN_LEN = 32 + ED25519_PK_LEN + 8 + SIG_LEN"

record CapabilityToken =
  token_id :: bytes
  bridge_ed25519_pk :: bytes
  expires_at :: u64
  signature :: bytes

definition encode_signed_prefix :: "CapabilityToken \<Rightarrow> bytes" where
  "encode_signed_prefix t = token_id t @ bridge_ed25519_pk t @ to_be (expires_at t)"

definition CapabilityToken_encode :: "CapabilityToken \<Rightarrow> bytes" where
  "CapabilityToken_encode t = token_id t @ bridge_ed25519_pk t @ to_be (expires_at t) @ signature t"

definition CapabilityToken_decode :: "bytes \<Rightarrow> DiscoveryError + CapabilityToken" where
  "CapabilityToken_decode buf =
     (if length buf \<noteq> TOKEN_LEN then Err (Wire ''token: wrong length'')
      else Ok \<lparr>token_id = take 32 buf, bridge_ed25519_pk = take 32 (drop 32 buf),
               expires_at = from_be (take 8 (drop 64 buf)), signature = take 64 (drop 72 buf)\<rparr>)"

definition verify_signature :: "ed25519 \<Rightarrow> CapabilityToken \<Rightarrow> bytes \<Rightarrow> DiscoveryError + unit" where
  "verify_signature ed t operator_pk =
     (if \<not> ed_vk_valid ed operator_pk then Err (Ed25519 ''invalid operator pubkey'')
      else if ed_verify ed operator_pk (encode_signed_prefix t) (signature t) then Ok ()
      else Err (Signature ''token: verification failed''))"

definition is_for_bridge :: "CapabilityToken \<Rightarrow> bytes \<Rightarrow> bool" where
  "is_for_bridge t bridge_pk = (bridge_ed25519_pk t = bridge_pk)"

definition is_expired :: "CapabilityToken \<Rightarrow> u64 \<Rightarrow> u64 \<Rightarrow> bool" where
  "is_expired t now grace = (saturating_add (expires_at t) grace < now)"

definition sign_token :: "ed25519 \<Rightarrow> bytes \<Rightarrow> bytes \<Rightarrow> u64 \<Rightarrow> bytes \<Rightarrow> CapabilityToken" where
  "sign_token ed tid bridge_pk exp operator_sk =
     (let t = \<lparr>token_id = tid, bridge_ed25519_pk = bridge_pk, expires_at = exp, signature = replicate 64 0\<rparr>
      in t\<lparr>signature := ed_sign ed operator_sk (encode_signed_prefix t)\<rparr>)"

text \<open>\<open>rnd\<close> is what the random generator fills the eight bytes with, \<open>None\<close> when it fails.\<close>

definition expiry_jitter :: "u64 option \<Rightarrow> u64 \<Rightarrow> u64" where
  "expiry_jitter rnd jitter_seconds =
     (if jitter_seconds = 0 then 0 else case rnd of None \<Rightarrow> 0 | Some r \<Rightarrow> r mod jitter_seconds)"

definition sign_token_jittered :: "ed25519 \<Rightarrow> u64 option \<Rightarrow> bytes \<Rightarrow> bytes \<Rightarrow> u64 \<Rightarrow> u64 \<Rightarrow> bytes \<Rightarrow> CapabilityToken" where
  "sign_token_jittered ed rnd tid bridge_pk nominal jitter_seconds operator_sk =
     sign_token ed tid bridge_pk (saturating_add nominal (expiry_jitter rnd jitter_seconds)) operator_sk"

section \<open>Forward-secure tokens\<close>

abbreviation FS_CERT_DOMAIN :: bytes where "FS_CERT_DOMAIN \<equiv> ascii ''mirage-fs-cert-v1'' @ [0]"
abbreviation FS_TOKEN_DOMAIN :: bytes where "FS_TOKEN_DOMAIN \<equiv> ascii ''mirage-fs-token-v1'' @ [0]"
definition FS_CERT_LEN :: nat where "FS_CERT_LEN = 8 + ED25519_PK_LEN + 8 + SIG_LEN"
definition FS_TOKEN_LEN :: nat where "FS_TOKEN_LEN = 32 + ED25519_PK_LEN + 8 + FS_CERT_LEN + SIG_LEN"

record EpochSubkeyCert =
  cert_epoch :: u64
  subkey_pk :: bytes
  cert_valid_until :: u64
  root_sig :: bytes

definition cert_signed_prefix :: "EpochSubkeyCert \<Rightarrow> bytes" where
  "cert_signed_prefix c = FS_CERT_DOMAIN @ to_be (cert_epoch c) @ subkey_pk c @ to_be (cert_valid_until c)"

definition cert_mint :: "ed25519 \<Rightarrow> bytes \<Rightarrow> u64 \<Rightarrow> bytes \<Rightarrow> u64 \<Rightarrow> EpochSubkeyCert" where
  "cert_mint ed root_sk e pk valid_until =
     (let c = \<lparr>cert_epoch = e, subkey_pk = pk, cert_valid_until = valid_until, root_sig = replicate 64 0\<rparr>
      in c\<lparr>root_sig := ed_sign ed root_sk (cert_signed_prefix c)\<rparr>)"

definition verify_root_sig :: "ed25519 \<Rightarrow> EpochSubkeyCert \<Rightarrow> bytes \<Rightarrow> DiscoveryError + unit" where
  "verify_root_sig ed c root_pk =
     (if \<not> ed_vk_valid ed root_pk then Err (Ed25519 ''fs cert: invalid root pubkey'')
      else if ed_verify ed root_pk (cert_signed_prefix c) (root_sig c) then Ok ()
      else Err (Signature ''fs cert: root signature invalid''))"

definition is_retired :: "EpochSubkeyCert \<Rightarrow> u64 \<Rightarrow> u64 \<Rightarrow> bool" where
  "is_retired c now grace = (saturating_add (cert_valid_until c) grace < now)"

definition cert_encode :: "EpochSubkeyCert \<Rightarrow> bytes" where
  "cert_encode c = to_be (cert_epoch c) @ subkey_pk c @ to_be (cert_valid_until c) @ root_sig c"

definition cert_decode :: "bytes \<Rightarrow> DiscoveryError + EpochSubkeyCert" where
  "cert_decode buf =
     (if length buf \<noteq> FS_CERT_LEN then Err (Wire ''fs cert: wrong length'')
      else Ok \<lparr>cert_epoch = from_be (take 8 buf), subkey_pk = take 32 (drop 8 buf),
               cert_valid_until = from_be (take 8 (drop 40 buf)), root_sig = take 64 (drop 48 buf)\<rparr>)"

record FsCapabilityToken =
  fs_token_id :: bytes
  fs_bridge_pk :: bytes
  fs_expires_at :: u64
  cert :: EpochSubkeyCert
  token_sig :: bytes

definition fs_signed_prefix :: "FsCapabilityToken \<Rightarrow> bytes" where
  "fs_signed_prefix t =
     FS_TOKEN_DOMAIN @ fs_token_id t @ fs_bridge_pk t @ to_be (fs_expires_at t) @ to_be (cert_epoch (cert t)) @ subkey_pk (cert t)"

definition verify_chain :: "ed25519 \<Rightarrow> FsCapabilityToken \<Rightarrow> bytes \<Rightarrow> u64 \<Rightarrow> u64 \<Rightarrow> DiscoveryError + unit" where
  "verify_chain ed t root_pk now grace =
     (case verify_root_sig ed (cert t) root_pk of
        Inl e \<Rightarrow> Err e
      | Inr _ \<Rightarrow>
          if \<not> ed_vk_valid ed (subkey_pk (cert t)) then Err (Ed25519 ''fs token: invalid subkey pubkey'')
          else if \<not> ed_verify ed (subkey_pk (cert t)) (fs_signed_prefix t) (token_sig t)
          then Err (Signature ''fs token: subkey signature invalid'')
          else if is_retired (cert t) now grace then Err (Time ''fs token: subkey retired'')
          else Ok ())"

definition fs_is_for_bridge :: "FsCapabilityToken \<Rightarrow> bytes \<Rightarrow> bool" where
  "fs_is_for_bridge t bridge_pk = (fs_bridge_pk t = bridge_pk)"

definition fs_is_expired :: "FsCapabilityToken \<Rightarrow> u64 \<Rightarrow> u64 \<Rightarrow> bool" where
  "fs_is_expired t now grace = (saturating_add (fs_expires_at t) grace < now)"

definition FsCapabilityToken_encode :: "FsCapabilityToken \<Rightarrow> bytes" where
  "FsCapabilityToken_encode t =
     fs_token_id t @ fs_bridge_pk t @ to_be (fs_expires_at t) @ cert_encode (cert t) @ token_sig t"

definition FsCapabilityToken_decode :: "bytes \<Rightarrow> DiscoveryError + FsCapabilityToken" where
  "FsCapabilityToken_decode buf =
     (if length buf \<noteq> FS_TOKEN_LEN then Err (Wire ''fs token: wrong length'')
      else case cert_decode (take 112 (drop 72 buf)) of
             Inl e \<Rightarrow> Err e
           | Inr c \<Rightarrow> Ok \<lparr>fs_token_id = take 32 buf, fs_bridge_pk = take 32 (drop 32 buf),
                          fs_expires_at = from_be (take 8 (drop 64 buf)), cert = c,
                          token_sig = take 64 (drop 184 buf)\<rparr>)"

text \<open>The online signer of an epoch.\<close>

record EpochSigner =
  seed :: bytes
  signer_cert :: EpochSubkeyCert

definition generate_epoch_subkey :: "ed25519 \<Rightarrow> bytes option \<Rightarrow> DiscoveryError + (bytes \<times> bytes)" where
  "generate_epoch_subkey ed rnd =
     (case rnd of None \<Rightarrow> Err (Wire ''fs subkey: CSPRNG failure'') | Some s \<Rightarrow> Ok (s, ed_pk ed s))"

definition EpochSigner_new :: "ed25519 \<Rightarrow> bytes \<Rightarrow> EpochSubkeyCert \<Rightarrow> DiscoveryError + EpochSigner" where
  "EpochSigner_new ed s c =
     (if ed_pk ed s \<noteq> subkey_pk c then Err (Ed25519 ''fs signer: seed/cert pubkey mismatch'')
      else Ok \<lparr>seed = s, signer_cert = c\<rparr>)"

definition EpochSigner_generate :: "ed25519 \<Rightarrow> bytes option \<Rightarrow> bytes \<Rightarrow> u64 \<Rightarrow> u64 \<Rightarrow> DiscoveryError + EpochSigner" where
  "EpochSigner_generate ed rnd root_sk e valid_until =
     (case generate_epoch_subkey ed rnd of
        Inl er \<Rightarrow> Err er
      | Inr (s, pk) \<Rightarrow> EpochSigner_new ed s (cert_mint ed root_sk e pk valid_until))"

definition EpochSigner_sign_token :: "ed25519 \<Rightarrow> EpochSigner \<Rightarrow> bytes \<Rightarrow> bytes \<Rightarrow> u64 \<Rightarrow> FsCapabilityToken" where
  "EpochSigner_sign_token ed sg tid bridge_pk exp =
     (let t = \<lparr>fs_token_id = tid, fs_bridge_pk = bridge_pk, fs_expires_at = exp, cert = signer_cert sg,
               token_sig = replicate 64 0\<rparr>
      in t\<lparr>token_sig := ed_sign ed (seed sg) (fs_signed_prefix t)\<rparr>)"

definition DISCOVERY_EPOCH_SECONDS :: u64 where "DISCOVERY_EPOCH_SECONDS = 3600"

definition epoch_for_time :: "u64 \<Rightarrow> u64" where
  "epoch_for_time unix_secs = unix_secs div DISCOVERY_EPOCH_SECONDS"

text \<open>The random draws of one minted token: the subkey seed, the token id and the jitter.\<close>

record mint_draw =
  draw_seed :: "bytes option"
  draw_tid :: "bytes option"
  draw_jitter :: "u64 option"

primrec mint_loop ::
  "ed25519 \<Rightarrow> bytes \<Rightarrow> bytes \<Rightarrow> u64 \<Rightarrow> u64 \<Rightarrow> u64 \<Rightarrow> u64 \<Rightarrow> mint_draw list \<Rightarrow> FsCapabilityToken list \<Rightarrow>
     DiscoveryError + FsCapabilityToken list" where
  "mint_loop ed root_sk bridge_pk e valid_until exp jitter_seconds [] out = Ok out"
| "mint_loop ed root_sk bridge_pk e valid_until exp jitter_seconds (d # ds) out =
     (case EpochSigner_generate ed (draw_seed d) root_sk e valid_until of
        Inl er \<Rightarrow> Err er
      | Inr sg \<Rightarrow>
          (case draw_tid d of
             None \<Rightarrow> Err (Wire ''fs mint: CSPRNG failure'')
           | Some tid \<Rightarrow>
               mint_loop ed root_sk bridge_pk e valid_until exp jitter_seconds ds
                 (out @ [EpochSigner_sign_token ed sg tid bridge_pk (saturating_add exp (expiry_jitter (draw_jitter d) jitter_seconds))])))"

text \<open>One draw for each of the \<open>count\<close> tokens.\<close>

definition mint_fs_tokens ::
  "ed25519 \<Rightarrow> bytes \<Rightarrow> bytes \<Rightarrow> u64 \<Rightarrow> u64 \<Rightarrow> u64 \<Rightarrow> u64 \<Rightarrow> mint_draw list \<Rightarrow> DiscoveryError + FsCapabilityToken list" where
  "mint_fs_tokens ed root_sk bridge_pk now valid_until exp jitter_seconds draws =
     mint_loop ed root_sk bridge_pk (epoch_for_time now) valid_until exp jitter_seconds draws []"

section \<open>Refresh tokens\<close>

definition REFRESH_VERSION :: u8 where "REFRESH_VERSION = 0x01"
definition REFRESH_CMD_ISSUE :: u8 where "REFRESH_CMD_ISSUE = 0x01"
definition REFRESH_STATUS_OK :: u8 where "REFRESH_STATUS_OK = 0x00"
definition REFRESH_STATUS_EXHAUSTED :: u8 where "REFRESH_STATUS_EXHAUSTED = 0x01"
definition REFRESH_STATUS_POLICY :: u8 where "REFRESH_STATUS_POLICY = 0x02"
definition REFRESH_STATUS_BAD_REQUEST :: u8 where "REFRESH_STATUS_BAD_REQUEST = 0x03"
definition REFRESH_STATUS_INTERNAL :: u8 where "REFRESH_STATUS_INTERNAL = 0x04"
definition REFRESH_MAX_PER_REQUEST :: u8 where "REFRESH_MAX_PER_REQUEST = 4"
definition REFRESH_SIGN_DOMAIN :: bytes where "REFRESH_SIGN_DOMAIN = ascii ''mirage-refresh-v1'' @ [0]"

lemmas refresh_consts = REFRESH_VERSION_def REFRESH_CMD_ISSUE_def REFRESH_MAX_PER_REQUEST_def
lemmas refresh_status = REFRESH_STATUS_OK_def REFRESH_STATUS_EXHAUSTED_def REFRESH_STATUS_POLICY_def
  REFRESH_STATUS_BAD_REQUEST_def REFRESH_STATUS_INTERNAL_def

record RefreshRequest =
  rq_version :: u8
  rq_cmd :: u8
  rq_count :: u8

definition RefreshRequest_issue :: "u8 \<Rightarrow> DiscoveryError + RefreshRequest" where
  "RefreshRequest_issue n =
     (if n = 0 \<or> REFRESH_MAX_PER_REQUEST < n then Err (Wire ''refresh: count out of range'')
      else Ok \<lparr>rq_version = REFRESH_VERSION, rq_cmd = REFRESH_CMD_ISSUE, rq_count = n\<rparr>)"

definition RefreshRequest_encode :: "RefreshRequest \<Rightarrow> bytes" where
  "RefreshRequest_encode r = [rq_version r, rq_cmd r, rq_count r]"

definition RefreshRequest_decode :: "bytes \<Rightarrow> DiscoveryError + RefreshRequest" where
  "RefreshRequest_decode buf =
     (if length buf \<noteq> 3 then Err (Wire ''refresh: request length'')
      else if buf ! 0 \<noteq> REFRESH_VERSION then Err (Wire ''refresh: unsupported version'')
      else if buf ! 1 \<noteq> REFRESH_CMD_ISSUE then Err (Wire ''refresh: unknown cmd'')
      else if buf ! 2 = 0 \<or> REFRESH_MAX_PER_REQUEST < buf ! 2 then Err (Wire ''refresh: count out of range'')
      else Ok \<lparr>rq_version = buf ! 0, rq_cmd = buf ! 1, rq_count = buf ! 2\<rparr>)"

record SessionRefreshToken =
  inner :: CapabilityToken

definition as_wire_bytes :: "SessionRefreshToken \<Rightarrow> bytes" where
  "as_wire_bytes t = CapabilityToken_encode (inner t)"

definition SessionRefreshToken_decode :: "bytes \<Rightarrow> DiscoveryError + SessionRefreshToken" where
  "SessionRefreshToken_decode buf =
     (case CapabilityToken_decode buf of Inl e \<Rightarrow> Err e | Inr t \<Rightarrow> Ok \<lparr>inner = t\<rparr>)"

definition refresh_verify_signature :: "ed25519 \<Rightarrow> SessionRefreshToken \<Rightarrow> bytes \<Rightarrow> DiscoveryError + unit" where
  "refresh_verify_signature ed t bridge_pk =
     (if \<not> ed_vk_valid ed bridge_pk then Err (Ed25519 ''invalid bridge pubkey'')
      else if ed_verify ed bridge_pk (REFRESH_SIGN_DOMAIN @ encode_signed_prefix (inner t)) (signature (inner t)) then Ok ()
      else Err (Signature ''refresh: verification failed''))"

definition sign_refresh_token :: "ed25519 \<Rightarrow> bytes \<Rightarrow> bytes \<Rightarrow> u64 \<Rightarrow> SessionRefreshToken" where
  "sign_refresh_token ed tid bridge_sk exp =
     (let t = \<lparr>token_id = tid, bridge_ed25519_pk = ed_pk ed bridge_sk, expires_at = exp, signature = replicate 64 0\<rparr>
      in \<lparr>inner = t\<lparr>signature := ed_sign ed bridge_sk (REFRESH_SIGN_DOMAIN @ encode_signed_prefix t)\<rparr>\<rparr>)"

record RefreshResponse =
  rs_status :: u8
  rs_tokens :: "SessionRefreshToken list"

definition RefreshResponse_empty :: "u8 \<Rightarrow> RefreshResponse" where
  "RefreshResponse_empty st = \<lparr>rs_status = st, rs_tokens = []\<rparr>"

definition RefreshResponse_encode :: "RefreshResponse \<Rightarrow> bytes" where
  "RefreshResponse_encode r =
     (let n = min (length (rs_tokens r)) 255
      in [REFRESH_VERSION, rs_status r, word_of_nat n] @ concat (map as_wire_bytes (take n (rs_tokens r))))"

text \<open>The loop that decodes \<open>n\<close> tokens from index \<open>i\<close> on.\<close>

fun decode_tokens :: "bytes \<Rightarrow> nat \<Rightarrow> nat \<Rightarrow> SessionRefreshToken list \<Rightarrow> DiscoveryError + SessionRefreshToken list" where
  "decode_tokens buf 0 i tokens = Ok tokens"
| "decode_tokens buf (Suc n) i tokens =
     (case SessionRefreshToken_decode (take TOKEN_LEN (drop i buf)) of
        Inl e \<Rightarrow> Err e
      | Inr t \<Rightarrow> decode_tokens buf n (i + TOKEN_LEN) (tokens @ [t]))"

definition RefreshResponse_decode :: "bytes \<Rightarrow> DiscoveryError + RefreshResponse" where
  "RefreshResponse_decode buf =
     (if length buf < 3 then Err (Wire ''refresh: response header too short'')
      else if buf ! 0 \<noteq> REFRESH_VERSION then Err (Wire ''refresh: unsupported version'')
      else
        let count = unat (buf ! 2) in
        if unat REFRESH_MAX_PER_REQUEST < count then Err (Wire ''refresh: count over cap'')
        else if length buf \<noteq> 3 + count * TOKEN_LEN then Err (Wire ''refresh: response body length'')
        else case decode_tokens buf count 3 [] of
               Inl e \<Rightarrow> Err e
             | Inr tokens \<Rightarrow> Ok \<lparr>rs_status = buf ! 1, rs_tokens = tokens\<rparr>)"

section \<open>Round trips\<close>

definition token_wf :: "CapabilityToken \<Rightarrow> bool" where
  "token_wf t \<longleftrightarrow> length (token_id t) = 32 \<and> length (bridge_ed25519_pk t) = 32 \<and> length (signature t) = 64"

definition fs_token_wf :: "FsCapabilityToken \<Rightarrow> bool" where
  "fs_token_wf t \<longleftrightarrow> length (fs_token_id t) = 32 \<and> length (fs_bridge_pk t) = 32 \<and> length (token_sig t) = 64 \<and>
     length (subkey_pk (cert t)) = 32 \<and> length (root_sig (cert t)) = 64"

lemmas token_lens = TOKEN_LEN_def FS_TOKEN_LEN_def FS_CERT_LEN_def ED25519_PK_LEN_def SIG_LEN_def

lemma length_token_encode: "token_wf t \<Longrightarrow> length (CapabilityToken_encode t) = TOKEN_LEN"
  by (simp add: token_wf_def CapabilityToken_encode_def token_lens)

lemma token_decode_encode: "token_wf t \<Longrightarrow> CapabilityToken_decode (CapabilityToken_encode t) = Ok t"
  by (simp add: token_wf_def CapabilityToken_encode_def CapabilityToken_decode_def token_lens)

lemma fs_decode_encode: "fs_token_wf t \<Longrightarrow> FsCapabilityToken_decode (FsCapabilityToken_encode t) = Ok t"
  by (simp add: fs_token_wf_def FsCapabilityToken_encode_def FsCapabilityToken_decode_def cert_encode_def cert_decode_def
      token_lens)

lemma length_fs_encode: "fs_token_wf t \<Longrightarrow> length (FsCapabilityToken_encode t) = FS_TOKEN_LEN"
  by (simp add: fs_token_wf_def FsCapabilityToken_encode_def cert_encode_def token_lens)

lemma length_wire_tokens:
  "list_all (\<lambda>t. token_wf (inner t)) ts \<Longrightarrow> length (concat (map as_wire_bytes ts)) = length ts * TOKEN_LEN"
  by (induction ts) (simp_all add: as_wire_bytes_def length_token_encode)

lemma decode_tokens_concat:
  "list_all (\<lambda>t. token_wf (inner t)) ts \<Longrightarrow> length pre = i \<Longrightarrow>
     decode_tokens (pre @ concat (map as_wire_bytes ts)) (length ts) i acc = Ok (acc @ ts)"
proof (induction ts arbitrary: pre i acc)
  case (Cons t ts)
  have "token_wf (inner t)" using Cons.prems by simp
  then have d: "length (as_wire_bytes t) = TOKEN_LEN" "SessionRefreshToken_decode (as_wire_bytes t) = Ok t"
    by (simp_all add: as_wire_bytes_def SessionRefreshToken_decode_def length_token_encode token_decode_encode)
  have "decode_tokens ((pre @ as_wire_bytes t) @ concat (map as_wire_bytes ts)) (length ts) (i + TOKEN_LEN) (acc @ [t]) =
      Ok ((acc @ [t]) @ ts)"
    by (rule Cons.IH) (use Cons.prems d in simp_all)
  then show ?case using Cons.prems d by simp
qed simp

lemma refresh_response_round_trip:
  assumes "list_all (\<lambda>t. token_wf (inner t)) (rs_tokens r)" "length (rs_tokens r) \<le> 4"
  shows "RefreshResponse_decode (RefreshResponse_encode r) = Ok r"
proof -
  let ?ts = "rs_tokens r" let ?n = "length ?ts"
  let ?body = "concat (map as_wire_bytes ?ts)"
  have enc: "RefreshResponse_encode r = [REFRESH_VERSION, rs_status r, word_of_nat ?n] @ ?body"
    using assms(2) by (simp add: RefreshResponse_encode_def min_def)
  have len: "length ?body = ?n * TOKEN_LEN" using assms(1) by (rule length_wire_tokens)
  have n: "unat (word_of_nat ?n :: u8) = ?n" using assms(2) by (simp add: unat_of_nat)
  show ?thesis
    using decode_tokens_concat [OF assms(1), of "[REFRESH_VERSION, rs_status r, word_of_nat ?n]" 3 "[]"] assms(2)
    by (simp add: enc RefreshResponse_decode_def n len Let_def refresh_consts)
qed

lemma refresh_request_round_trip:
  "RefreshRequest_issue n = Ok r \<Longrightarrow> RefreshRequest_decode (RefreshRequest_encode r) = Ok r"
  by (auto simp: RefreshRequest_issue_def RefreshRequest_encode_def RefreshRequest_decode_def refresh_consts split: if_splits)

section \<open>Issued credentials verify\<close>

lemma signed_verifies:
  "ed25519_laws ed \<Longrightarrow> is_ok (verify_signature ed (sign_token ed tid bpk exp sk) (ed_pk ed sk))"
  by (simp add: ed25519_laws_def verify_signature_def sign_token_def encode_signed_prefix_def)

lemma refresh_signed_verifies:
  "ed25519_laws ed \<Longrightarrow> is_ok (refresh_verify_signature ed (sign_refresh_token ed tid sk exp) (ed_pk ed sk))"
  by (simp add: ed25519_laws_def refresh_verify_signature_def sign_refresh_token_def encode_signed_prefix_def)

lemma refresh_token_wf: "ed25519_laws ed \<Longrightarrow> length tid = 32 \<Longrightarrow> token_wf (inner (sign_refresh_token ed tid sk exp))"
  by (simp add: ed25519_laws_def token_wf_def sign_refresh_token_def)

lemma generated_chain:
  assumes "ed25519_laws ed" "EpochSigner_generate ed rnd root_sk e valid_until = Ok sg"
    and "now \<le> saturating_add valid_until grace"
  shows "verify_chain ed (EpochSigner_sign_token ed sg tid bpk exp) (ed_pk ed root_sk) now grace = Ok ()"
    and "length tid = 32 \<Longrightarrow> length bpk = 32 \<Longrightarrow> fs_token_wf (EpochSigner_sign_token ed sg tid bpk exp)"
  using assms
  by (auto simp: ed25519_laws_def EpochSigner_generate_def generate_epoch_subkey_def EpochSigner_new_def cert_mint_def
      EpochSigner_sign_token_def verify_chain_def verify_root_sig_def is_retired_def cert_signed_prefix_def
      fs_signed_prefix_def fs_token_wf_def split: option.splits if_splits)

lemma mint_loop_tokens:
  assumes "mint_loop ed root_sk bpk e valid_until exp js ds out = Ok ts" "t \<in> set ts" "t \<notin> set out"
  obtains d sg tid where "d \<in> set ds" "EpochSigner_generate ed (draw_seed d) root_sk e valid_until = Ok sg"
    "draw_tid d = Some tid"
    "t = EpochSigner_sign_token ed sg tid bpk (saturating_add exp (expiry_jitter (draw_jitter d) js))"
  using assms
proof (induction ds arbitrary: out thesis)
  case (Cons d ds)
  from Cons.prems(2) obtain sg tid where s: "EpochSigner_generate ed (draw_seed d) root_sk e valid_until = Ok sg"
    "draw_tid d = Some tid"
    by (auto split: sum.splits option.splits)
  let ?t = "EpochSigner_sign_token ed sg tid bpk (saturating_add exp (expiry_jitter (draw_jitter d) js))"
  show ?case
  proof (cases "t = ?t")
    case True
    show ?thesis by (rule Cons.prems(1) [OF _ s True]) simp
  next
    case False
    show ?thesis
    proof (rule Cons.IH [of thesis "out @ [?t]"])
      fix d' sg' tid'
      assume "d' \<in> set ds" "EpochSigner_generate ed (draw_seed d') root_sk e valid_until = Ok sg'" "draw_tid d' = Some tid'"
        "t = EpochSigner_sign_token ed sg' tid' bpk (saturating_add exp (expiry_jitter (draw_jitter d') js))"
      then show thesis by (intro Cons.prems(1) [of d' sg' tid']) simp_all
    qed (use Cons.prems(2-4) s False in simp_all)
  qed
qed simp

end
