(* ===== verification/Session_Handshake.thy ===== *)
theory Session_Handshake
  imports Session_Wire Capability_Token Replay_Set
begin

text \<open>
  The session handshake of \<open>crates/session/src/handshake.rs\<close>: the initiator and responder state
  machines over Noise XX with an ML-KEM exchange in the payloads, and the verification of the
  capability token a client presents in message 3.  The Noise state (\<open>snow\<close>), ML-KEM and BLAKE3 are
  parameters; the laws the theorems rely on are \<open>noise_xx\<close> and \<open>kem_laws\<close>.
\<close>

section \<open>Parameters\<close>

text \<open>
  The operations of a Noise handshake state: reading and writing a message with a payload, the transcript
  hash, the peer's static key and the switch to transport mode.
\<close>

record ('n, 't) snow =
  n_write :: "'n \<Rightarrow> bytes \<Rightarrow> (bytes \<times> 'n) option"
  n_read :: "'n \<Rightarrow> bytes \<Rightarrow> (bytes \<times> 'n) option"
  n_hash :: "'n \<Rightarrow> bytes"
  n_remote_static :: "'n \<Rightarrow> bytes option"
  n_transport :: "'n \<Rightarrow> 't option"

text \<open>ML-KEM: the encapsulation key of a decapsulation key, its validity check, encapsulation with given
  randomness and decapsulation.\<close>

record kem =
  kem_ek :: "bytes \<Rightarrow> bytes"
  kem_ek_valid :: "bytes \<Rightarrow> bool"
  kem_encapsulate :: "bytes \<Rightarrow> bytes \<Rightarrow> bytes \<times> bytes"
  kem_decapsulate :: "bytes \<Rightarrow> bytes \<Rightarrow> bytes"

record ('n, 't) crypto =
  noise_ops :: "('n, 't) snow"
  kem_ops :: kem
  ed_ops :: ed25519
  blake3 :: "bytes \<Rightarrow> bytes"

definition WIRE_VERSION :: u16 where "WIRE_VERSION = 1"
definition TOKEN_GRACE_SECONDS :: u64 where "TOKEN_GRACE_SECONDS = 60"

record 't SessionKeys =
  session_binding :: bytes
  transport :: 't
  keys_mlkem_ss :: bytes

definition derive_session_binding :: "(bytes \<Rightarrow> bytes) \<Rightarrow> u16 \<Rightarrow> bytes \<Rightarrow> bytes \<Rightarrow> bytes \<Rightarrow> bytes \<Rightarrow> bytes" where
  "derive_session_binding b3 version noise_h ek ct ss =
     b3 (ascii ''mirage-session-binding-v1'' @ to_be version @ noise_h @ ek @ ct @ ss)"

definition noise_h_32 :: "('n, 't) snow \<Rightarrow> 'n \<Rightarrow> SessionError + bytes" where
  "noise_h_32 sn n =
     (if length (n_hash sn n) \<noteq> 32 then Err (SessionWire ''noise transcript hash unexpected length'') else Ok (n_hash sn n))"

section \<open>The initiator\<close>

datatype InitiatorState = IFresh | AwaitMessage2 | IComplete

record 'n HandshakeInitiator =
  i_noise :: 'n
  mlkem_dk :: bytes
  mlkem_ek_bytes :: bytes
  i_mlkem_ct :: "bytes option"
  i_mlkem_ss :: "bytes option"
  i_wire_version :: u16
  i_state :: InitiatorState
  expected_remote_static :: bytes
  token_bytes :: "bytes option"

text \<open>The Noise state built from the keys and the drawn decapsulation key are arguments.\<close>

definition Initiator_new_common :: "('n, 't) crypto \<Rightarrow> 'n \<Rightarrow> bytes \<Rightarrow> bytes \<Rightarrow> 'n HandshakeInitiator" where
  "Initiator_new_common cr n dk remote_static_pk =
     \<lparr>i_noise = n, mlkem_dk = dk, mlkem_ek_bytes = kem_ek (kem_ops cr) dk, i_mlkem_ct = None, i_mlkem_ss = None,
      i_wire_version = WIRE_VERSION, i_state = IFresh, expected_remote_static = remote_static_pk, token_bytes = None\<rparr>"

definition Initiator_new :: "('n, 't) crypto \<Rightarrow> 'n \<Rightarrow> bytes \<Rightarrow> bytes \<Rightarrow> CapabilityToken \<Rightarrow> 'n HandshakeInitiator" where
  "Initiator_new cr n dk remote_static_pk t =
     (Initiator_new_common cr n dk remote_static_pk)\<lparr>token_bytes := Some (CapabilityToken_encode t)\<rparr>"

definition Initiator_new_fs :: "('n, 't) crypto \<Rightarrow> 'n \<Rightarrow> bytes \<Rightarrow> bytes \<Rightarrow> FsCapabilityToken \<Rightarrow> 'n HandshakeInitiator" where
  "Initiator_new_fs cr n dk remote_static_pk t =
     (Initiator_new_common cr n dk remote_static_pk)\<lparr>token_bytes := Some (FsCapabilityToken_encode t)\<rparr>"

definition write_message_1 :: "('n, 't) crypto \<Rightarrow> 'n HandshakeInitiator \<Rightarrow> (SessionError + bytes) \<times> 'n HandshakeInitiator" where
  "write_message_1 cr i =
     (if i_state i \<noteq> IFresh then (Err (State ''write_message_1: wrong state''), i)
      else case n_write (noise_ops cr) (i_noise i) (mlkem_ek_bytes i) of
             None \<Rightarrow> (Err (Noise ''write''), i)
           | Some (m, n) \<Rightarrow>
               if length m \<noteq> NOISE_MSG_1_LEN then (Err (State ''noise msg 1: unexpected length''), i\<lparr>i_noise := n\<rparr>)
               else (Ok (Message1_encode \<lparr>m1_wire_version = i_wire_version i, noise_msg_1 = m\<rparr>),
                     i\<lparr>i_noise := n, i_state := AwaitMessage2\<rparr>))"

definition read_message_2 :: "('n, 't) crypto \<Rightarrow> bytes \<Rightarrow> 'n HandshakeInitiator \<Rightarrow> (SessionError + unit) \<times> 'n HandshakeInitiator" where
  "read_message_2 cr wire i =
     (if i_state i \<noteq> AwaitMessage2 then (Err (State ''read_message_2: wrong state''), i)
      else case Message2_decode wire of
        Inl e \<Rightarrow> (Err e, i)
      | Inr msg \<Rightarrow>
          if m2_wire_version msg \<noteq> i_wire_version i
          then (Err (VersionMismatch (m2_wire_version msg) WIRE_VERSION WIRE_VERSION), i)
          else case n_read (noise_ops cr) (i_noise i) (noise_msg_2 msg) of
            None \<Rightarrow> (Err (Noise ''read''), i)
          | Some (ct, n) \<Rightarrow>
              let i1 = i\<lparr>i_noise := n\<rparr> in
              if length ct \<noteq> MLKEM_CT_LEN then (Err (SessionWire ''message 2: unexpected mlkem_ct length''), i1)
              else case n_remote_static (noise_ops cr) n of
                None \<Rightarrow> (Err (State ''no remote static after msg 2''), i1)
              | Some rs \<Rightarrow>
                  if rs \<noteq> expected_remote_static i then (Err (Noise ''decrypt''), i1)
                  else (Ok (), i1\<lparr>i_mlkem_ct := Some ct, i_mlkem_ss := Some (kem_decapsulate (kem_ops cr) (mlkem_dk i) ct)\<rparr>))"

definition circuit_hop_binding :: "('n, 't) crypto \<Rightarrow> 'n HandshakeInitiator \<Rightarrow> SessionError + (bytes \<times> bytes)" where
  "circuit_hop_binding cr i =
     (case i_mlkem_ss i of
        None \<Rightarrow> Err (State ''circuit_hop_binding: call after read_message_2'')
      | Some ss \<Rightarrow>
        (case i_mlkem_ct i of
           None \<Rightarrow> Err (State ''circuit_hop_binding: mlkem_ct missing (call after read_message_2)'')
         | Some ct \<Rightarrow>
           (case noise_h_32 (noise_ops cr) (i_noise i) of
              Inl e \<Rightarrow> Err e
            | Inr h \<Rightarrow> Ok (ss, derive_session_binding (blake3 cr) (i_wire_version i) h (mlkem_ek_bytes i) ct ss))))"

definition write_message_3 :: "('n, 't) crypto \<Rightarrow> 'n HandshakeInitiator \<Rightarrow> SessionError + (bytes \<times> 't SessionKeys)" where
  "write_message_3 cr i =
     (if i_state i \<noteq> AwaitMessage2 then Err (State ''write_message_3: wrong state'')
      else
        let (payload, expected) =
              (case token_bytes i of
                 Some bs \<Rightarrow> (bs, if length bs = FS_TOKEN_PAYLOAD_LEN then NOISE_MSG_3_LEN_WITH_FS_TOKEN else NOISE_MSG_3_LEN_WITH_TOKEN)
               | None \<Rightarrow> ([], NOISE_MSG_3_LEN_NO_TOKEN))
        in case n_write (noise_ops cr) (i_noise i) payload of
             None \<Rightarrow> Err (Noise ''write'')
           | Some (m, n) \<Rightarrow>
               if length m \<noteq> expected then Err (State ''noise msg 3: unexpected length'')
               else case noise_h_32 (noise_ops cr) n of
                 Inl e \<Rightarrow> Err e
               | Inr h \<Rightarrow>
                 (case i_mlkem_ss i of
                    None \<Rightarrow> Err (State ''mlkem_ss missing at msg 3'')
                  | Some ss \<Rightarrow>
                    (case i_mlkem_ct i of
                       None \<Rightarrow> Err (State ''mlkem_ct missing at msg 3'')
                     | Some ct \<Rightarrow>
                       (case n_transport (noise_ops cr) n of
                          None \<Rightarrow> Err (Noise ''transport'')
                        | Some tr \<Rightarrow>
                            Ok (Message3_encode \<lparr>noise_msg_3 = m\<rparr>,
                                \<lparr>session_binding = derive_session_binding (blake3 cr) (i_wire_version i) h (mlkem_ek_bytes i) ct ss,
                                 transport = tr, keys_mlkem_ss = ss\<rparr>)))))"

section \<open>Token verification\<close>

datatype AcceptedTokenKind = Bootstrap | Refresh

datatype ReplayBackend = Owned ReplaySet | Shared SyncReplaySet

definition Backend_check_and_insert :: "append_io \<Rightarrow> ReplayBackend \<Rightarrow> bytes \<Rightarrow> u64 \<Rightarrow> u64 \<Rightarrow> bool \<times> ReplayBackend" where
  "Backend_check_and_insert io b tid exp now =
     (case b of
        Owned rs \<Rightarrow> map_prod id Owned (ReplaySet_check_and_insert io rs tid exp now)
      | Shared rs \<Rightarrow> map_prod id Shared (Sync_check_and_insert io rs tid exp now))"

record TokenVerifier =
  replay_set :: ReplayBackend
  v_now_unix :: u64
  grace_seconds :: u64
  last_accepted_token_id :: "bytes option"
  last_accepted_kind :: "AcceptedTokenKind option"
  accept_refresh_signed_by :: "bytes option"
  accept_prev_operator_pk :: "bytes option"

definition TokenVerifier_new :: "ReplayBackend \<Rightarrow> u64 \<Rightarrow> TokenVerifier" where
  "TokenVerifier_new b now =
     \<lparr>replay_set = b, v_now_unix = now, grace_seconds = TOKEN_GRACE_SECONDS, last_accepted_token_id = None,
      last_accepted_kind = None, accept_refresh_signed_by = None, accept_prev_operator_pk = None\<rparr>"

definition with_refresh_issuer :: "bytes \<Rightarrow> TokenVerifier \<Rightarrow> TokenVerifier" where
  "with_refresh_issuer bridge_pk v = v\<lparr>accept_refresh_signed_by := Some bridge_pk\<rparr>"

definition with_prev_operator :: "bytes \<Rightarrow> TokenVerifier \<Rightarrow> TokenVerifier" where
  "with_prev_operator prev_pk v = v\<lparr>accept_prev_operator_pk := Some prev_pk\<rparr>"

definition verify_refresh_path :: "ed25519 \<Rightarrow> CapabilityToken \<Rightarrow> bytes \<Rightarrow> SessionError + AcceptedTokenKind" where
  "verify_refresh_path ed t refresh_pk =
     (if \<not> ed_vk_valid ed refresh_pk then Err (TokenVerification ''refresh issuer pk invalid'')
      else if ed_verify ed refresh_pk (REFRESH_SIGN_DOMAIN @ encode_signed_prefix t) (signature t) then Ok Refresh
      else Err (TokenVerification ''signature verification failed''))"

text \<open>The kind under which the configured keys accept a token, if any.\<close>

definition token_kind :: "ed25519 \<Rightarrow> bytes \<Rightarrow> TokenVerifier \<Rightarrow> CapabilityToken \<Rightarrow> AcceptedTokenKind option" where
  "token_kind ed operator_pk v t =
     (let ok_operator = is_ok (verify_signature ed t operator_pk);
          ok_prev = (case accept_prev_operator_pk v of None \<Rightarrow> False | Some pk \<Rightarrow> is_ok (verify_signature ed t pk));
          refresh_kind = (case accept_refresh_signed_by v of
                            None \<Rightarrow> None
                          | Some pk \<Rightarrow> (case verify_refresh_path ed t pk of Inl _ \<Rightarrow> None | Inr k \<Rightarrow> Some k))
      in if ok_operator \<or> ok_prev then Some Bootstrap else refresh_kind)"

text \<open>The last steps, the same for both kinds of token: pin, expiry, replay set.\<close>

definition burn_token ::
  "append_io \<Rightarrow> bool \<Rightarrow> bool \<Rightarrow> bytes \<Rightarrow> u64 \<Rightarrow> AcceptedTokenKind \<Rightarrow> TokenVerifier \<Rightarrow> (SessionError + unit) \<times> TokenVerifier" where
  "burn_token io for_bridge expired tid exp kind v =
     (if \<not> for_bridge then (Err (TokenVerification ''token not for this bridge''), v)
      else if expired then (Err (TokenVerification ''token expired''), v)
      else
        let (fresh, b) = Backend_check_and_insert io (replay_set v) tid (saturating_add exp (grace_seconds v)) (v_now_unix v)
        in if \<not> fresh then (Err (TokenVerification ''token replayed or capacity''), v\<lparr>replay_set := b\<rparr>)
           else (Ok (), v\<lparr>replay_set := b, last_accepted_token_id := Some tid, last_accepted_kind := Some kind\<rparr>))"

definition verify_legacy_token ::
  "ed25519 \<Rightarrow> append_io \<Rightarrow> bytes \<Rightarrow> bytes \<Rightarrow> bytes \<Rightarrow> TokenVerifier \<Rightarrow> (SessionError + unit) \<times> TokenVerifier" where
  "verify_legacy_token ed io operator_pk local_pk payload v =
     (if length payload \<noteq> TOKEN_PAYLOAD_LEN then (Err (TokenVerification ''payload length mismatch''), v)
      else case CapabilityToken_decode payload of
        Inl _ \<Rightarrow> (Err (TokenVerification ''token decode failed''), v)
      | Inr t \<Rightarrow>
          (case token_kind ed operator_pk v t of
             None \<Rightarrow> (Err (TokenVerification ''signature verification failed''), v)
           | Some kind \<Rightarrow> burn_token io (is_for_bridge t local_pk) (is_expired t (v_now_unix v) (grace_seconds v))
                 (token_id t) (expires_at t) kind v))"

definition verify_fs_token ::
  "ed25519 \<Rightarrow> append_io \<Rightarrow> bytes \<Rightarrow> bytes \<Rightarrow> bytes \<Rightarrow> TokenVerifier \<Rightarrow> (SessionError + unit) \<times> TokenVerifier" where
  "verify_fs_token ed io operator_pk local_pk payload v =
     (if length payload \<noteq> FS_TOKEN_PAYLOAD_LEN then (Err (TokenVerification ''fs payload length mismatch''), v)
      else case FsCapabilityToken_decode payload of
        Inl _ \<Rightarrow> (Err (TokenVerification ''fs token decode failed''), v)
      | Inr t \<Rightarrow>
          let ok_root = is_ok (verify_chain ed t operator_pk (v_now_unix v) (grace_seconds v));
              ok_prev = (case accept_prev_operator_pk v of
                           None \<Rightarrow> False
                         | Some pk \<Rightarrow> is_ok (verify_chain ed t pk (v_now_unix v) (grace_seconds v)))
          in if \<not> (ok_root \<or> ok_prev) then (Err (TokenVerification ''fs chain verification failed''), v)
             else burn_token io (fs_is_for_bridge t local_pk) (fs_is_expired t (v_now_unix v) (grace_seconds v))
                    (fs_token_id t) (fs_expires_at t) Bootstrap v)"

section \<open>The responder\<close>

datatype ResponderState = AwaitMessage1 | AwaitMessage3 | RComplete

record 'n HandshakeResponder =
  r_noise :: 'n
  peer_mlkem_ek :: "bytes option"
  r_mlkem_ct :: "bytes option"
  r_mlkem_ss :: "bytes option"
  r_wire_version :: u16
  r_state :: ResponderState
  local_ed25519_pk :: bytes
  operator_pk :: bytes
  require_token :: bool

definition Responder_new :: "'n \<Rightarrow> bytes \<Rightarrow> bytes \<Rightarrow> 'n HandshakeResponder" where
  "Responder_new n local_pk op_pk =
     \<lparr>r_noise = n, peer_mlkem_ek = None, r_mlkem_ct = None, r_mlkem_ss = None, r_wire_version = WIRE_VERSION,
      r_state = AwaitMessage1, local_ed25519_pk = local_pk, operator_pk = op_pk, require_token = True\<rparr>"

definition read_message_1 :: "('n, 't) crypto \<Rightarrow> bytes \<Rightarrow> 'n HandshakeResponder \<Rightarrow> (SessionError + unit) \<times> 'n HandshakeResponder" where
  "read_message_1 cr wire r =
     (if r_state r \<noteq> AwaitMessage1 then (Err (State ''read_message_1: wrong state''), r)
      else case Message1_decode wire of
        Inl e \<Rightarrow> (Err e, r)
      | Inr msg \<Rightarrow>
          if m1_wire_version msg \<noteq> r_wire_version r
          then (Err (VersionMismatch (m1_wire_version msg) WIRE_VERSION WIRE_VERSION), r)
          else case n_read (noise_ops cr) (r_noise r) (noise_msg_1 msg) of
            None \<Rightarrow> (Err (Noise ''read''), r)
          | Some (ek, n) \<Rightarrow>
              if length ek \<noteq> MLKEM_EK_LEN then (Err (SessionWire ''message 1: unexpected mlkem_ek length''), r\<lparr>r_noise := n\<rparr>)
              else (Ok (), r\<lparr>r_noise := n, peer_mlkem_ek := Some ek, r_state := AwaitMessage3\<rparr>))"

text \<open>\<open>rnd\<close> is the randomness of the encapsulation.\<close>

definition write_message_2 :: "('n, 't) crypto \<Rightarrow> bytes \<Rightarrow> 'n HandshakeResponder \<Rightarrow> (SessionError + bytes) \<times> 'n HandshakeResponder" where
  "write_message_2 cr rnd r =
     (if r_state r \<noteq> AwaitMessage3 then (Err (State ''write_message_2: wrong state''), r)
      else case peer_mlkem_ek r of
        None \<Rightarrow> (Err (State ''peer mlkem_ek missing at msg 2''), r)
      | Some ek \<Rightarrow>
          if \<not> kem_ek_valid (kem_ops cr) ek then (Err (MlKem ''invalid''), r)
          else
            let (ct, ss) = kem_encapsulate (kem_ops cr) ek rnd;
                r1 = r\<lparr>r_mlkem_ct := Some ct, r_mlkem_ss := Some ss\<rparr>
            in case n_write (noise_ops cr) (r_noise r) ct of
                 None \<Rightarrow> (Err (Noise ''write''), r1)
               | Some (m, n) \<Rightarrow>
                   if length m \<noteq> NOISE_MSG_2_LEN then (Err (State ''noise msg 2: unexpected length''), r1\<lparr>r_noise := n\<rparr>)
                   else (Ok (Message2_encode \<lparr>m2_wire_version = r_wire_version r, noise_msg_2 = m\<rparr>), r1\<lparr>r_noise := n\<rparr>))"

definition write_message_2_for_circuit_hop ::
  "('n, 't) crypto \<Rightarrow> bytes \<Rightarrow> 'n HandshakeResponder \<Rightarrow> (SessionError + (bytes \<times> bytes \<times> bytes)) \<times> 'n HandshakeResponder" where
  "write_message_2_for_circuit_hop cr rnd r =
     (case write_message_2 cr rnd r of
        (Inl e, r1) \<Rightarrow> (Err e, r1)
      | (Inr msg2, r1) \<Rightarrow>
          (case noise_h_32 (noise_ops cr) (r_noise r1) of
             Inl e \<Rightarrow> (Err e, r1)
           | Inr h \<Rightarrow>
             (case r_mlkem_ss r1 of
                None \<Rightarrow> (Err (State ''mlkem_ss missing after msg2 circuit path''), r1)
              | Some ss \<Rightarrow>
                (case peer_mlkem_ek r1 of
                   None \<Rightarrow> (Err (State ''mlkem_ek missing after msg2 circuit path''), r1)
                 | Some ek \<Rightarrow>
                   (case r_mlkem_ct r1 of
                      None \<Rightarrow> (Err (State ''mlkem_ct missing after msg2 circuit path''), r1)
                    | Some ct \<Rightarrow>
                        (Ok (msg2, ss, derive_session_binding (blake3 cr) (r_wire_version r1) h ek ct ss), r1))))))"

text \<open>The part of \<open>read_message_3\<close> after the token has been verified.\<close>

definition finish_responder :: "('n, 't) crypto \<Rightarrow> 'n \<Rightarrow> 'n HandshakeResponder \<Rightarrow> SessionError + 't SessionKeys" where
  "finish_responder cr n r =
     (case noise_h_32 (noise_ops cr) n of
        Inl e \<Rightarrow> Err e
      | Inr h \<Rightarrow>
        (case peer_mlkem_ek r of
           None \<Rightarrow> Err (State ''peer_mlkem_ek missing at msg 3'')
         | Some ek \<Rightarrow>
           (case r_mlkem_ct r of
              None \<Rightarrow> Err (State ''mlkem_ct missing at msg 3'')
            | Some ct \<Rightarrow>
              (case r_mlkem_ss r of
                 None \<Rightarrow> Err (State ''mlkem_ss missing at msg 3'')
               | Some ss \<Rightarrow>
                 (case n_transport (noise_ops cr) n of
                    None \<Rightarrow> Err (Noise ''transport'')
                  | Some tr \<Rightarrow>
                      Ok \<lparr>session_binding = derive_session_binding (blake3 cr) (r_wire_version r) h ek ct ss,
                          transport = tr, keys_mlkem_ss = ss\<rparr>)))))"

definition read_message_3 ::
  "('n, 't) crypto \<Rightarrow> append_io \<Rightarrow> bytes \<Rightarrow> 'n HandshakeResponder \<Rightarrow> TokenVerifier \<Rightarrow>
     (SessionError + 't SessionKeys) \<times> TokenVerifier" where
  "read_message_3 cr io wire r v =
     (if r_state r \<noteq> AwaitMessage3 then (Err (State ''read_message_3: wrong state''), v)
      else case Message3_decode wire of
        Inl e \<Rightarrow> (Err e, v)
      | Inr msg \<Rightarrow>
          let noise_len = length (noise_msg_3 msg);
              is_legacy = (noise_len = NOISE_MSG_3_LEN_WITH_TOKEN);
              is_fs = (noise_len = NOISE_MSG_3_LEN_WITH_FS_TOKEN);
              is_conformant = (is_legacy \<or> is_fs)
          in if require_token r \<and> \<not> is_conformant then (Err (TokenVerification ''token required but not presented''), v)
             else if \<not> require_token r \<and> is_conformant
             then (Err (SessionWire ''test-only responder received token-bearing msg 3''), v)
             else case n_read (noise_ops cr) (r_noise r) (noise_msg_3 msg) of
               None \<Rightarrow> (Err (Noise ''read''), v)
             | Some (payload, n) \<Rightarrow>
                 let (res, v') =
                       (if is_legacy then verify_legacy_token (ed_ops cr) io (operator_pk r) (local_ed25519_pk r) payload v
                        else if is_fs then verify_fs_token (ed_ops cr) io (operator_pk r) (local_ed25519_pk r) payload v
                        else (Ok (), v))
                 in (case res of Inl e \<Rightarrow> (Err e, v') | Inr _ \<Rightarrow> (finish_responder cr n r, v')))"

section \<open>Single use\<close>

definition Backend_evict_expired :: "ReplayBackend \<Rightarrow> u64 \<Rightarrow> ReplayBackend" where
  "Backend_evict_expired b now =
     (case b of Owned rs \<Rightarrow> Owned (ReplaySet_evict_expired rs now) | Shared rs \<Rightarrow> Shared (Sync_evict_expired rs now))"

definition backend_set :: "ReplayBackend \<Rightarrow> ReplaySet" where
  "backend_set b = (case b of Owned rs \<Rightarrow> rs | Shared rs \<Rightarrow> sync_inner rs)"

text \<open>Both backends keep the contract of a replay guard.\<close>

interpretation backend: replay_guard Backend_check_and_insert Backend_evict_expired
  "\<lambda>b. rs_held (backend_set b)" "\<lambda>b. rs_ok (backend_set b)"
proof (unfold_locales, goal_cases)
  case (1 b e k d now)
  then show ?case using rs_check_ok shared.check_ok
    by (cases b) (simp_all add: Backend_check_and_insert_def backend_set_def)
next
  case (2 b now)
  then show ?case using rs_evict_ok shared.evict_ok
    by (cases b) (simp_all add: Backend_evict_expired_def backend_set_def)
next
  case (3 b k d' e d now)
  then show ?case using tokens.refuse_held shared.refuse_held
    by (cases b) (simp_all add: Backend_check_and_insert_def backend_set_def)
next
  case (4 b e k d now)
  then show ?case using tokens.accept_holds shared.accept_holds
    by (cases b) (simp_all add: Backend_check_and_insert_def backend_set_def)
next
  case (5 b k' d' now e k d)
  then show ?case using tokens.check_keeps shared.check_keeps
    by (cases b) (simp_all add: Backend_check_and_insert_def backend_set_def)
next
  case (6 b k' d' now)
  then show ?case using rs_evict_keeps shared.evict_keeps
    by (cases b) (simp_all add: Backend_evict_expired_def backend_set_def)
qed

text \<open>The payload a responder decrypts from message 3, and the token id and expiry it names.\<close>

definition presented :: "('n, 't) crypto \<Rightarrow> bytes \<Rightarrow> 'n HandshakeResponder \<Rightarrow> bytes option" where
  "presented cr wire r =
     (case Message3_decode wire of
        Inl _ \<Rightarrow> None
      | Inr msg \<Rightarrow> map_option fst (n_read (noise_ops cr) (r_noise r) (noise_msg_3 msg)))"

definition payload_token :: "bytes \<Rightarrow> (bytes \<times> u64) option" where
  "payload_token p =
     (if length p = TOKEN_PAYLOAD_LEN
      then (case CapabilityToken_decode p of Inl _ \<Rightarrow> None | Inr t \<Rightarrow> Some (token_id t, expires_at t))
      else (case FsCapabilityToken_decode p of Inl _ \<Rightarrow> None | Inr t \<Rightarrow> Some (fs_token_id t, fs_expires_at t)))"

lemma burn_cases:
  assumes "burn_token io for_bridge expired tid exp kind v = (res, v')"
  obtains (refused) "\<not> is_ok res" "v' = v"
  | (checked) acc b where "\<not> expired" "for_bridge"
      "Backend_check_and_insert io (replay_set v) tid (saturating_add exp (grace_seconds v)) (v_now_unix v) = (acc, b)"
      "replay_set v' = b" "is_ok res = acc"
  using assms by (auto simp: burn_token_def Let_def split: if_splits prod.splits)

lemma verify_token_cases:
  assumes "verify_legacy_token ed io opk lpk payload v = (res, v') \<or> verify_fs_token ed io opk lpk payload v = (res, v')"
  obtains (refused) "\<not> is_ok res" "v' = v"
  | (checked) tid exp acc b where "payload_token payload = Some (tid, exp)"
      "v_now_unix v \<le> saturating_add exp (grace_seconds v)"
      "Backend_check_and_insert io (replay_set v) tid (saturating_add exp (grace_seconds v)) (v_now_unix v) = (acc, b)"
      "replay_set v' = b" "is_ok res = acc"
  using assms
proof (elim disjE)
  assume a: "verify_legacy_token ed io opk lpk payload v = (res, v')"
  show thesis
  proof (cases "is_ok res \<or> v' \<noteq> v")
    case True
    with a obtain t kind where t: "length payload = TOKEN_PAYLOAD_LEN" "CapabilityToken_decode payload = Ok t"
      "burn_token io (is_for_bridge t lpk) (is_expired t (v_now_unix v) (grace_seconds v)) (token_id t) (expires_at t) kind v = (res, v')"
      by (auto simp: verify_legacy_token_def split: if_splits sum.splits option.splits)
    from t(3) show thesis
      by (cases rule: burn_cases) (use t(1,2) that True in \<open>auto simp: payload_token_def is_expired_def\<close>)
  qed (use that in blast)
next
  assume a: "verify_fs_token ed io opk lpk payload v = (res, v')"
  show thesis
  proof (cases "is_ok res \<or> v' \<noteq> v")
    case True
    with a obtain t where t: "length payload = FS_TOKEN_PAYLOAD_LEN" "FsCapabilityToken_decode payload = Ok t"
      "burn_token io (fs_is_for_bridge t lpk) (fs_is_expired t (v_now_unix v) (grace_seconds v)) (fs_token_id t) (fs_expires_at t) Bootstrap v = (res, v')"
      by (auto simp: verify_fs_token_def Let_def split: if_splits sum.splits)
    from t(3) show thesis
      by (cases rule: burn_cases)
        (use t(1,2) that True in \<open>auto simp: payload_token_def fs_is_expired_def FS_TOKEN_PAYLOAD_LEN_def TOKEN_PAYLOAD_LEN_def\<close>)
  qed (use that in blast)
qed

lemma read_message_3_cases:
  assumes "read_message_3 cr io wire r v = (res, v')" "require_token r"
  obtains (refused) "\<not> is_ok res" "v' = v"
  | (checked) payload tid exp acc b where "presented cr wire r = Some payload" "payload_token payload = Some (tid, exp)"
      "v_now_unix v \<le> saturating_add exp (grace_seconds v)"
      "Backend_check_and_insert io (replay_set v) tid (saturating_add exp (grace_seconds v)) (v_now_unix v) = (acc, b)"
      "replay_set v' = b" "is_ok res \<longrightarrow> acc"
proof (cases "is_ok res \<or> v' \<noteq> v")
  case True
  then obtain msg where m1: "Message3_decode wire = Ok msg" and st: "r_state r = AwaitMessage3"
    using assms(1) by (auto simp: read_message_3_def split: if_splits sum.splits)
  with True assms obtain payload n where m2: "n_read (noise_ops cr) (r_noise r) (noise_msg_3 msg) = Some (payload, n)"
    and conf: "length (noise_msg_3 msg) = NOISE_MSG_3_LEN_WITH_TOKEN \<or> length (noise_msg_3 msg) = NOISE_MSG_3_LEN_WITH_FS_TOKEN"
    by (auto simp: read_message_3_def Let_def split: if_splits option.splits)
  let ?w = "if length (noise_msg_3 msg) = NOISE_MSG_3_LEN_WITH_TOKEN
    then verify_legacy_token (ed_ops cr) io (operator_pk r) (local_ed25519_pk r) payload v
    else verify_fs_token (ed_ops cr) io (operator_pk r) (local_ed25519_pk r) payload v"
  obtain res1 v1 where w: "?w = (res1, v1)" by fastforce
  then have eq: "(res, v') = (case res1 of Inl e \<Rightarrow> (Err e, v1) | Inr _ \<Rightarrow> (finish_responder cr n r, v1))"
    using assms m1 m2 st conf by (auto simp: read_message_3_def Let_def split: if_splits)
  then have m: "v1 = v'" "is_ok res \<longrightarrow> is_ok res1" by (auto split: sum.splits)
  have p: "presented cr wire r = Some payload" using m1 m2 by (simp add: presented_def)
  have "verify_legacy_token (ed_ops cr) io (operator_pk r) (local_ed25519_pk r) payload v = (res1, v') \<or>
    verify_fs_token (ed_ops cr) io (operator_pk r) (local_ed25519_pk r) payload v = (res1, v')"
    using w m(1) by (auto split: if_splits)
  then show thesis
    by (cases rule: verify_token_cases) (use that p m(2) True in auto)
qed (use that in blast)

text \<open>What a bridge does to its replay set over time: handshakes, each with its own verifier, and sweeps.\<close>

datatype 'n BridgeEvent = Handshake append_io bytes "'n HandshakeResponder" TokenVerifier | SweepTokens u64

primrec bridge_time :: "'n BridgeEvent \<Rightarrow> u64" where
  "bridge_time (Handshake io wire r v) = v_now_unix v"
| "bridge_time (SweepTokens now) = now"

primrec bridge_step :: "('n, 't) crypto \<Rightarrow> 'n BridgeEvent \<Rightarrow> ReplayBackend \<Rightarrow> ReplayBackend" where
  "bridge_step cr (Handshake io wire r v) b = replay_set (snd (read_message_3 cr io wire r (v\<lparr>replay_set := b\<rparr>)))"
| "bridge_step cr (SweepTokens now) b = Backend_evict_expired b now"

primrec conformant :: "'n BridgeEvent \<Rightarrow> bool" where
  "conformant (Handshake io wire r v) = require_token r"
| "conformant (SweepTokens now) = True"

text \<open>A step is one operation of the replay guard, or nothing.\<close>

lemma bridge_step_guard:
  assumes "conformant ev"
  shows "bridge_step cr ev b = b \<or> (\<exists>gev. event_time gev = bridge_time ev \<and> bridge_step cr ev b = snd (backend.step gev b))"
proof (cases ev)
  case (Handshake io wire r v)
  obtain res v' where m: "read_message_3 cr io wire r (v\<lparr>replay_set := b\<rparr>) = (res, v')" by fastforce
  have "require_token r" using assms Handshake by simp
  with m show ?thesis
  proof (cases rule: read_message_3_cases)
    case (checked payload tid exp acc b')
    then have "bridge_step cr ev b = snd (backend.step (Present io tid (saturating_add exp (grace_seconds v)) (v_now_unix v)) b)"
      using m Handshake by simp
    then show ?thesis using Handshake by (metis bridge_time.simps(1) event_time.simps(1))
  qed (use m Handshake in simp)
next
  case (SweepTokens now)
  then have "bridge_step cr ev b = snd (backend.step (Evict now) b)" by simp
  then show ?thesis using SweepTokens by (metis bridge_time.simps(2) event_time.simps(2))
qed

lemma bridge_run_guard:
  assumes "\<forall>ev \<in> set evs. conformant ev"
  shows "\<exists>gevs. fold (bridge_step cr) evs b = backend.run gevs b \<and> (\<forall>g \<in> set gevs. \<exists>ev \<in> set evs. event_time g = bridge_time ev)"
  using assms
proof (induction evs arbitrary: b)
  case Nil
  show ?case by (rule exI [of _ "[]"]) simp
next
  case (Cons ev evs)
  from Cons obtain gevs where g: "fold (bridge_step cr) evs (bridge_step cr ev b) = backend.run gevs (bridge_step cr ev b)"
    "\<forall>g \<in> set gevs. \<exists>ev \<in> set evs. event_time g = bridge_time ev" by fastforce
  from bridge_step_guard [of ev cr b] Cons.prems consider "bridge_step cr ev b = b"
    | gev where "event_time gev = bridge_time ev" "bridge_step cr ev b = snd (backend.step gev b)" by auto
  then show ?case
  proof cases
    case 1
    with g show ?thesis by (intro exI [of _ gevs]) auto
  next
    case (2 gev)
    with g show ?thesis by (intro exI [of _ "gev # gevs"]) auto
  qed
qed

lemma saturating_add_mono: "b \<le> c \<Longrightarrow> saturating_add a b \<le> saturating_add a (c :: 'a::len word)"
  by (simp add: word_le_nat_alt unat_saturating_add)


section \<open>Honest runs\<close>

text \<open>
  What a pair of Noise XX states built for each other does: each message carries its payload to the
  other side with the overhead of the pattern, the initiator learns the responder's static key from the
  second, the transcript hashes agree after the second and after the third, and both sides can then
  switch to transport mode.
\<close>

definition noise_third :: "('n, 't) snow \<Rightarrow> 'n \<Rightarrow> 'n \<Rightarrow> bool" where
  "noise_third sn ni nr \<longleftrightarrow>
     (\<forall>p. \<exists>m ni' nr'. n_write sn ni p = Some (m, ni') \<and> length m = 64 + length p \<and> n_read sn nr m = Some (p, nr') \<and>
        n_hash sn ni' = n_hash sn nr' \<and> length (n_hash sn nr') = 32 \<and> n_transport sn ni' \<noteq> None \<and> n_transport sn nr' \<noteq> None)"

definition noise_second :: "('n, 't) snow \<Rightarrow> 'n \<Rightarrow> 'n \<Rightarrow> bytes \<Rightarrow> bool" where
  "noise_second sn ni nr rpk \<longleftrightarrow>
     (\<forall>p. \<exists>m nr' ni'. n_write sn nr p = Some (m, nr') \<and> length m = 96 + length p \<and> n_read sn ni m = Some (p, ni') \<and>
        n_remote_static sn ni' = Some rpk \<and> n_hash sn ni' = n_hash sn nr' \<and> length (n_hash sn nr') = 32 \<and>
        noise_third sn ni' nr')"

definition noise_xx :: "('n, 't) snow \<Rightarrow> 'n \<Rightarrow> 'n \<Rightarrow> bytes \<Rightarrow> bool" where
  "noise_xx sn ni nr rpk \<longleftrightarrow>
     (\<forall>p. \<exists>m ni' nr'. n_write sn ni p = Some (m, ni') \<and> length m = 32 + length p \<and> n_read sn nr m = Some (p, nr') \<and>
        noise_second sn ni' nr' rpk)"

definition kem_laws :: "kem \<Rightarrow> bool" where
  "kem_laws k \<longleftrightarrow>
     (\<forall>dk. length (kem_ek k dk) = MLKEM_EK_LEN \<and> kem_ek_valid k (kem_ek k dk) \<and>
        (\<forall>rnd. length (fst (kem_encapsulate k (kem_ek k dk) rnd)) = MLKEM_CT_LEN \<and>
           kem_decapsulate k dk (fst (kem_encapsulate k (kem_ek k dk) rnd)) = snd (kem_encapsulate k (kem_ek k dk) rnd)))"

text \<open>The messages of a handshake delivered as they were sent; \<open>None\<close> when either side stops.\<close>

definition handshake_run ::
  "('n, 't) crypto \<Rightarrow> append_io \<Rightarrow> bytes \<Rightarrow> 'n HandshakeInitiator \<Rightarrow> 'n HandshakeResponder \<Rightarrow> TokenVerifier \<Rightarrow>
     ('t SessionKeys \<times> 't SessionKeys \<times> TokenVerifier) option" where
  "handshake_run cr io rnd i r v =
     (case write_message_1 cr i of (Inl _, _) \<Rightarrow> None | (Inr w1, i1) \<Rightarrow>
     (case read_message_1 cr w1 r of (Inl _, _) \<Rightarrow> None | (Inr _, r1) \<Rightarrow>
     (case write_message_2 cr rnd r1 of (Inl _, _) \<Rightarrow> None | (Inr w2, r2) \<Rightarrow>
     (case read_message_2 cr w2 i1 of (Inl _, _) \<Rightarrow> None | (Inr _, i2) \<Rightarrow>
     (case write_message_3 cr i2 of Inl _ \<Rightarrow> None | Inr (w3, ki) \<Rightarrow>
     (case read_message_3 cr io w3 r2 v of (Inl _, _) \<Rightarrow> None | (Inr kr, v') \<Rightarrow> Some (ki, kr, v')))))))"

text \<open>The verification the responder applies to a payload.\<close>

definition verify_payload ::
  "ed25519 \<Rightarrow> append_io \<Rightarrow> bytes \<Rightarrow> bytes \<Rightarrow> bytes \<Rightarrow> TokenVerifier \<Rightarrow> (SessionError + unit) \<times> TokenVerifier" where
  "verify_payload ed io opk lpk payload v =
     (if length payload = TOKEN_PAYLOAD_LEN then verify_legacy_token ed io opk lpk payload v
      else verify_fs_token ed io opk lpk payload v)"

lemma honest_run:
  assumes "noise_xx (noise_ops cr) ni nr rpk" "kem_laws (kem_ops cr)"
    and "length bs \<in> {TOKEN_PAYLOAD_LEN, FS_TOKEN_PAYLOAD_LEN}"
    and "verify_payload (ed_ops cr) io opk lpk bs v = (Ok (), v')"
  shows "\<exists>ki kr. handshake_run cr io rnd ((Initiator_new_common cr ni dk rpk)\<lparr>token_bytes := Some bs\<rparr>) (Responder_new nr lpk opk) v
      = Some (ki, kr, v') \<and> session_binding ki = session_binding kr \<and> keys_mlkem_ss ki = keys_mlkem_ss kr"
proof -
  let ?i = "(Initiator_new_common cr ni dk rpk)\<lparr>token_bytes := Some bs\<rparr>" and ?r = "Responder_new nr lpk opk"
  let ?ek = "kem_ek (kem_ops cr) dk"
  obtain ct ss where enc: "kem_encapsulate (kem_ops cr) ?ek rnd = (ct, ss)" by fastforce
  have kem: "length ?ek = MLKEM_EK_LEN" "kem_ek_valid (kem_ops cr) ?ek" "length ct = MLKEM_CT_LEN"
    "kem_decapsulate (kem_ops cr) dk ct = ss"
    using assms(2) enc unfolding kem_laws_def by (metis fst_conv snd_conv)+
  obtain m1 ni1 nr1 where n1: "n_write (noise_ops cr) ni ?ek = Some (m1, ni1)" "length m1 = 32 + length ?ek"
    "n_read (noise_ops cr) nr m1 = Some (?ek, nr1)" "noise_second (noise_ops cr) ni1 nr1 rpk"
    using assms(1) [unfolded noise_xx_def, rule_format, of ?ek] by blast
  obtain m2 nr2 ni2 where n2: "n_write (noise_ops cr) nr1 ct = Some (m2, nr2)" "length m2 = 96 + length ct"
    "n_read (noise_ops cr) ni1 m2 = Some (ct, ni2)" "n_remote_static (noise_ops cr) ni2 = Some rpk" "noise_third (noise_ops cr) ni2 nr2"
    using n1(4) [unfolded noise_second_def, rule_format, of ct] by blast
  obtain m3 ni3 nr3 ti tr where n3: "n_write (noise_ops cr) ni2 bs = Some (m3, ni3)" "length m3 = 64 + length bs"
    "n_read (noise_ops cr) nr2 m3 = Some (bs, nr3)" "n_hash (noise_ops cr) ni3 = n_hash (noise_ops cr) nr3"
    "length (n_hash (noise_ops cr) nr3) = 32" "n_transport (noise_ops cr) ni3 = Some ti" "n_transport (noise_ops cr) nr3 = Some tr"
    using n2(5) [unfolded noise_third_def, rule_format, of bs] by blast
  let ?i1 = "?i\<lparr>i_noise := ni1, i_state := AwaitMessage2\<rparr>"
  let ?w1 = "Message1_encode \<lparr>m1_wire_version = WIRE_VERSION, noise_msg_1 = m1\<rparr>"
  have s1: "write_message_1 cr ?i = (Ok ?w1, ?i1)"
    using n1 kem(1) by (simp add: write_message_1_def Initiator_new_common_def NOISE_MSG_1_LEN_def)
  let ?r1 = "?r\<lparr>r_noise := nr1, peer_mlkem_ek := Some ?ek, r_state := AwaitMessage3\<rparr>"
  have "Message1_decode ?w1 = Ok \<lparr>m1_wire_version = WIRE_VERSION, noise_msg_1 = m1\<rparr>"
    by (rule Message1_decode_encode) (simp add: n1(2) kem(1) NOISE_MSG_1_LEN_def)
  then have s2: "read_message_1 cr ?w1 ?r = (Ok (), ?r1)"
    using n1 kem(1) by (simp add: read_message_1_def Responder_new_def)
  let ?r2 = "?r1\<lparr>r_mlkem_ct := Some ct, r_mlkem_ss := Some ss, r_noise := nr2\<rparr>"
  let ?w2 = "Message2_encode \<lparr>m2_wire_version = WIRE_VERSION, noise_msg_2 = m2\<rparr>"
  have l2: "length m2 = NOISE_MSG_2_LEN" using n2(2) kem(3) by (simp add: NOISE_MSG_2_LEN_def)
  have s3: "write_message_2 cr rnd ?r1 = (Ok ?w2, ?r2)"
    using n2 kem enc l2 by (simp add: write_message_2_def Responder_new_def)
  let ?i2 = "?i1\<lparr>i_noise := ni2, i_mlkem_ct := Some ct, i_mlkem_ss := Some ss\<rparr>"
  have "Message2_decode ?w2 = Ok \<lparr>m2_wire_version = WIRE_VERSION, noise_msg_2 = m2\<rparr>"
    by (rule Message2_decode_encode) (simp add: l2)
  then have s4: "read_message_2 cr ?w2 ?i1 = (Ok (), ?i2)"
    using n2 kem by (simp add: read_message_2_def Initiator_new_common_def)
  let ?bind = "derive_session_binding (blake3 cr) WIRE_VERSION (n_hash (noise_ops cr) nr3) ?ek ct ss"
  let ?w3 = "Message3_encode \<lparr>noise_msg_3 = m3\<rparr>"
  have l3: "length m3 = (if length bs = TOKEN_PAYLOAD_LEN then NOISE_MSG_3_LEN_WITH_TOKEN else NOISE_MSG_3_LEN_WITH_FS_TOKEN)"
    using n3(2) assms(3) by (auto simp: msg_lens)
  have s5: "write_message_3 cr ?i2 = Ok (?w3, \<lparr>session_binding = ?bind, transport = ti, keys_mlkem_ss = ss\<rparr>)"
    using n3 assms(3) l3 by (auto simp: write_message_3_def Initiator_new_common_def noise_h_32_def msg_lens)
  have "Message3_decode ?w3 = Ok \<lparr>noise_msg_3 = m3\<rparr>"
    using l3 by (simp add: Message3_decode_iff msg3_len_ok_def)
  then have s6: "read_message_3 cr io ?w3 ?r2 v = (Ok \<lparr>session_binding = ?bind, transport = tr, keys_mlkem_ss = ss\<rparr>, v')"
    using n3 l3 assms(3,4)
    by (auto simp: read_message_3_def Responder_new_def verify_payload_def finish_responder_def noise_h_32_def msg_lens)
  show ?thesis using s1 s2 s3 s4 s5 s6 by (simp add: handshake_run_def)
qed

text \<open>Payloads that verify: tokens of the operator, of a certified epoch subkey, and of the bridge itself.\<close>

lemma burn_fresh:
  assumes "rs_ok (backend_set (replay_set v))"
    and "fst (Backend_check_and_insert io (replay_set v) tid (saturating_add exp (grace_seconds v)) (v_now_unix v))"
  shows "\<exists>v'. burn_token io True False tid exp kind v = (Ok (), v') \<and> last_accepted_token_id v' = Some tid \<and>
    last_accepted_kind v' = Some kind \<and> rs_held (backend_set (replay_set v')) tid = Some (saturating_add exp (grace_seconds v))"
  using backend.accept_holds [OF assms] assms(2) by (auto simp: burn_token_def Let_def split: prod.splits)

definition operator_issued :: "ed25519 \<Rightarrow> bytes \<Rightarrow> bytes \<Rightarrow> bytes \<Rightarrow> u64 \<Rightarrow> TokenVerifier \<Rightarrow> bytes \<Rightarrow> bool" where
  "operator_issued ed op_sk lpk tid exp v bs \<longleftrightarrow>
     bs = CapabilityToken_encode (sign_token ed tid lpk exp op_sk) \<or>
     (\<exists>rnd e valid_until sg. EpochSigner_generate ed rnd op_sk e valid_until = Ok sg \<and>
        v_now_unix v \<le> saturating_add valid_until (grace_seconds v) \<and>
        bs = FsCapabilityToken_encode (EpochSigner_sign_token ed sg tid lpk exp))"

lemma issued_verifies:
  assumes "ed25519_laws ed" "operator_issued ed op_sk lpk tid exp v bs" "length tid = 32" "length lpk = 32"
    and "v_now_unix v \<le> saturating_add exp (grace_seconds v)"
  shows "verify_payload ed io (ed_pk ed op_sk) lpk bs v = burn_token io True False tid exp Bootstrap v"
    "length bs \<in> {TOKEN_PAYLOAD_LEN, FS_TOKEN_PAYLOAD_LEN}"
proof -
  have "verify_payload ed io (ed_pk ed op_sk) lpk bs v = burn_token io True False tid exp Bootstrap v \<and>
    length bs \<in> {TOKEN_PAYLOAD_LEN, FS_TOKEN_PAYLOAD_LEN}"
    using assms(2) unfolding operator_issued_def
  proof (elim disjE exE conjE)
    let ?t = "sign_token ed tid lpk exp op_sk"
    assume bs: "bs = CapabilityToken_encode ?t"
    have "token_wf ?t" using assms(1,3,4) by (simp add: token_wf_def sign_token_def ed25519_laws_def)
    moreover have "token_kind ed (ed_pk ed op_sk) v ?t = Some Bootstrap"
      using signed_verifies [OF assms(1)] by (simp add: token_kind_def Let_def)
    moreover have "is_for_bridge ?t lpk" "\<not> is_expired ?t (v_now_unix v) (grace_seconds v)" "token_id ?t = tid" "expires_at ?t = exp"
      using assms(5) by (simp_all add: sign_token_def is_for_bridge_def is_expired_def)
    ultimately show ?thesis
      by (simp add: bs verify_payload_def verify_legacy_token_def token_decode_encode length_token_encode token_lens
          TOKEN_PAYLOAD_LEN_def)
  next
    fix rnd e valid_until sg
    let ?t = "EpochSigner_sign_token ed sg tid lpk exp"
    assume sg: "EpochSigner_generate ed rnd op_sk e valid_until = Ok sg" "v_now_unix v \<le> saturating_add valid_until (grace_seconds v)"
      and bs: "bs = FsCapabilityToken_encode ?t"
    note chain = generated_chain [OF assms(1) sg]
    have wf: "fs_token_wf ?t" by (rule chain(2)) (rule assms(3,4))+
    have "fs_is_for_bridge ?t lpk" "\<not> fs_is_expired ?t (v_now_unix v) (grace_seconds v)" "fs_token_id ?t = tid" "fs_expires_at ?t = exp"
      using assms(5) by (simp_all add: EpochSigner_sign_token_def fs_is_for_bridge_def fs_is_expired_def)
    then show ?thesis
      by (simp add: bs verify_payload_def verify_fs_token_def fs_decode_encode [OF wf] length_fs_encode [OF wf] token_lens
          chain(1) TOKEN_PAYLOAD_LEN_def FS_TOKEN_PAYLOAD_LEN_def)
  qed
  then show "verify_payload ed io (ed_pk ed op_sk) lpk bs v = burn_token io True False tid exp Bootstrap v"
    "length bs \<in> {TOKEN_PAYLOAD_LEN, FS_TOKEN_PAYLOAD_LEN}" by blast+
qed

text \<open>
  An honest handshake completes and the two sides agree.  A client that presents a token issued by
  the operator for this bridge, directly or through an epoch subkey that is not retired, within its life
  and not yet in the replay set, ends with the responder in the same session binding and the same ML-KEM
  secret, and the token is burned.
\<close>

lemma handshake_agrees:
  assumes "noise_xx (noise_ops cr) ni nr rpk" "kem_laws (kem_ops cr)" "ed25519_laws (ed_ops cr)"
    and "operator_issued (ed_ops cr) op_sk lpk tid exp v bs" "length tid = 32" "length lpk = 32"
    and "v_now_unix v \<le> saturating_add exp (grace_seconds v)" "rs_ok (backend_set (replay_set v))"
    and "fst (Backend_check_and_insert io (replay_set v) tid (saturating_add exp (grace_seconds v)) (v_now_unix v))"
  shows "\<exists>ki kr v'. handshake_run cr io rnd ((Initiator_new_common cr ni dk rpk)\<lparr>token_bytes := Some bs\<rparr>)
        (Responder_new nr lpk (ed_pk (ed_ops cr) op_sk)) v = Some (ki, kr, v') \<and>
      session_binding ki = session_binding kr \<and> keys_mlkem_ss ki = keys_mlkem_ss kr \<and>
      last_accepted_token_id v' = Some tid \<and> last_accepted_kind v' = Some Bootstrap \<and>
      rs_held (backend_set (replay_set v')) tid = Some (saturating_add exp (grace_seconds v))"
proof -
  obtain v' where v': "burn_token io True False tid exp Bootstrap v = (Ok (), v')" "last_accepted_token_id v' = Some tid"
    "last_accepted_kind v' = Some Bootstrap" "rs_held (backend_set (replay_set v')) tid = Some (saturating_add exp (grace_seconds v))"
    using burn_fresh [OF assms(8,9)] by blast
  note iv = issued_verifies [OF assms(3-7)]
  from honest_run [OF assms(1,2) iv(2), of io "ed_pk (ed_ops cr) op_sk" lpk v v' rnd dk] iv(1) v' show ?thesis by auto
qed

section \<open>A concrete instance\<close>

text \<open>
  Noise as a counter of messages and the transcript itself, with blank overhead; a key encapsulation that
  sends its secret; signatures that repeat key and message.  They satisfy the laws and nothing more.
\<close>

definition demo_overhead :: "nat \<Rightarrow> nat" where
  "demo_overhead k = (if k = 0 then 32 else if k = 1 then 96 else 64)"

definition demo_snow :: "(nat \<times> bytes, unit) snow" where
  "demo_snow =
     \<lparr>n_write = (\<lambda>(k, h) p. Some (replicate (demo_overhead k) 0 @ p, (Suc k, h @ p))),
      n_read = (\<lambda>(k, h) m. Some (drop (demo_overhead k) m, (Suc k, h @ drop (demo_overhead k) m))),
      n_hash = (\<lambda>(k, h). take 32 (h @ replicate 32 0)), n_remote_static = (\<lambda>_. Some [9]), n_transport = (\<lambda>_. Some ())\<rparr>"

definition demo_kem :: kem where
  "demo_kem =
     \<lparr>kem_ek = (\<lambda>dk. take 1184 (dk @ replicate 1184 0)), kem_ek_valid = (\<lambda>_. True),
      kem_encapsulate = (\<lambda>ek rnd. (take 1088 (rnd @ replicate 1088 0), take 32 (take 1088 (rnd @ replicate 1088 0)))),
      kem_decapsulate = (\<lambda>dk ct. take 32 ct)\<rparr>"

definition demo_ed :: ed25519 where
  "demo_ed =
     \<lparr>ed_vk_valid = (\<lambda>_. True), ed_verify = (\<lambda>pk m sg. sg = take 64 (pk @ m @ replicate 64 0)),
      ed_sign = (\<lambda>sk m. take 64 (take 32 (sk @ replicate 32 0) @ m @ replicate 64 0)),
      ed_pk = (\<lambda>sk. take 32 (sk @ replicate 32 0))\<rparr>"

definition demo_crypto :: "(nat \<times> bytes, unit) crypto" where
  "demo_crypto = \<lparr>noise_ops = demo_snow, kem_ops = demo_kem, ed_ops = demo_ed, blake3 = id\<rparr>"

lemma demo_ops:
  "n_write demo_snow (k, h) p = Some (replicate (demo_overhead k) 0 @ p, (Suc k, h @ p))"
  "n_read demo_snow (k, h) m = Some (drop (demo_overhead k) m, (Suc k, h @ drop (demo_overhead k) m))"
  "n_hash demo_snow (k, h) = take 32 (h @ replicate 32 0)" "n_remote_static demo_snow n = Some [9]" "n_transport demo_snow n = Some ()"
  by (simp_all add: demo_snow_def)

lemma demo_third: "noise_third demo_snow (2, h) (2, h)"
  unfolding noise_third_def
proof
  fix p
  show "\<exists>m ni' nr'. n_write demo_snow (2, h) p = Some (m, ni') \<and> length m = 64 + length p \<and> n_read demo_snow (2, h) m = Some (p, nr') \<and>
    n_hash demo_snow ni' = n_hash demo_snow nr' \<and> length (n_hash demo_snow nr') = 32 \<and> n_transport demo_snow ni' \<noteq> None \<and>
    n_transport demo_snow nr' \<noteq> None"
    by (rule exI [of _ "replicate 64 0 @ p"], rule exI [of _ "(3, h @ p)"], rule exI [of _ "(3, h @ p)"])
      (simp add: demo_ops demo_overhead_def)
qed

lemma demo_second: "noise_second demo_snow (1, h) (1, h) [9]"
  unfolding noise_second_def
proof
  fix p
  show "\<exists>m nr' ni'. n_write demo_snow (1, h) p = Some (m, nr') \<and> length m = 96 + length p \<and> n_read demo_snow (1, h) m = Some (p, ni') \<and>
    n_remote_static demo_snow ni' = Some [9] \<and> n_hash demo_snow ni' = n_hash demo_snow nr' \<and>
    length (n_hash demo_snow nr') = 32 \<and> noise_third demo_snow ni' nr'"
    by (rule exI [of _ "replicate 96 0 @ p"], rule exI [of _ "(2, h @ p)"], rule exI [of _ "(2, h @ p)"])
      (simp add: demo_ops demo_overhead_def demo_third)
qed

lemma demo_xx: "noise_xx demo_snow (0, []) (0, []) [9]"
  unfolding noise_xx_def
proof
  fix p
  show "\<exists>m ni' nr'. n_write demo_snow (0, []) p = Some (m, ni') \<and> length m = 32 + length p \<and> n_read demo_snow (0, []) m = Some (p, nr') \<and>
    noise_second demo_snow ni' nr' [9]"
    by (rule exI [of _ "replicate 32 0 @ p"], rule exI [of _ "(1, p)"], rule exI [of _ "(1, p)"])
      (use demo_second [of p] in \<open>simp add: demo_ops demo_overhead_def\<close>)
qed

lemma demo_laws: "noise_xx demo_snow (0, []) (0, []) [9]" "kem_laws demo_kem" "ed25519_laws demo_ed"
proof -
  show "noise_xx demo_snow (0, []) (0, []) [9]"
    by (rule demo_xx)
  show "kem_laws demo_kem"
    by (simp add: kem_laws_def demo_kem_def msg_lens del: take_append)
  show "ed25519_laws demo_ed"
    by (simp add: ed25519_laws_def demo_ed_def del: take_append)
qed

definition demo_verifier :: "u64 \<Rightarrow> TokenVerifier" where
  "demo_verifier now = TokenVerifier_new (Owned (ReplaySet_new 4)) now"

definition demo_token :: bytes where
  "demo_token = CapabilityToken_encode (sign_token demo_ed (replicate 32 1) (replicate 32 2) 1000 [7])"

lemma demo_issued: "operator_issued demo_ed [7] (replicate 32 2) (replicate 32 1) 1000 v demo_token"
  by (simp add: operator_issued_def demo_token_def)

lemma demo_fresh:
  "rs_ok (backend_set (replay_set (demo_verifier 900)))"
  "fst (Backend_check_and_insert demo_io (replay_set (demo_verifier 900)) (replicate 32 1)
     (saturating_add 1000 (grace_seconds (demo_verifier 900))) (v_now_unix (demo_verifier 900)))"
  "v_now_unix (demo_verifier 900) \<le> saturating_add 1000 (grace_seconds (demo_verifier 900))"
  by (simp_all add: demo_verifier_def TokenVerifier_new_def backend_set_def rs_ok_def ReplaySet_new_def
      Backend_check_and_insert_def ReplaySet_check_and_insert_def hm_eval Let_def saturating_add_def TOKEN_GRACE_SECONDS_def)

lemma handshake_agrees_witness:
  "\<exists>ki kr v'. handshake_run demo_crypto demo_io [5] ((Initiator_new_common demo_crypto (0, []) [4] [9])\<lparr>token_bytes := Some demo_token\<rparr>)
        (Responder_new (0, []) (replicate 32 2) (ed_pk demo_ed [7])) (demo_verifier 900) = Some (ki, kr, v') \<and>
      session_binding ki = session_binding kr \<and> last_accepted_token_id v' = Some (replicate 32 1)"
proof -
  have c: "noise_ops demo_crypto = demo_snow" "kem_ops demo_crypto = demo_kem" "ed_ops demo_crypto = demo_ed"
    by (simp_all add: demo_crypto_def)
  show ?thesis
    using handshake_agrees [of demo_crypto "(0, [])" "(0, [])" "[9]" "[7]" "replicate 32 2" "replicate 32 1" 1000
        "demo_verifier 900" demo_token demo_io "[5]" "[4]", unfolded c, OF demo_laws demo_issued _ _ demo_fresh(3,1,2)]
    by fastforce
qed

definition demo_responder :: "(nat \<times> bytes) HandshakeResponder" where
  "demo_responder = (Responder_new (2, []) (replicate 32 2) (ed_pk demo_ed [7]))
     \<lparr>r_state := AwaitMessage3, peer_mlkem_ek := Some [], r_mlkem_ct := Some [], r_mlkem_ss := Some []\<rparr>"

definition demo_wire :: bytes where
  "demo_wire = Message3_encode \<lparr>noise_msg_3 = replicate 64 0 @ demo_token\<rparr>"

lemma demo_token_length: "length demo_token = 136"
  by (simp add: demo_token_def CapabilityToken_encode_def sign_token_def Let_def demo_ed_def del: take_append)

lemma demo_accepts: "\<exists>keys v1. read_message_3 demo_crypto demo_io demo_wire demo_responder (demo_verifier 900) = (Ok keys, v1)"
proof -
  obtain v1 where v1: "verify_legacy_token demo_ed demo_io (ed_pk demo_ed [7]) (replicate 32 2) demo_token (demo_verifier 900) = (Ok (), v1)"
    using issued_verifies(1) [OF demo_laws(3) demo_issued _ _ demo_fresh(3), of demo_io] burn_fresh [OF demo_fresh(1,2)]
    by (auto simp: verify_payload_def demo_token_length TOKEN_PAYLOAD_LEN_def)
  have "Message3_decode demo_wire = Ok \<lparr>noise_msg_3 = replicate 64 0 @ demo_token\<rparr>"
    by (simp add: demo_wire_def Message3_decode_iff msg3_len_ok_def demo_token_length msg_lens)
  then show ?thesis
    using v1 by (simp add: read_message_3_def demo_responder_def Responder_new_def demo_crypto_def demo_snow_def demo_overhead_def
        demo_token_length msg_lens finish_responder_def noise_h_32_def)
qed


end
