(* ===== verification/Refresh_Service.thy ===== *)
theory Refresh_Service
  imports Session_Handshake
begin

text \<open>
  The bridge's refresh service (\<open>RefreshState\<close> and \<open>handle_refresh_request\<close> of
  \<open>crates/bridge/src/main.rs\<close>): an authenticated session may ask for bridge-signed tokens with which to
  authenticate again.  Shown here: a root token never mints more than its budget while the table of
  roots has room, and every minted token authenticates a session at the bridge that minted it.
\<close>

section \<open>State and operations\<close>

definition REFRESH_PER_ROOT_TABLE_CAP :: nat where "REFRESH_PER_ROOT_TABLE_CAP = 65536"

record RefreshState =
  refresh_enabled :: bool
  signing_sk :: "bytes option"
  per_root_cap :: u8
  ttl_secs :: u64
  per_root :: "(bytes, u32 \<times> instant) hashmap"

definition RefreshState_new :: "bool \<Rightarrow> bytes option \<Rightarrow> u8 \<Rightarrow> u64 \<Rightarrow> RefreshState" where
  "RefreshState_new en sk cap ttl =
     \<lparr>refresh_enabled = (en \<and> sk \<noteq> None), signing_sk = sk, per_root_cap = cap, ttl_secs = ttl, per_root = []\<rparr>"

type_synonym root_iteration = "(bytes, u32 \<times> instant) hashmap \<Rightarrow> (bytes \<times> u32 \<times> instant) list"

text \<open>Making room: drop the entry seen longest ago.\<close>

definition evict_oldest_root :: "root_iteration \<Rightarrow> bytes \<Rightarrow> (bytes, u32 \<times> instant) hashmap \<Rightarrow> (bytes, u32 \<times> instant) hashmap" where
  "evict_oldest_root ord root per =
     (if REFRESH_PER_ROOT_TABLE_CAP \<le> hm_len per \<and> \<not> hm_contains per root then
        (case min_by_key (\<lambda>e. snd (snd e)) (ord per) of None \<Rightarrow> per | Some (k, _) \<Rightarrow> hm_remove k per)
      else per)"

text \<open>The minting loop; \<open>draws\<close> are the results of the random generator, \<open>None\<close> for a failure.\<close>

fun mint_tokens ::
  "ed25519 \<Rightarrow> bytes \<Rightarrow> u64 \<Rightarrow> nat \<Rightarrow> bytes option list \<Rightarrow> SessionRefreshToken list \<Rightarrow> SessionRefreshToken list \<times> bool" where
  "mint_tokens ed sk exp (Suc n) (Some tid # draws) out = mint_tokens ed sk exp n draws (out @ [sign_refresh_token ed tid sk exp])"
| "mint_tokens ed sk exp (Suc n) _ out = (out, True)"
| "mint_tokens ed sk exp 0 _ out = (out, False)"

definition mint_for_root ::
  "ed25519 \<Rightarrow> root_iteration \<Rightarrow> bytes option list \<Rightarrow> instant \<Rightarrow> bytes option \<Rightarrow> u8 \<Rightarrow> u64 \<Rightarrow> RefreshState \<Rightarrow>
     (SessionRefreshToken list \<times> u8) \<times> RefreshState" where
  "mint_for_root ed ord draws now root_token_id cnt now_unix st =
     (if \<not> refresh_enabled st then (([], REFRESH_STATUS_POLICY), st)
      else case signing_sk st of
        None \<Rightarrow> (([], REFRESH_STATUS_POLICY), st)
      | Some sk \<Rightarrow>
        (case root_token_id of
           None \<Rightarrow> (([], REFRESH_STATUS_EXHAUSTED), st)
         | Some root \<Rightarrow>
             let per = evict_oldest_root ord root (per_root st);
                 counter = (case hm_get per root of None \<Rightarrow> 0 | Some (c, _) \<Rightarrow> c);
                 st1 = st\<lparr>per_root := hm_insert root (counter, now) per\<rparr>;
                 remaining = saturating_sub (ucast (per_root_cap st)) counter
             in if remaining = 0 then (([], REFRESH_STATUS_EXHAUSTED), st1)
                else
                  let requested = min (ucast cnt) (ucast REFRESH_MAX_PER_REQUEST);
                      to_mint = unat (min requested remaining)
                  in if to_mint = 0 then (([], REFRESH_STATUS_EXHAUSTED), st1)
                     else
                       let expires = saturating_add now_unix (ttl_secs st);
                           (out, csprng_failed) = mint_tokens ed sk expires to_mint draws [];
                           counter' = saturating_add counter (word_of_nat (length out));
                           status = (if csprng_failed \<and> out = [] then REFRESH_STATUS_INTERNAL else REFRESH_STATUS_OK)
                       in ((out, status), st1\<lparr>per_root := hm_insert root (counter', now) (per_root st1)\<rparr>)))"

text \<open>
  The handler: \<open>buf\<close> is what it reads from the session, \<open>None\<close> on a timeout or a read error; the result is
  what it writes.
\<close>

definition handle_refresh_request ::
  "ed25519 \<Rightarrow> root_iteration \<Rightarrow> bytes option list \<Rightarrow> instant \<Rightarrow> u64 \<Rightarrow> bytes option \<Rightarrow> AcceptedTokenKind option \<Rightarrow> bytes option \<Rightarrow>
     RefreshState \<Rightarrow> bytes option \<times> RefreshState" where
  "handle_refresh_request ed ord draws now now_unix tok kind buf st =
     (if kind = Some Refresh then (Some (RefreshResponse_encode (RefreshResponse_empty REFRESH_STATUS_POLICY)), st)
      else case buf of
        None \<Rightarrow> (None, st)
      | Some bs \<Rightarrow>
        (case RefreshRequest_decode bs of
           Inl _ \<Rightarrow> (Some (RefreshResponse_encode (RefreshResponse_empty REFRESH_STATUS_BAD_REQUEST)), st)
         | Inr req \<Rightarrow>
             let ((ts, status), st') = mint_for_root ed ord draws now tok (rq_count req) now_unix st
             in (Some (RefreshResponse_encode \<lparr>rs_status = status, rs_tokens = ts\<rparr>), st')))"

section \<open>Minting\<close>

lemma mint_tokens_length:
  "mint_tokens ed sk exp n draws out = (out', f) \<Longrightarrow> length out' \<le> length out + n"
  by (induction ed sk exp n draws out rule: mint_tokens.induct) auto

lemma mint_tokens_made:
  "mint_tokens ed sk exp n draws out = (out', f) \<Longrightarrow> t \<in> set out' \<Longrightarrow>
     t \<in> set out \<or> (\<exists>tid. Some tid \<in> set draws \<and> t = sign_refresh_token ed tid sk exp)"
  by (induction ed sk exp n draws out rule: mint_tokens.induct) fastforce+

lemma mint_some:
  assumes "mint_for_root ed ord draws now root cnt now_unix st = ((ts, status), st')" "t \<in> set ts"
  obtains sk tid where "signing_sk st = Some sk" "Some tid \<in> set draws"
    "t = sign_refresh_token ed tid sk (saturating_add now_unix (ttl_secs st))"
proof -
  have "\<exists>sk n f. signing_sk st = Some sk \<and> mint_tokens ed sk (saturating_add now_unix (ttl_secs st)) n draws [] = (ts, f)"
    using assms
    by (auto simp: mint_for_root_def Let_def split: if_splits option.splits prod.splits)
  with mint_tokens_made assms(2) that show thesis by fastforce
qed

text \<open>
  One request: nothing happens, or the root's counter, zero when the table does not know the root, grows by
  the number of tokens minted, at most four and never beyond the cap.
\<close>

lemma mint_cases:
  assumes "mint_for_root ed ord draws now root cnt now_unix st = ((ts, status), st')"
  obtains (nothing) "ts = []" "st' = st"
  | (minted) r per c c' where "root = Some r" "per = evict_oldest_root ord r (per_root st)"
      "c = (case hm_get per r of None \<Rightarrow> 0 | Some (c, _) \<Rightarrow> c)" "st' = st\<lparr>per_root := per_root st'\<rparr>"
      "\<And>k. hm_get (per_root st') k = (if k = r then Some (c', now) else hm_get per k)"
      "hm_wf per \<longrightarrow> hm_wf (per_root st')"
      "unat c' = unat c + length ts" "length ts \<le> 4" "length ts \<le> unat (per_root_cap st) - unat c"
proof (cases "refresh_enabled st \<and> signing_sk st \<noteq> None \<and> root \<noteq> None")
  case False
  with assms have "ts = []" "st' = st" by (auto simp: mint_for_root_def split: option.splits if_splits)
  then show ?thesis by (rule nothing)
next
  case True
  then obtain sk r where e: "refresh_enabled st" "signing_sk st = Some sk" "root = Some r" by auto
  define per where "per = evict_oldest_root ord r (per_root st)"
  define c where "c = (case hm_get per r of None \<Rightarrow> 0 | Some (c, _) \<Rightarrow> c)"
  define rem where "rem = saturating_sub (ucast (per_root_cap st)) c"
  define n where "n = unat (min (min (ucast cnt) (ucast REFRESH_MAX_PER_REQUEST)) rem)"
  have rem: "unat rem = unat (per_root_cap st) - unat c" by (simp add: rem_def unat_saturating_sub)
  have n: "n \<le> 4" "n \<le> unat rem"
    by (simp_all add: n_def REFRESH_MAX_PER_REQUEST_def min_def word_le_nat_alt word_less_nat_alt)
  obtain out f where mt: "mint_tokens ed sk (saturating_add now_unix (ttl_secs st)) n draws [] = (out, f)" by fastforce
  have out: "length out \<le> n" using mint_tokens_length [OF mt] by simp
  let ?c' = "saturating_add c (word_of_nat (length out))"
  have "unat (word_of_nat (length out) :: u32) = length out" using out n(1) by (simp add: unat_of_nat)
  moreover have "unat c + length out < 2 ^ 32"
  proof (cases "length out = 0")
    case True
    then show ?thesis using unsigned_less [of c, where 'a = nat] by simp
  next
    case False
    then have "unat c + length out \<le> unat (per_root_cap st)" using out n rem by linarith
    also have "\<dots> < 256" by simp
    finally show ?thesis by simp
  qed
  ultimately have c': "unat ?c' = unat c + length out" by (simp add: unat_saturating_add)
  show ?thesis
  proof (cases "rem = 0 \<or> n = 0")
    case True
    then have "ts = []" "st' = st\<lparr>per_root := hm_insert r (c, now) per\<rparr>"
      using assms e unfolding mint_for_root_def by (auto simp: Let_def per_def c_def rem_def n_def split: if_splits)
    then show ?thesis using minted [OF e(3) per_def c_def, of c] by (simp add: hm_laws)
  next
    case False
    then have "ts = out" "st' = st\<lparr>per_root := hm_insert r (?c', now) (hm_insert r (c, now) per)\<rparr>"
      using assms e mt unfolding mint_for_root_def
      by (auto simp: Let_def per_def [symmetric] c_def [symmetric] rem_def [symmetric] n_def [symmetric] split: if_splits)
    then show ?thesis using minted [OF e(3) per_def c_def, of ?c'] c' out n rem by (simp add: hm_laws)
  qed
qed

section \<open>The budget of a root\<close>

text \<open>A run of requests from any sessions; the log pairs each request's root with the tokens it got.\<close>

record mint_request =
  q_ord :: root_iteration
  q_draws :: "bytes option list"
  q_now :: instant
  q_root :: "bytes option"
  q_count :: u8
  q_now_unix :: u64

definition mint_step :: "ed25519 \<Rightarrow> mint_request \<Rightarrow> RefreshState \<Rightarrow> (SessionRefreshToken list \<times> u8) \<times> RefreshState" where
  "mint_step ed q st = mint_for_root ed (q_ord q) (q_draws q) (q_now q) (q_root q) (q_count q) (q_now_unix q) st"

primrec mint_run :: "ed25519 \<Rightarrow> mint_request list \<Rightarrow> RefreshState \<Rightarrow> (bytes option \<times> SessionRefreshToken list) list" where
  "mint_run ed [] st = []"
| "mint_run ed (q # qs) st = (q_root q, fst (fst (mint_step ed q st))) # mint_run ed qs (snd (mint_step ed q st))"

definition minted_for :: "bytes \<Rightarrow> (bytes option \<times> SessionRefreshToken list) list \<Rightarrow> nat" where
  "minted_for r xs = sum_list (map (\<lambda>(root, ts). if root = Some r then length ts else 0) xs)"

definition issued_count :: "RefreshState \<Rightarrow> bytes \<Rightarrow> nat" where
  "issued_count st r = (case hm_get (per_root st) r of None \<Rightarrow> 0 | Some (c, _) \<Rightarrow> unat c)"

text \<open>The table only knows roots of \<open>R\<close>; as long as those fit, nothing is evicted.\<close>

definition roots_within :: "bytes set \<Rightarrow> RefreshState \<Rightarrow> bool" where
  "roots_within R st \<longleftrightarrow> hm_wf (per_root st) \<and> dom (hm_get (per_root st)) \<subseteq> R"

lemma no_eviction:
  assumes "finite R" "card R \<le> REFRESH_PER_ROOT_TABLE_CAP" "roots_within R st" "root \<in> R"
  shows "evict_oldest_root ord root (per_root st) = per_root st"
proof (cases "hm_contains (per_root st) root")
  case False
  then have "dom (hm_get (per_root st)) \<subseteq> R - {root}"
    using assms(3) by (auto simp: roots_within_def hm_contains_def)
  then have "card (dom (hm_get (per_root st))) \<le> card (R - {root})" using assms(1) by (intro card_mono) auto
  also have "\<dots> < card R" using assms(1,4) by (rule card_Diff1_less)
  finally have "hm_len (per_root st) < REFRESH_PER_ROOT_TABLE_CAP"
    using assms(2,3) by (simp add: roots_within_def hm.len_card)
  then show ?thesis by (simp add: evict_oldest_root_def)
qed (simp add: evict_oldest_root_def)

lemma mint_step_counts:
  assumes "finite R" "card R \<le> REFRESH_PER_ROOT_TABLE_CAP" "roots_within R st" "set_option (q_root q) \<subseteq> R"
    and "mint_step ed q st = ((ts, status), st')"
  shows "roots_within R st'" "per_root_cap st' = per_root_cap st"
    "issued_count st' r = issued_count st r + (if q_root q = Some r then length ts else 0)"
    "issued_count st' r \<le> max (issued_count st r) (unat (per_root_cap st))"
proof -
  have "roots_within R st' \<and> per_root_cap st' = per_root_cap st \<and>
    issued_count st' r = issued_count st r + (if q_root q = Some r then length ts else 0) \<and>
    issued_count st' r \<le> max (issued_count st r) (unat (per_root_cap st))"
    using assms(5) [unfolded mint_step_def]
  proof (cases rule: mint_cases)
    case nothing
    then show ?thesis using assms(3) by simp
  next
    case (minted r' per c c')
    have "per = per_root st" using minted(1,2) assms(1-4) by (simp add: no_eviction)
    moreover have "r' \<in> R" using minted(1) assms(4) by simp
    moreover have "dom (hm_get (per_root st')) = insert r' (dom (hm_get per))" by (auto simp: minted(5) dom_def)
    moreover have "per_root_cap st' = per_root_cap st" by (subst minted(4)) simp
    ultimately show ?thesis
      using assms(3) minted
      by (auto simp: roots_within_def issued_count_def split: option.splits)
  qed
  then show "roots_within R st'" "per_root_cap st' = per_root_cap st"
    "issued_count st' r = issued_count st r + (if q_root q = Some r then length ts else 0)"
    "issued_count st' r \<le> max (issued_count st r) (unat (per_root_cap st))" by blast+
qed

lemma mint_run_counts:
  assumes "finite R" "card R \<le> REFRESH_PER_ROOT_TABLE_CAP"
  shows "roots_within R st \<Longrightarrow> (\<Union>q \<in> set qs. set_option (q_root q)) \<subseteq> R \<Longrightarrow>
    issued_count st r + minted_for r (mint_run ed qs st) \<le> max (issued_count st r) (unat (per_root_cap st))"
proof (induction qs arbitrary: st)
  case Nil
  then show ?case by (simp add: minted_for_def)
next
  case (Cons q qs)
  obtain ts status st' where m: "mint_step ed q st = ((ts, status), st')" by (metis prod.collapse)
  have "set_option (q_root q) \<subseteq> R" using Cons.prems(2) by simp
  note c = mint_step_counts [OF assms Cons.prems(1) this m]
  from Cons.IH [OF c(1)] Cons.prems(2)
  have "issued_count st' r + minted_for r (mint_run ed qs st') \<le> max (issued_count st' r) (unat (per_root_cap st))"
    using c(2) by simp
  moreover have "minted_for r (mint_run ed (q # qs) st) =
      (if q_root q = Some r then length ts else 0) + minted_for r (mint_run ed qs st')"
    by (simp add: minted_for_def m)
  ultimately show ?case using c(3,4) [of r] by auto
qed

text \<open>
  The refresh budget.  However often the sessions of a root token ask, alone or interleaved with
  others, a bridge mints at most \<open>per_root_cap\<close> refresh tokens for it, as long as no more than 65536
  different root tokens ask at all.
\<close>

lemma refresh_budget:
  assumes "card (\<Union>q \<in> set qs. set_option (q_root q)) \<le> REFRESH_PER_ROOT_TABLE_CAP"
  shows "minted_for r (mint_run ed qs (RefreshState_new en sk cap ttl)) \<le> unat cap"
proof -
  let ?R = "\<Union>q \<in> set qs. set_option (q_root q)"
  have "finite ?R" by auto
  from mint_run_counts [OF this assms, of "RefreshState_new en sk cap ttl" qs r ed]
  show ?thesis by (simp add: roots_within_def RefreshState_new_def issued_count_def dom_def)
qed

text \<open>
  The condition is needed: in a full table a request of a new root makes the bridge forget the root seen
  longest ago, which then has its whole budget again.
\<close>

lemma evicted_root_forgotten:
  assumes "refresh_enabled st" "signing_sk st \<noteq> None" "REFRESH_PER_ROOT_TABLE_CAP \<le> hm_len (per_root st)"
    and "hm_get (per_root st) new = None" "min_by_key (\<lambda>e. snd (snd e)) (ord (per_root st)) = Some (old, e)" "old \<noteq> new"
  shows "issued_count (snd (mint_for_root ed ord draws now (Some new) cnt now_unix st)) old = 0"
proof -
  obtain ts status st' where m: "mint_for_root ed ord draws now (Some new) cnt now_unix st = ((ts, status), st')"
    by (metis prod.collapse)
  have ev: "evict_oldest_root ord new (per_root st) = hm_remove old (per_root st)"
    using assms(3-5) by (simp add: evict_oldest_root_def hm_contains_def)
  have known: "hm_get (per_root (snd (mint_for_root ed ord draws now (Some new) cnt now_unix st))) new \<noteq> None"
    using assms(1,2) by (auto simp: mint_for_root_def Let_def hm_laws split: option.splits prod.splits)
  from m show ?thesis
  proof (cases rule: mint_cases)
    case nothing
    then show ?thesis using known m assms(4) by simp
  next
    case (minted r per c c')
    then have "hm_get (per_root st') old = None" using ev assms(6) by (simp add: hm_laws)
    with m show ?thesis by (simp add: issued_count_def)
  qed
qed

section \<open>Refresh tokens authenticate\<close>

lemma refresh_verifies:
  assumes "ed25519_laws ed" "length tid = 32" "accept_refresh_signed_by v = Some (ed_pk ed sk)"
    and "v_now_unix v \<le> saturating_add exp (grace_seconds v)"
  shows "\<exists>kind. verify_payload ed io opk (ed_pk ed sk) (as_wire_bytes (sign_refresh_token ed tid sk exp)) v =
      burn_token io True False tid exp kind v"
    "length (as_wire_bytes (sign_refresh_token ed tid sk exp)) = TOKEN_PAYLOAD_LEN"
proof -
  let ?t = "inner (sign_refresh_token ed tid sk exp)"
  have wf: "token_wf ?t" using assms(1,2) by (rule refresh_token_wf)
  have "verify_refresh_path ed ?t (ed_pk ed sk) = Ok Refresh"
    using assms(1) by (simp add: verify_refresh_path_def sign_refresh_token_def ed25519_laws_def encode_signed_prefix_def)
  then have "token_kind ed opk v ?t \<noteq> None" using assms(3) by (simp add: token_kind_def Let_def)
  then obtain kind where k: "token_kind ed opk v ?t = Some kind" by blast
  have "is_for_bridge ?t (ed_pk ed sk)" "\<not> is_expired ?t (v_now_unix v) (grace_seconds v)" "token_id ?t = tid" "expires_at ?t = exp"
    using assms(4) by (simp_all add: sign_refresh_token_def is_for_bridge_def is_expired_def)
  then show "\<exists>kind. verify_payload ed io opk (ed_pk ed sk) (as_wire_bytes (sign_refresh_token ed tid sk exp)) v =
      burn_token io True False tid exp kind v"
    using k by (auto simp: as_wire_bytes_def verify_payload_def verify_legacy_token_def token_decode_encode [OF wf]
        length_token_encode [OF wf] token_lens TOKEN_PAYLOAD_LEN_def)
  show "length (as_wire_bytes (sign_refresh_token ed tid sk exp)) = TOKEN_PAYLOAD_LEN"
    by (simp add: as_wire_bytes_def length_token_encode [OF wf] token_lens TOKEN_PAYLOAD_LEN_def)
qed

text \<open>
  C31: refresh tokens carry a client to its next session.  What the bridge mints for a session is what the
  client decodes from the response, and each of these tokens, presented to a responder of the same
  bridge before the life of the token and the grace period end and while it is new to the replay set,
  completes a handshake in which both sides agree.
\<close>

theorem refresh_reauthenticates:
  assumes "noise_xx (noise_ops cr) ni nr rpk" "kem_laws (kem_ops cr)" "ed25519_laws (ed_ops cr)"
    and "mint_for_root (ed_ops cr) ord draws now root cnt now_unix st = ((ts, status), st')"
    and "\<forall>tid. Some tid \<in> set draws \<longrightarrow> length tid = 32" "signing_sk st = Some sk"
    and "accept_refresh_signed_by v = Some (ed_pk (ed_ops cr) sk)" "rs_ok (backend_set (replay_set v))"
    and "v_now_unix v \<le> saturating_add (saturating_add now_unix (ttl_secs st)) (grace_seconds v)"
  shows "\<exists>resp. RefreshResponse_decode (RefreshResponse_encode \<lparr>rs_status = status, rs_tokens = ts\<rparr>) = Ok resp \<and> rs_tokens resp = ts \<and>
    (\<forall>t \<in> set (rs_tokens resp).
      fst (Backend_check_and_insert io (replay_set v) (token_id (inner t)) (saturating_add (expires_at (inner t)) (grace_seconds v)) (v_now_unix v)) \<longrightarrow>
      (\<exists>ki kr v'. handshake_run cr io rnd (Initiator_new cr ni dk rpk (inner t)) (Responder_new nr (ed_pk (ed_ops cr) sk) opk) v = Some (ki, kr, v') \<and>
        session_binding ki = session_binding kr \<and> keys_mlkem_ss ki = keys_mlkem_ss kr \<and>
        last_accepted_token_id v' = Some (token_id (inner t))))"
proof -
  let ?exp = "saturating_add now_unix (ttl_secs st)"
  have made: "\<exists>tid. length tid = 32 \<and> t = sign_refresh_token (ed_ops cr) tid sk ?exp" if t: "t \<in> set ts" for t
    using assms(4) t by (rule mint_some) (use assms(5,6) in auto)
  have "length ts \<le> 4" using assms(4) by (cases rule: mint_cases) simp_all
  moreover have "list_all (\<lambda>t. token_wf (inner t)) ts"
    using made refresh_token_wf [OF assms(3)] by (fastforce simp: list_all_iff)
  ultimately have dec: "RefreshResponse_decode (RefreshResponse_encode \<lparr>rs_status = status, rs_tokens = ts\<rparr>) = Ok \<lparr>rs_status = status, rs_tokens = ts\<rparr>"
    by (intro refresh_response_round_trip) simp_all
  have "\<exists>ki kr v'. handshake_run cr io rnd (Initiator_new cr ni dk rpk (inner t)) (Responder_new nr (ed_pk (ed_ops cr) sk) opk) v = Some (ki, kr, v') \<and>
        session_binding ki = session_binding kr \<and> keys_mlkem_ss ki = keys_mlkem_ss kr \<and> last_accepted_token_id v' = Some (token_id (inner t))"
    if t: "t \<in> set ts" and fresh: "fst (Backend_check_and_insert io (replay_set v) (token_id (inner t))
      (saturating_add (expires_at (inner t)) (grace_seconds v)) (v_now_unix v))" for t
  proof -
    obtain tid where tid: "length tid = 32" "t = sign_refresh_token (ed_ops cr) tid sk ?exp" using made [OF t] by blast
    have f: "token_id (inner t) = tid" "expires_at (inner t) = ?exp" by (simp_all add: tid(2) sign_refresh_token_def)
    obtain kind where k: "verify_payload (ed_ops cr) io opk (ed_pk (ed_ops cr) sk) (as_wire_bytes t) v = burn_token io True False tid ?exp kind v"
      "length (as_wire_bytes t) = TOKEN_PAYLOAD_LEN"
      using refresh_verifies(1) [OF assms(3) tid(1) assms(7,9), of io opk] refresh_verifies(2) [OF assms(3) tid(1) assms(7,9)] tid(2)
      by blast
    obtain v' where v': "burn_token io True False tid ?exp kind v = (Ok (), v')" "last_accepted_token_id v' = Some tid"
      using burn_fresh [OF assms(8) fresh [unfolded f]] by blast
    have i: "Initiator_new cr ni dk rpk (inner t) = (Initiator_new_common cr ni dk rpk)\<lparr>token_bytes := Some (as_wire_bytes t)\<rparr>"
      by (simp add: Initiator_new_def as_wire_bytes_def)
    show ?thesis
      using honest_run [OF assms(1,2), of "as_wire_bytes t" io opk "ed_pk (ed_ops cr) sk" v v' rnd dk] k v' by (simp add: i f) blast
  qed
  with dec show ?thesis by simp
qed

section \<open>Concrete runs\<close>

definition demo_refresh :: RefreshState where
  "demo_refresh = RefreshState_new True (Some [7]) 3 3600"

definition demo_request :: "bytes \<Rightarrow> mint_request" where
  "demo_request r = \<lparr>q_ord = id, q_draws = [Some (replicate 32 1), Some (replicate 32 3)], q_now = 5, q_root = Some r, q_count = 2, q_now_unix = 1000\<rparr>"

lemma refresh_budget_witness:
  "card (\<Union>q \<in> set [demo_request [1], demo_request [2], demo_request [1]]. set_option (q_root q)) \<le> REFRESH_PER_ROOT_TABLE_CAP \<and>
   minted_for [1] (mint_run demo_ed [demo_request [1], demo_request [2], demo_request [1]] (RefreshState_new True (Some [7]) 3 3600)) \<le> 3"
proof -
  have "card (\<Union>q \<in> set [demo_request [1], demo_request [2], demo_request [1]]. set_option (q_root q)) \<le> REFRESH_PER_ROOT_TABLE_CAP"
    by (simp add: demo_request_def REFRESH_PER_ROOT_TABLE_CAP_def card_insert_if)
  with refresh_budget [OF this, of "[1]" demo_ed True "Some [7]" 3 3600] show ?thesis by simp
qed

lemma demo_mint:
  "mint_for_root demo_ed id [Some (replicate 32 1), Some (replicate 32 3)] 5 (Some [1]) 2 500 demo_refresh =
     (([sign_refresh_token demo_ed (replicate 32 1) [7] 4100, sign_refresh_token demo_ed (replicate 32 3) [7] 4100], REFRESH_STATUS_OK),
      demo_refresh\<lparr>per_root := [([1], 2, 5)]\<rparr>)"
proof -
  have ev: "evict_oldest_root id [1] [] = []" by (simp add: evict_oldest_root_def REFRESH_PER_ROOT_TABLE_CAP_def hm_len_def)
  have w: "saturating_sub 3 0 = (3 :: u32)"
    "unat (min (min 2 (ucast REFRESH_MAX_PER_REQUEST)) (3 :: u32)) = Suc (Suc 0)"
    "saturating_add 500 3600 = (4100 :: u64)" "saturating_add 0 2 = (2 :: u32)"
    by (simp_all add: saturating_sub_def saturating_add_def REFRESH_MAX_PER_REQUEST_def min_def)
  show ?thesis
    by (simp add: mint_for_root_def demo_refresh_def RefreshState_new_def ev w Let_def hm_insert_def)
qed

theorem refresh_reauthenticates_witness:
  "\<exists>ki kr v'. handshake_run demo_crypto demo_io [5]
      (Initiator_new demo_crypto (0, []) [4] [9] (inner (sign_refresh_token demo_ed (replicate 32 3) [7] 4100)))
      (Responder_new (0, []) (ed_pk demo_ed [7]) [8]) (with_refresh_issuer (ed_pk demo_ed [7]) (demo_verifier 900)) = Some (ki, kr, v') \<and>
    session_binding ki = session_binding kr"
proof -
  let ?v = "with_refresh_issuer (ed_pk demo_ed [7]) (demo_verifier 900)"
  let ?t = "sign_refresh_token demo_ed (replicate 32 3) [7] 4100"
  have c: "noise_ops demo_crypto = demo_snow" "kem_ops demo_crypto = demo_kem" "ed_ops demo_crypto = demo_ed"
    by (simp_all add: demo_crypto_def)
  have v: "accept_refresh_signed_by ?v = Some (ed_pk demo_ed [7])" "rs_ok (backend_set (replay_set ?v))"
    "v_now_unix ?v \<le> saturating_add (saturating_add 500 (ttl_secs demo_refresh)) (grace_seconds ?v)"
    by (simp_all add: with_refresh_issuer_def demo_verifier_def TokenVerifier_new_def backend_set_def rs_ok_def ReplaySet_new_def
        demo_refresh_def RefreshState_new_def saturating_add_def TOKEN_GRACE_SECONDS_def)
  have fresh: "fst (Backend_check_and_insert demo_io (replay_set ?v) (token_id (inner ?t)) (saturating_add (expires_at (inner ?t)) (grace_seconds ?v)) (v_now_unix ?v))"
    by (simp add: with_refresh_issuer_def demo_verifier_def TokenVerifier_new_def ReplaySet_new_def Backend_check_and_insert_def
        ReplaySet_check_and_insert_def hm_eval)
  have d: "\<forall>tid. Some tid \<in> set [Some (replicate 32 1), Some (replicate 32 3)] \<longrightarrow> length tid = 32" by simp
  have sk: "signing_sk demo_refresh = Some [7]" by (simp add: demo_refresh_def RefreshState_new_def)
  from refresh_reauthenticates [of demo_crypto "(0, [])" "(0, [])" "[9]", unfolded c, OF demo_laws demo_mint d sk v, of demo_io "[5]" "[4]" "[8]"]
  show ?thesis using fresh by fastforce
qed

end
