(* ===== verification/Claim_Service.thy ===== *)
theory Claim_Service
  imports Refresh_Service
begin

text \<open>
  The one-time redemption of invites: the request and response of \<open>crates/discovery/src/claim.rs\<close>, the
  persistent claim log of \<open>crates/bridge/src/claim_log.rs\<close>, a record log like the replay log, and
  \<open>ClaimState\<close> with its handler from \<open>crates/bridge/src/main.rs\<close>.  Shown here: a claim id and a root
  token are each redeemed at most once, across restarts.
\<close>

section \<open>Wire format\<close>

definition CLAIM_VERSION :: u8 where "CLAIM_VERSION = 0x01"
definition CLAIM_CMD_REDEEM :: u8 where "CLAIM_CMD_REDEEM = 0x01"
definition CLAIM_STATUS_OK :: u8 where "CLAIM_STATUS_OK = 0x00"
definition CLAIM_STATUS_ALREADY_CLAIMED :: u8 where "CLAIM_STATUS_ALREADY_CLAIMED = 0x01"
definition CLAIM_STATUS_CAPACITY :: u8 where "CLAIM_STATUS_CAPACITY = 0x02"
definition CLAIM_STATUS_POLICY :: u8 where "CLAIM_STATUS_POLICY = 0x03"
definition CLAIM_STATUS_BAD_REQUEST :: u8 where "CLAIM_STATUS_BAD_REQUEST = 0x04"
definition CLAIM_STATUS_INTERNAL :: u8 where "CLAIM_STATUS_INTERNAL = 0x05"
definition CLAIM_REQUEST_LEN :: nat where "CLAIM_REQUEST_LEN = 4 + 32"

lemmas claim_status = CLAIM_STATUS_OK_def CLAIM_STATUS_ALREADY_CLAIMED_def CLAIM_STATUS_CAPACITY_def CLAIM_STATUS_POLICY_def
  CLAIM_STATUS_BAD_REQUEST_def CLAIM_STATUS_INTERNAL_def

text \<open>BLAKE3's \<open>derive_key\<close> (\<open>dk context key\<close>) and keyed hash (\<open>kh key message\<close>) are parameters.\<close>

definition claim_observation_tag :: "(bytes \<Rightarrow> bytes \<Rightarrow> bytes) \<Rightarrow> (bytes \<Rightarrow> bytes \<Rightarrow> bytes) \<Rightarrow> bytes \<Rightarrow> bytes \<Rightarrow> bytes" where
  "claim_observation_tag dk kh cohort_key claim_id =
     kh (dk (ascii ''mirage cohort claim-observation tag v1 2026-06-02'') cohort_key) claim_id"

definition derive_claim_id :: "(bytes \<Rightarrow> bytes \<Rightarrow> bytes) \<Rightarrow> (bytes \<Rightarrow> bytes \<Rightarrow> bytes) \<Rightarrow> bytes \<Rightarrow> bytes \<Rightarrow> bytes" where
  "derive_claim_id dk kh claim_secret bridge_pk =
     kh (dk (ascii ''mirage per-bridge claim-id v1 2026-07-11'') claim_secret) bridge_pk"

record ClaimRequest =
  cq_version :: u8
  cq_cmd :: u8
  refresh_count :: u8
  claim_id :: bytes

definition ClaimRequest_redeem :: "bytes \<Rightarrow> u8 \<Rightarrow> ClaimRequest" where
  "ClaimRequest_redeem cid n =
     \<lparr>cq_version = CLAIM_VERSION, cq_cmd = CLAIM_CMD_REDEEM, refresh_count = min n REFRESH_MAX_PER_REQUEST, claim_id = cid\<rparr>"

definition ClaimRequest_encode :: "ClaimRequest \<Rightarrow> bytes" where
  "ClaimRequest_encode r = [cq_version r, cq_cmd r, refresh_count r, 0] @ claim_id r"

definition ClaimRequest_decode :: "bytes \<Rightarrow> DiscoveryError + ClaimRequest" where
  "ClaimRequest_decode buf =
     (if length buf \<noteq> CLAIM_REQUEST_LEN then Err (Wire ''claim: request length'')
      else if buf ! 0 \<noteq> CLAIM_VERSION then Err (Wire ''claim: unsupported version'')
      else if buf ! 1 \<noteq> CLAIM_CMD_REDEEM then Err (Wire ''claim: unknown cmd'')
      else if REFRESH_MAX_PER_REQUEST < buf ! 2 then Err (Wire ''claim: refresh_count over cap'')
      else if buf ! 3 \<noteq> 0 then Err (Wire ''claim: reserved byte nonzero'')
      else Ok \<lparr>cq_version = buf ! 0, cq_cmd = buf ! 1, refresh_count = buf ! 2, claim_id = take 32 (drop 4 buf)\<rparr>)"

record ClaimResponse =
  cr_status :: u8
  cr_tokens :: "SessionRefreshToken list"

definition ClaimResponse_empty :: "u8 \<Rightarrow> ClaimResponse" where
  "ClaimResponse_empty st = \<lparr>cr_status = st, cr_tokens = []\<rparr>"

definition ClaimResponse_encode :: "ClaimResponse \<Rightarrow> bytes" where
  "ClaimResponse_encode r =
     (let n = min (length (cr_tokens r)) 255
      in [CLAIM_VERSION, cr_status r, word_of_nat n] @ concat (map as_wire_bytes (take n (cr_tokens r))))"

definition ClaimResponse_decode :: "bytes \<Rightarrow> DiscoveryError + ClaimResponse" where
  "ClaimResponse_decode buf =
     (if length buf < 3 then Err (Wire ''claim: response header too short'')
      else if buf ! 0 \<noteq> CLAIM_VERSION then Err (Wire ''claim: unsupported version'')
      else
        let cnt = unat (buf ! 2) in
        if unat REFRESH_MAX_PER_REQUEST < cnt then Err (Wire ''claim: token count over cap'')
        else if length buf \<noteq> 3 + cnt * TOKEN_LEN then Err (Wire ''claim: response body length'')
        else case decode_tokens buf cnt 3 [] of
               Inl e \<Rightarrow> Err e
             | Inr tokens \<Rightarrow> Ok \<lparr>cr_status = buf ! 1, cr_tokens = tokens\<rparr>)"

lemma claim_request_round_trip:
  "length cid = 32 \<Longrightarrow> ClaimRequest_decode (ClaimRequest_encode (ClaimRequest_redeem cid n)) = Ok (ClaimRequest_redeem cid n)"
  by (auto simp: ClaimRequest_decode_def ClaimRequest_encode_def ClaimRequest_redeem_def CLAIM_REQUEST_LEN_def min_def
      CLAIM_VERSION_def CLAIM_CMD_REDEEM_def)

section \<open>The claim log\<close>

definition MCRL_MAGIC :: bytes where "MCRL_MAGIC = [0x4D, 0x43, 0x52, 0x4C]"
definition MCRL_VERSION :: u8 where "MCRL_VERSION = 0x01"
definition MCRL_HEADER_LEN :: nat where "MCRL_HEADER_LEN = 8"
definition MCRL_RECORD_LEN :: nat where "MCRL_RECORD_LEN = 64"

lemmas claim_log_consts = MCRL_MAGIC_def MCRL_VERSION_def MCRL_HEADER_LEN_def MCRL_RECORD_LEN_def

datatype ClaimLogError = ClaimIo | ClaimBadHeader

type_synonym ClaimRecord = "bytes \<times> bytes"
type_synonym PersistentClaimLog = BufferedLog

definition claim_header :: bytes where
  "claim_header = MCRL_MAGIC @ [MCRL_VERSION, 0, 0, 0]"

definition claim_header_ok :: "bytes \<Rightarrow> bool" where
  "claim_header_ok hdr = (\<not> (length hdr < MCRL_HEADER_LEN \<or> take 4 hdr \<noteq> MCRL_MAGIC \<or> hdr ! 4 \<noteq> MCRL_VERSION))"

text \<open>\<open>ok\<close> tells whether writing and syncing a new header succeeds.\<close>

definition claim_open :: "bool \<Rightarrow> bytes option \<Rightarrow> bool \<Rightarrow> ClaimLogError + PersistentClaimLog" where
  "claim_open ok file fsync =
     (let fresh = (if ok then Inr claim_header else Inl ClaimIo);
          start = (case file of
                     None \<Rightarrow> fresh
                   | Some d \<Rightarrow>
                       if d = [] then fresh
                       else if \<not> claim_header_ok (take MCRL_HEADER_LEN d) then Inl ClaimBadHeader
                       else Inr d)
      in case start of
           Inl e \<Rightarrow> Inl e
         | Inr d \<Rightarrow> Inr \<lparr>lg_disk = truncate_torn MCRL_RECORD_LEN d, lg_buf = [], fsync_every_write = fsync\<rparr>)"

definition claim_record :: "ClaimRecord \<Rightarrow> bytes" where
  "claim_record r = fst r @ snd r"

definition claim_append :: "append_io \<Rightarrow> ClaimRecord \<Rightarrow> PersistentClaimLog \<Rightarrow> bool \<times> PersistentClaimLog" where
  "claim_append io r lg = append_record MCRL_RECORD_LEN io (claim_record r) lg"

function load_claims :: "bytes \<Rightarrow> ClaimRecord list" where
  "load_claims bs =
     (if length bs < MCRL_RECORD_LEN then []
      else
        let rec = take MCRL_RECORD_LEN bs
        in (take 32 rec, drop 32 rec) # load_claims (drop MCRL_RECORD_LEN bs))"
  by pat_completeness auto
termination by (relation "measure length") (auto simp: MCRL_RECORD_LEN_def)

declare load_claims.simps [simp del]

text \<open>\<open>ok\<close> is false when a read fails.\<close>

definition claim_load :: "bool \<Rightarrow> bytes option \<Rightarrow> ClaimLogError + ClaimRecord list" where
  "claim_load ok file =
     (case file of
        None \<Rightarrow> Inr []
      | Some d \<Rightarrow>
          if \<not> ok then Inl ClaimIo
          else if \<not> claim_header_ok (take MCRL_HEADER_LEN d) then Inl ClaimBadHeader
          else Inr (load_claims (drop MCRL_HEADER_LEN d)))"

definition claim_ok :: "ClaimRecord \<Rightarrow> bool" where
  "claim_ok r \<longleftrightarrow> length (fst r) = 32 \<and> length (snd r) = 32"

interpretation mcrl: record_log claim_header claim_record MCRL_RECORD_LEN claim_ok
  by unfold_locales (simp_all add: claim_header_def claim_log_consts BUF_CAPACITY_def claim_record_def claim_ok_def)

abbreviation claims_synced :: "ClaimRecord list \<Rightarrow> PersistentClaimLog \<Rightarrow> bool" where
  "claims_synced \<equiv> synced claim_header claim_record claim_ok"

lemma load_claims_concat:
  "list_all claim_ok rs \<Longrightarrow> load_claims (concat (map claim_record rs)) = rs"
proof (induction rs)
  case Nil
  show ?case by (simp add: load_claims.simps MCRL_RECORD_LEN_def)
next
  case (Cons r rs)
  then have len: "length (claim_record r) = 64" "take 32 (claim_record r) = fst r" "drop 32 (claim_record r) = snd r"
    by (simp_all add: claim_ok_def claim_record_def)
  with Cons show ?case by (subst load_claims.simps) (simp add: MCRL_RECORD_LEN_def)
qed

lemma claim_header_fine [simp]: "length claim_header = 8" "claim_header_ok claim_header" "claim_header \<noteq> []"
  by (simp_all add: claim_header_def claim_header_ok_def claim_log_consts)

lemma reload_claims:
  assumes "claims_synced rs lg"
  shows "claim_load True (Some (lg_disk lg)) = Inr rs" "claim_open w (Some (lg_disk lg)) fs = Inr (lg\<lparr>fsync_every_write := fs\<rparr>)"
proof -
  have "list_all claim_ok rs" using assms by (simp add: synced_def)
  from load_claims_concat [OF this] mcrl.rec_truncate [OF this, of "[]"] assms
  show "claim_load True (Some (lg_disk lg)) = Inr rs" "claim_open w (Some (lg_disk lg)) fs = Inr (lg\<lparr>fsync_every_write := fs\<rparr>)"
    by (cases lg; simp add: synced_def claim_load_def claim_open_def claim_log_consts Let_def)+
qed

section \<open>The claim state\<close>

text \<open>A \<open>HashSet\<close> is a map to the unit type, as in the standard library.\<close>

record ClaimState =
  claim_enabled :: bool
  capacity :: nat
  claimed :: "(bytes, unit) hashmap"
  used_roots :: "(bytes, unit) hashmap"
  claim_log :: "PersistentClaimLog option"

text \<open>\<open>file\<close> is \<open>None\<close> without a configured path, and otherwise the file, if any, behind it.\<close>

definition ClaimState_new_with_optional_log ::
  "bool \<Rightarrow> bool \<Rightarrow> bool \<Rightarrow> nat \<Rightarrow> bytes option option \<Rightarrow> bool \<Rightarrow> ClaimState" where
  "ClaimState_new_with_optional_log load_ok open_ok en cap path fsync =
     (let records = (case path of
                       None \<Rightarrow> []
                     | Some file \<Rightarrow> (case claim_load load_ok file of Inr rs \<Rightarrow> rs | Inl _ \<Rightarrow> []));
          log = (case path of
                   None \<Rightarrow> None
                 | Some file \<Rightarrow> (case claim_open open_ok file fsync of Inr lg \<Rightarrow> Some lg | Inl _ \<Rightarrow> None))
      in \<lparr>claim_enabled = en, capacity = cap,
          claimed = fold (\<lambda>(cid, rid). hm_insert cid ()) records [],
          used_roots = fold (\<lambda>(cid, rid). hm_insert rid ()) records [],
          claim_log = log\<rparr>)"

definition try_claim :: "append_io \<Rightarrow> bytes \<Rightarrow> bytes option \<Rightarrow> ClaimState \<Rightarrow> u8 \<times> ClaimState" where
  "try_claim io cid root_token_id st =
     (if \<not> claim_enabled st then (CLAIM_STATUS_POLICY, st)
      else case root_token_id of
        None \<Rightarrow> (CLAIM_STATUS_POLICY, st)
      | Some root \<Rightarrow>
          if hm_contains (used_roots st) root then (CLAIM_STATUS_ALREADY_CLAIMED, st)
          else if capacity st \<le> hm_len (used_roots st) then (CLAIM_STATUS_CAPACITY, st)
          else if hm_contains (claimed st) cid then (CLAIM_STATUS_ALREADY_CLAIMED, st)
          else if capacity st \<le> hm_len (claimed st) then (CLAIM_STATUS_CAPACITY, st)
          else
            let (ok, log') = (case claim_log st of
                                None \<Rightarrow> (True, None)
                              | Some lg \<Rightarrow> (case claim_append io (cid, root) lg of (ok, lg') \<Rightarrow> (ok, Some lg')))
            in if \<not> ok then (CLAIM_STATUS_INTERNAL, st\<lparr>claim_log := log'\<rparr>)
               else (CLAIM_STATUS_OK,
                     st\<lparr>claim_log := log', claimed := hm_insert cid () (claimed st), used_roots := hm_insert root () (used_roots st)\<rparr>))"

text \<open>
  The handler: \<open>buf\<close> is the request read from the session, \<open>None\<close> on a timeout or read error.  The
  result is what it writes, and the claim id it reports to the observer.
\<close>

definition handle_claim_request ::
  "ed25519 \<Rightarrow> root_iteration \<Rightarrow> bytes option list \<Rightarrow> instant \<Rightarrow> u64 \<Rightarrow> append_io \<Rightarrow> bytes option \<Rightarrow> AcceptedTokenKind option \<Rightarrow>
     bytes option \<Rightarrow> ClaimState \<Rightarrow> RefreshState \<Rightarrow> (bytes option \<times> bytes option) \<times> ClaimState \<times> RefreshState" where
  "handle_claim_request ed ord draws now now_unix io tok kind buf cs rf =
     (case buf of
        None \<Rightarrow> ((None, None), cs, rf)
      | Some bs \<Rightarrow>
        (case ClaimRequest_decode bs of
           Inl _ \<Rightarrow> ((Some (ClaimResponse_encode (ClaimResponse_empty CLAIM_STATUS_BAD_REQUEST)), None), cs, rf)
         | Inr req \<Rightarrow>
             let (status, cs') = try_claim io (claim_id req) tok cs;
                 refresh_authenticated = (kind = Some Refresh);
                 (tokens, rf') =
                   (if \<not> refresh_authenticated \<and> status = CLAIM_STATUS_OK \<and> refresh_count req > 0
                    then (let ((t, _), rf') = mint_for_root ed ord draws now tok (refresh_count req) now_unix rf in (t, rf'))
                    else ([], rf))
             in ((Some (ClaimResponse_encode \<lparr>cr_status = status, cr_tokens = tokens\<rparr>),
                  if status = CLAIM_STATUS_OK then Some (claim_id req) else None), cs', rf')))"

section \<open>At most once\<close>

text \<open>
  The life of a bridge: claims, each with the outcomes of its I/O, and restarts, which lose everything but
  the file.  A step yields the claim it accepted, if any.
\<close>

datatype ClaimEvent = Claim append_io bytes "bytes option" | Restart bool

primrec claim_step :: "ClaimEvent \<Rightarrow> ClaimState \<Rightarrow> ClaimRecord list \<times> ClaimState" where
  "claim_step (Claim io cid root) st =
     (let (status, st') = try_claim io cid root st
      in (if status = CLAIM_STATUS_OK then [(cid, the root)] else [], st'))"
| "claim_step (Restart fsync) st =
     ([], ClaimState_new_with_optional_log True True (claim_enabled st) (capacity st) (Some (map_option lg_disk (claim_log st))) fsync)"

primrec claim_run :: "ClaimEvent list \<Rightarrow> ClaimState \<Rightarrow> ClaimRecord list" where
  "claim_run [] st = []"
| "claim_run (ev # evs) st = fst (claim_step ev st) @ claim_run evs (snd (claim_step ev st))"

primrec claim_event_ok :: "ClaimEvent \<Rightarrow> bool" where
  "claim_event_ok (Claim io cid root) \<longleftrightarrow> clean_io io \<and> length cid = 32 \<and> (\<forall>r. root = Some r \<longrightarrow> length r = 32)"
| "claim_event_ok (Restart fsync) \<longleftrightarrow> True"

text \<open>The file holds a record of everything the sets hold.\<close>

definition claim_inv :: "ClaimState \<Rightarrow> bool" where
  "claim_inv st \<longleftrightarrow> (\<exists>lg rs. claim_log st = Some lg \<and> claims_synced rs lg \<and>
     dom (hm_get (claimed st)) \<subseteq> fst ` set rs \<and> dom (hm_get (used_roots st)) \<subseteq> snd ` set rs)"

lemma dom_fold_insert:
  "dom (hm_get (fold (\<lambda>x. hm_insert (f x) ()) xs m)) = dom (hm_get m) \<union> f ` set xs"
  by (induction xs arbitrary: m) (auto simp: hm.keys_ins)

lemma unit_option [simp]: "x \<noteq> Some () \<longleftrightarrow> x = None"
  by (cases x) auto

lemma try_claim_ok:
  assumes "try_claim io cid root st = (CLAIM_STATUS_OK, st')"
  obtains r where "root = Some r" "hm_get (claimed st) cid = None" "hm_get (used_roots st) r = None"
    "claimed st' = hm_insert cid () (claimed st)" "used_roots st' = hm_insert r () (used_roots st)"
    "claim_log st = None \<and> claim_log st' = None \<or>
     (\<exists>lg lg'. claim_log st = Some lg \<and> claim_append io (cid, r) lg = (True, lg') \<and> claim_log st' = Some lg')"
  using assms
  by (auto simp: try_claim_def hm_contains_def claim_status Let_def split: if_splits option.splits prod.splits)

lemma try_claim_refused:
  assumes "try_claim io cid root st = (status, st')" "status \<noteq> CLAIM_STATUS_OK"
  shows "claimed st' = claimed st \<and> used_roots st' = used_roots st \<and>
    (claim_log st' = claim_log st \<or>
     (\<exists>lg lg' r. root = Some r \<and> claim_log st = Some lg \<and> claim_append io (cid, r) lg = (False, lg') \<and> claim_log st' = Some lg'))"
  using assms by (auto simp: try_claim_def Let_def split: if_splits option.splits prod.splits)

lemma claim_step_inv:
  assumes "claim_inv st" "claim_event_ok ev" "claim_step ev st = (acc, st')"
  shows "claim_inv st' \<and> dom (hm_get (claimed st)) \<union> fst ` set acc \<subseteq> dom (hm_get (claimed st')) \<and>
    dom (hm_get (used_roots st)) \<union> snd ` set acc \<subseteq> dom (hm_get (used_roots st')) \<and>
    fst ` set acc \<inter> dom (hm_get (claimed st)) = {} \<and> snd ` set acc \<inter> dom (hm_get (used_roots st)) = {} \<and>
    distinct (map fst acc) \<and> distinct (map snd acc)"
proof -
  obtain lg rs where l: "claim_log st = Some lg" "claims_synced rs lg" "dom (hm_get (claimed st)) \<subseteq> fst ` set rs"
    "dom (hm_get (used_roots st)) \<subseteq> snd ` set rs"
    using assms(1) by (auto simp: claim_inv_def)
  show ?thesis
  proof (cases ev)
    case (Claim io cid root)
    obtain status where t: "try_claim io cid root st = (status, st')" "acc = (if status = CLAIM_STATUS_OK then [(cid, the root)] else [])"
      using assms(3) Claim by (auto simp: Let_def split: prod.splits)
    have io: "clean_io io" "length cid = 32" "\<And>r. root = Some r \<Longrightarrow> length r = 32" using assms(2) Claim by auto
    show ?thesis
    proof (cases "status = CLAIM_STATUS_OK")
      case True
      obtain r lg' where r: "root = Some r" "hm_get (claimed st) cid = None" "hm_get (used_roots st) r = None"
        "claimed st' = hm_insert cid () (claimed st)" "used_roots st' = hm_insert r () (used_roots st)"
        "claim_append io (cid, r) lg = (True, lg')" "claim_log st' = Some lg'"
        by (rule try_claim_ok [OF t(1) [unfolded True]]) (use l(1) in auto)
      have "claims_synced (rs @ [(cid, r)]) lg'"
        using mcrl.rec_append_ok [OF l(2)] io(2,3) r(1,6) by (simp add: claim_append_def claim_ok_def)
      moreover have "dom (hm_get (claimed st')) \<subseteq> fst ` set (rs @ [(cid, r)])" "dom (hm_get (used_roots st')) \<subseteq> snd ` set (rs @ [(cid, r)])"
        using l(3,4) by (auto simp: r(4,5) hm.keys_ins)
      ultimately have "claim_inv st'" using r(7) unfolding claim_inv_def by blast
      then show ?thesis using r t(2) True by (auto simp: hm.keys_ins)
    next
      case False
      have same: "claimed st' = claimed st" "used_roots st' = used_roots st" using try_claim_refused [OF t(1) False] by auto
      have "\<exists>lg' rs'. claim_log st' = Some lg' \<and> claims_synced rs' lg' \<and> set rs \<subseteq> set rs'"
      proof (cases "claim_log st' = claim_log st")
        case True
        with l(1,2) show ?thesis by auto
      next
        case False
        with try_claim_refused [OF t(1) \<open>status \<noteq> CLAIM_STATUS_OK\<close>] l(1) obtain r lg' where
          r: "root = Some r" "claim_append io (cid, r) lg = (False, lg')" "claim_log st' = Some lg'" by auto
        have "claim_ok (cid, r)" using io(2,3) r(1) by (simp add: claim_ok_def)
        from mcrl.rec_append_clean [OF l(2) this io(1) r(2) [unfolded claim_append_def]] r(3) show ?thesis by auto
      qed
      then have "claim_inv st'" using l(3,4) unfolding claim_inv_def same by (meson image_mono order.trans)
      then show ?thesis using t(2) False by (simp add: same)
    qed
  next
    case (Restart fs)
    have st': "st' = ClaimState_new_with_optional_log True True (claim_enabled st) (capacity st) (Some (Some (lg_disk lg))) fs" "acc = []"
      using assms(3) Restart l(1) by auto
    let ?lg = "lg\<lparr>fsync_every_write := fs\<rparr>"
    have s: "claim_log st' = Some ?lg" "claimed st' = fold (\<lambda>x. hm_insert (fst x) ()) rs []" "used_roots st' = fold (\<lambda>x. hm_insert (snd x) ()) rs []"
      by (simp_all add: st'(1) ClaimState_new_with_optional_log_def reload_claims [OF l(2)] case_prod_unfold)
    have d: "dom (hm_get (claimed st')) = fst ` set rs" "dom (hm_get (used_roots st')) = snd ` set rs"
      by (simp_all add: s(2,3) dom_fold_insert dom_def [of "hm_get []"])
    have "claims_synced rs ?lg" using l(2) by (simp add: synced_def)
    then have "claim_inv st'" unfolding claim_inv_def using s(1) d by blast
    then show ?thesis using l(3,4) d st'(2) by simp
  qed
qed

lemma disjoint_step: "C \<union> A \<subseteq> C' \<Longrightarrow> A \<inter> C = {} \<Longrightarrow> B \<inter> C' = {} \<Longrightarrow> A \<inter> B = {} \<and> (A \<union> B) \<inter> C = {}"
  by blast

lemma claim_run_distinct:
  "claim_inv st \<Longrightarrow> \<forall>ev \<in> set evs. claim_event_ok ev \<Longrightarrow>
     distinct (map fst (claim_run evs st)) \<and> distinct (map snd (claim_run evs st)) \<and>
     fst ` set (claim_run evs st) \<inter> dom (hm_get (claimed st)) = {} \<and>
     snd ` set (claim_run evs st) \<inter> dom (hm_get (used_roots st)) = {}"
proof (induction evs arbitrary: st)
  case (Cons ev evs)
  obtain acc st' where s: "claim_step ev st = (acc, st')" by fastforce
  have "claim_event_ok ev" using Cons.prems(2) by simp
  note i = claim_step_inv [OF Cons.prems(1) this s]
  have ih: "distinct (map fst (claim_run evs st'))" "distinct (map snd (claim_run evs st'))"
    "fst ` set (claim_run evs st') \<inter> dom (hm_get (claimed st')) = {}" "snd ` set (claim_run evs st') \<inter> dom (hm_get (used_roots st')) = {}"
    using Cons.IH [of st'] i Cons.prems(2) by simp_all
  from i have f: "dom (hm_get (claimed st)) \<union> fst ` set acc \<subseteq> dom (hm_get (claimed st'))" "fst ` set acc \<inter> dom (hm_get (claimed st)) = {}"
    "dom (hm_get (used_roots st)) \<union> snd ` set acc \<subseteq> dom (hm_get (used_roots st'))" "snd ` set acc \<inter> dom (hm_get (used_roots st)) = {}"
    "distinct (map fst acc)" "distinct (map snd acc)"
    by - (elim conjE, assumption)+
  from disjoint_step [OF f(1,2) ih(3)] disjoint_step [OF f(3,4) ih(4)] f(5,6) ih(1,2) show ?case by (simp add: s image_Un)
qed simp



end
