(* ===== verification/Session_Frames.thy ===== *)
theory Session_Frames
  imports Session_Handshake
begin

text \<open>
  The framing of an established session (\<open>crates/session/src/frames.rs\<close>): every frame is sealed by the
  Noise transport and then by an AEAD whose keys come from the ML-KEM secret, and the AEAD keys are
  ratcheted from epoch to epoch.  BLAKE3, HKDF, the AEAD and the Noise transport are parameters.

  The theory shows that no frame position is ever sealed twice, and it determines exactly which frames a
  peer can open when both ends ratchet on their own clocks: those at most one epoch behind it.
\<close>

unbundle bit_operations_syntax

section \<open>Parameters\<close>

text \<open>
  HKDF-SHA256 (\<open>from_prk\<close> and \<open>expand\<close>), ChaCha20-Poly1305 on key, nonce, associated data and message, and
  the reading and writing of messages by a Noise transport state.
\<close>

record 't frame_crypto =
  fc_blake3 :: "bytes \<Rightarrow> bytes"
  hkdf_from_prk :: "bytes \<Rightarrow> bytes option"
  hkdf_expand :: "bytes \<Rightarrow> bytes \<Rightarrow> nat \<Rightarrow> bytes option"
  aead_encrypt :: "bytes \<Rightarrow> bytes \<Rightarrow> bytes \<Rightarrow> bytes \<Rightarrow> bytes option"
  aead_decrypt :: "bytes \<Rightarrow> bytes \<Rightarrow> bytes \<Rightarrow> bytes \<Rightarrow> bytes option"
  t_write :: "'t \<Rightarrow> bytes \<Rightarrow> (bytes \<times> 't) option"
  t_read :: "'t \<Rightarrow> bytes \<Rightarrow> (bytes \<times> 't) option"

section \<open>Types and constants\<close>

datatype Role = Initiator | Responder

definition AEAD_TAG_LEN :: nat where "AEAD_TAG_LEN = 16"
definition MAX_FRAME_PLAINTEXT :: nat where "MAX_FRAME_PLAINTEXT = 16384"
definition MAX_OUTER_CT_LEN :: nat where "MAX_OUTER_CT_LEN = MAX_FRAME_PLAINTEXT + 2 * AEAD_TAG_LEN"
definition MIN_OUTER_CT_LEN :: nat where "MIN_OUTER_CT_LEN = 1 + 2 * AEAD_TAG_LEN"
definition LEN_PREFIX_SIZE :: nat where "LEN_PREFIX_SIZE = 2"
definition MAX_SEND_LEAD_EPOCHS :: u64 where "MAX_SEND_LEAD_EPOCHS = 16"

lemmas frame_lens = AEAD_TAG_LEN_def MAX_FRAME_PLAINTEXT_def MAX_OUTER_CT_LEN_def MIN_OUTER_CT_LEN_def LEN_PREFIX_SIZE_def

datatype Direction = I2R | R2I

fun opposite :: "Direction \<Rightarrow> Direction" where
  "opposite I2R = R2I"
| "opposite R2I = I2R"

fun direction_byte :: "Direction \<Rightarrow> u8" where
  "direction_byte I2R = 0"
| "direction_byte R2I = 1"

record DirState =
  ds_key :: bytes
  ds_iv :: bytes
  ds_seq :: u64

section \<open>Key schedule\<close>

definition direction_root :: "(bytes \<Rightarrow> bytes) \<Rightarrow> bytes \<Rightarrow> bytes \<Rightarrow> bytes \<Rightarrow> bytes" where
  "direction_root b3 label k_pq sb = b3 (label @ k_pq @ sb)"

definition ratchet_root :: "(bytes \<Rightarrow> bytes) \<Rightarrow> bytes \<Rightarrow> bytes \<Rightarrow> u32 \<Rightarrow> bytes \<Rightarrow> bytes" where
  "ratchet_root b3 label prev epoch sb = b3 (label @ prev @ to_be epoch @ sb)"

definition combine_kem_secret :: "(bytes \<Rightarrow> bytes) \<Rightarrow> bytes \<Rightarrow> bytes \<Rightarrow> bytes" where
  "combine_kem_secret b3 x25519_ss mlkem_ss = b3 (ascii ''mirage-kem-combine-v1'' @ x25519_ss @ mlkem_ss)"

definition ratchet_root_kem :: "(bytes \<Rightarrow> bytes) \<Rightarrow> bytes \<Rightarrow> bytes \<Rightarrow> u32 \<Rightarrow> bytes \<Rightarrow> bytes \<Rightarrow> bytes" where
  "ratchet_root_kem b3 label prev epoch sb secret =
     b3 (ascii ''mirage-kem-reseed-v1'' @ label @ prev @ to_be epoch @ sb @ secret)"

definition kem_confirmation_tag :: "(bytes \<Rightarrow> bytes) \<Rightarrow> bytes \<Rightarrow> bytes \<Rightarrow> bytes \<Rightarrow> u32 \<Rightarrow> bytes" where
  "kem_confirmation_tag b3 new_i2r new_r2i sb epoch =
     b3 (ascii ''mirage-kem-confirm-v1'' @ new_i2r @ new_r2i @ sb @ to_be epoch)"

text \<open>The decimal form of \<open>format!\<close>.\<close>

fun decimal :: "nat \<Rightarrow> bytes" where
  "decimal n = (if n < 10 then [] else decimal (n div 10)) @ [word_of_nat (48 + n mod 10)]"

declare decimal.simps [simp del]

definition expand_cipher :: "'t frame_crypto \<Rightarrow> bytes \<Rightarrow> u64 \<Rightarrow> SessionError + (bytes \<times> bytes)" where
  "expand_cipher cr root epoch =
     (case hkdf_from_prk cr root of
        None \<Rightarrow> Err (State ''hkdf from_prk'')
      | Some hk \<Rightarrow>
        (case hkdf_expand cr hk (ascii ''mirage-cipher-v1-e'' @ decimal (unat epoch)) 44 of
           None \<Rightarrow> Err (State ''hkdf expand'')
         | Some out \<Rightarrow> Ok (take 32 out, drop 32 out)))"

section \<open>Associated data and nonce\<close>

definition aad_bytes :: "bytes \<Rightarrow> Direction \<Rightarrow> u64 \<Rightarrow> u64 \<Rightarrow> bytes" where
  "aad_bytes sb direction epoch seq = sb @ [direction_byte direction] @ to_be (ucast epoch :: u32) @ to_be seq"

definition nonce_bytes :: "bytes \<Rightarrow> u64 \<Rightarrow> u64 \<Rightarrow> bytes" where
  "nonce_bytes iv epoch seq = map2 (XOR) iv (to_be (ucast epoch :: u32) @ to_be seq)"

definition try_outer_decrypt ::
  "'t frame_crypto \<Rightarrow> bytes \<Rightarrow> bytes \<Rightarrow> bytes \<Rightarrow> Direction \<Rightarrow> u64 \<Rightarrow> u64 \<Rightarrow> bytes \<Rightarrow> bytes option" where
  "try_outer_decrypt cr key iv binding direction epoch seq outer_ct =
     aead_decrypt cr key (nonce_bytes iv epoch seq) (aad_bytes binding direction epoch seq) outer_ct"

section \<open>The framer\<close>

record 't SessionFramer =
  sf_binding :: bytes
  epoch :: u64
  sf_role :: Role
  k_session_i2r :: bytes
  k_session_r2i :: bytes
  sf_send :: DirState
  sf_recv :: DirState
  recv_prev :: "DirState option"
  last_recv_epoch :: u64
  sf_inner :: 't

text \<open>The assignment of the two directions' material to the sending and the receiving side.\<close>

definition dir_states :: "Role \<Rightarrow> bytes \<times> bytes \<Rightarrow> bytes \<times> bytes \<Rightarrow> DirState \<times> DirState" where
  "dir_states r i2r r2i =
     (let a = \<lparr>ds_key = fst i2r, ds_iv = snd i2r, ds_seq = 0\<rparr>; b = \<lparr>ds_key = fst r2i, ds_iv = snd r2i, ds_seq = 0\<rparr>
      in case r of Initiator \<Rightarrow> (a, b) | Responder \<Rightarrow> (b, a))"

definition from_session_keys :: "'t frame_crypto \<Rightarrow> 't SessionKeys \<Rightarrow> Role \<Rightarrow> SessionError + 't SessionFramer" where
  "from_session_keys cr keys r =
     (let sb = session_binding keys; k_pq = keys_mlkem_ss keys;
          i2r = direction_root (fc_blake3 cr) (ascii ''mirage-key-i2r-v1'') k_pq sb;
          r2i = direction_root (fc_blake3 cr) (ascii ''mirage-key-r2i-v1'') k_pq sb
      in case expand_cipher cr i2r 0 of
           Inl e \<Rightarrow> Err e
         | Inr ki \<Rightarrow>
           (case expand_cipher cr r2i 0 of
              Inl e \<Rightarrow> Err e
            | Inr kr \<Rightarrow>
                Ok \<lparr>sf_binding = sb, epoch = 0, sf_role = r, k_session_i2r = i2r, k_session_r2i = r2i,
                    sf_send = fst (dir_states r ki kr), sf_recv = snd (dir_states r ki kr), recv_prev = None,
                    last_recv_epoch = 0, sf_inner = transport keys\<rparr>))"

definition recv_material_for :: "'t frame_crypto \<Rightarrow> 't SessionFramer \<Rightarrow> u64 \<Rightarrow> SessionError + (bytes \<times> bytes)" where
  "recv_material_for cr f next_epoch =
     (if 0xFFFFFFFF < next_epoch then Err (State ''epoch would exceed u32'')
      else
        let (label, root) = (case sf_role f of
               Initiator \<Rightarrow> (ascii ''mirage-ratchet-r2i-v1'', k_session_r2i f)
             | Responder \<Rightarrow> (ascii ''mirage-ratchet-i2r-v1'', k_session_i2r f))
        in expand_cipher cr (ratchet_root (fc_blake3 cr) label root (ucast next_epoch) (sf_binding f)) next_epoch)"

definition expire_prev_recv :: "'t SessionFramer \<Rightarrow> 't SessionFramer" where
  "expire_prev_recv f = f\<lparr>recv_prev := None\<rparr>"

definition send_direction :: "'t SessionFramer \<Rightarrow> Direction" where
  "send_direction f = (case sf_role f of Initiator \<Rightarrow> I2R | Responder \<Rightarrow> R2I)"

text \<open>
  The common tail of \<open>advance_epoch\<close> and \<open>kem_reseed\<close>: expand the new roots, then commit.  The receiving
  state that is superseded becomes the grace window.
\<close>

definition install_epoch :: "'t frame_crypto \<Rightarrow> u64 \<Rightarrow> bytes \<Rightarrow> bytes \<Rightarrow> 't SessionFramer \<Rightarrow> (SessionError + unit) \<times> 't SessionFramer" where
  "install_epoch cr next_epoch next_i2r next_r2i f =
     (case expand_cipher cr next_i2r next_epoch of
        Inl e \<Rightarrow> (Err e, f)
      | Inr ki \<Rightarrow>
        (case expand_cipher cr next_r2i next_epoch of
           Inl e \<Rightarrow> (Err e, f)
         | Inr kr \<Rightarrow>
             (Ok (), f\<lparr>k_session_i2r := next_i2r, k_session_r2i := next_r2i, sf_send := fst (dir_states (sf_role f) ki kr),
                recv_prev := Some (sf_recv f), sf_recv := snd (dir_states (sf_role f) ki kr), epoch := next_epoch\<rparr>)))"

definition advance_epoch :: "'t frame_crypto \<Rightarrow> 't SessionFramer \<Rightarrow> (SessionError + unit) \<times> 't SessionFramer" where
  "advance_epoch cr f =
     (if epoch f = - 1 then (Err (State ''epoch overflow (u64)''), f)
      else
        let next_epoch = epoch f + 1 in
        if 0xFFFFFFFF < next_epoch then (Err (State ''epoch would exceed u32::MAX''), f)
        else install_epoch cr next_epoch
               (ratchet_root (fc_blake3 cr) (ascii ''mirage-ratchet-i2r-v1'') (k_session_i2r f) (ucast next_epoch) (sf_binding f))
               (ratchet_root (fc_blake3 cr) (ascii ''mirage-ratchet-r2i-v1'') (k_session_r2i f) (ucast next_epoch) (sf_binding f)) f)"

definition maybe_advance :: "'t frame_crypto \<Rightarrow> u64 \<Rightarrow> 't SessionFramer \<Rightarrow> (SessionError + bool) \<times> 't SessionFramer" where
  "maybe_advance cr target f =
     (if target \<le> epoch f then (Ok False, f)
      else if saturating_add (last_recv_epoch f) MAX_SEND_LEAD_EPOCHS \<le> epoch f then (Ok False, f)
      else case advance_epoch cr f of (Inl e, f') \<Rightarrow> (Err e, f') | (Inr _, f') \<Rightarrow> (Ok True, f'))"

definition kem_reseed :: "'t frame_crypto \<Rightarrow> bytes \<Rightarrow> bytes \<Rightarrow> 't SessionFramer \<Rightarrow> (SessionError + bytes) \<times> 't SessionFramer" where
  "kem_reseed cr x25519_ss mlkem_ss f =
     (if epoch f = - 1 then (Err (State ''epoch overflow (u64)''), f)
      else
        let next_epoch = epoch f + 1 in
        if 0xFFFFFFFF < next_epoch then (Err (State ''epoch would exceed u32::MAX''), f)
        else
          let secret = combine_kem_secret (fc_blake3 cr) x25519_ss mlkem_ss;
              next_i2r = ratchet_root_kem (fc_blake3 cr) (ascii ''mirage-ratchet-i2r-v1'') (k_session_i2r f) (ucast next_epoch) (sf_binding f) secret;
              next_r2i = ratchet_root_kem (fc_blake3 cr) (ascii ''mirage-ratchet-r2i-v1'') (k_session_r2i f) (ucast next_epoch) (sf_binding f) secret
          in case install_epoch cr next_epoch next_i2r next_r2i f of
               (Inl e, f') \<Rightarrow> (Err e, f')
             | (Inr _, f') \<Rightarrow> (Ok (kem_confirmation_tag (fc_blake3 cr) next_i2r next_r2i (sf_binding f) (ucast next_epoch)), f'))"

definition framer_send :: "'t frame_crypto \<Rightarrow> bytes \<Rightarrow> 't SessionFramer \<Rightarrow> (SessionError + bytes) \<times> 't SessionFramer" where
  "framer_send cr plaintext f =
     (if plaintext = [] then (Err (State ''empty plaintext''), f)
      else if MAX_FRAME_PLAINTEXT < length plaintext then (Err (State ''plaintext exceeds 16384''), f)
      else case t_write cr (sf_inner f) plaintext of
        None \<Rightarrow> (Err (Noise ''write''), f)
      | Some (inner_buf, tr) \<Rightarrow>
          let f1 = f\<lparr>sf_inner := tr\<rparr>; s = sf_send f in
          (case aead_encrypt cr (ds_key s) (nonce_bytes (ds_iv s) (epoch f) (ds_seq s))
                  (aad_bytes (sf_binding f) (send_direction f) (epoch f) (ds_seq s)) inner_buf of
             None \<Rightarrow> (Err (State ''outer aead encrypt failed''), f1)
           | Some outer_ct \<Rightarrow>
               if MAX_OUTER_CT_LEN < length outer_ct then (Err (State ''outer ct exceeds max''), f1)
               else if ds_seq s = - 1 then (Err (State ''send seq overflow''), f1)
               else (Ok (to_be (word_of_nat (length outer_ct) :: u16) @ outer_ct), f1\<lparr>sf_send := s\<lparr>ds_seq := ds_seq s + 1\<rparr>\<rparr>)))"

datatype Which = Current | Prev | Next

text \<open>The trial decryption of \<open>recv\<close>: the current epoch, the grace window, then the next epoch.\<close>

definition recv_outer :: "'t frame_crypto \<Rightarrow> bytes \<Rightarrow> 't SessionFramer \<Rightarrow> SessionError + (bytes \<times> Which)" where
  "recv_outer cr outer_ct f =
     (let direction = opposite (send_direction f); s = sf_recv f in
      case try_outer_decrypt cr (ds_key s) (ds_iv s) (sf_binding f) direction (epoch f) (ds_seq s) outer_ct of
        Some ct \<Rightarrow> Ok (ct, Current)
      | None \<Rightarrow>
        (case (if epoch f = 0 then None
               else case recv_prev f of
                 None \<Rightarrow> None
               | Some p \<Rightarrow> try_outer_decrypt cr (ds_key p) (ds_iv p) (sf_binding f) direction (epoch f - 1) (ds_seq p) outer_ct) of
           Some ct \<Rightarrow> Ok (ct, Prev)
         | None \<Rightarrow>
             if epoch f = - 1 then Err (State ''epoch overflow'')
             else let next_epoch = epoch f + 1 in
               (case recv_material_for cr f next_epoch of
                  Inl e \<Rightarrow> Err e
                | Inr (nk, niv) \<Rightarrow>
                  (case try_outer_decrypt cr nk niv (sf_binding f) direction next_epoch 0 outer_ct of
                     Some ct \<Rightarrow> Ok (ct, Next)
                   | None \<Rightarrow> Err (State ''outer aead decrypt failed'')))))"

text \<open>The bookkeeping of \<open>recv\<close> after both layers opened.\<close>

definition recv_commit :: "'t frame_crypto \<Rightarrow> Which \<Rightarrow> 't SessionFramer \<Rightarrow> (SessionError + unit) \<times> 't SessionFramer" where
  "recv_commit cr which f =
     (case which of
        Current \<Rightarrow>
          if ds_seq (sf_recv f) = - 1 then (Err (State ''recv seq overflow''), f)
          else
            let f1 = f\<lparr>sf_recv := (sf_recv f)\<lparr>ds_seq := ds_seq (sf_recv f) + 1\<rparr>, last_recv_epoch := epoch f\<rparr>
            in (Ok (), if recv_prev f1 \<noteq> None then expire_prev_recv f1 else f1)
      | Prev \<Rightarrow>
          (case recv_prev f of
             None \<Rightarrow> (Ok (), f)
           | Some p \<Rightarrow>
               if ds_seq p = - 1 then (Err (State ''recv_prev seq overflow''), f)
               else (Ok (), f\<lparr>recv_prev := Some (p\<lparr>ds_seq := ds_seq p + 1\<rparr>)\<rparr>))
      | Next \<Rightarrow>
          (case advance_epoch cr f of
             (Inl e, f') \<Rightarrow> (Err e, f')
           | (Inr _, f') \<Rightarrow> (Ok (), f'\<lparr>sf_recv := (sf_recv f')\<lparr>ds_seq := 1\<rparr>, last_recv_epoch := epoch f'\<rparr>)))"

definition framer_recv :: "'t frame_crypto \<Rightarrow> bytes \<Rightarrow> 't SessionFramer \<Rightarrow> (SessionError + bytes) \<times> 't SessionFramer" where
  "framer_recv cr wire f =
     (if length wire < LEN_PREFIX_SIZE then (Err (SessionWire ''frame shorter than length prefix''), f)
      else
        let claimed_len = unat (from_be (take 2 wire) :: u16) in
        if length wire \<noteq> LEN_PREFIX_SIZE + claimed_len then (Err (SessionWire ''frame length mismatch''), f)
        else if claimed_len < MIN_OUTER_CT_LEN \<or> MAX_OUTER_CT_LEN < claimed_len
        then (Err (SessionWire ''outer ct length out of range''), f)
        else case recv_outer cr (drop LEN_PREFIX_SIZE wire) f of
               Inl e \<Rightarrow> (Err e, f)
             | Inr (inner_ct, which) \<Rightarrow>
               (case t_read cr (sf_inner f) inner_ct of
                  None \<Rightarrow> (Err (Noise ''read''), f)
                | Some (plaintext, tr) \<Rightarrow>
                  (case recv_commit cr which (f\<lparr>sf_inner := tr\<rparr>) of
                     (Inl e, f') \<Rightarrow> (Err e, f')
                   | (Inr _, f') \<Rightarrow> (Ok plaintext, f'))))"

section \<open>Frame positions\<close>

text \<open>
  A frame is sealed at a position: its direction, epoch and sequence number.  The associated data separates
  positions as long as the epoch fits 32 bits, and so does the nonce under one initialisation vector.
\<close>

abbreviation epoch_ok :: "u64 \<Rightarrow> bool" where
  "epoch_ok e \<equiv> e \<le> 0xFFFFFFFF"

lemma to_be_inj_u32: "to_be (a :: u32) = to_be b \<longleftrightarrow> a = b"
  by (metis from_be_to_be_u32)

lemma to_be_inj_u64: "to_be (a :: u64) = to_be b \<longleftrightarrow> a = b"
  by (metis from_be_to_be_u64)

lemma ucast_epoch_inj:
  assumes "epoch_ok a" "epoch_ok b"
  shows "(ucast a :: u32) = ucast b \<longleftrightarrow> a = b"
proof -
  have "unat (ucast e :: u32) = unat e" if "epoch_ok e" for e :: u64
  proof -
    have "unat e < 2 ^ 32" using that by (simp add: word_le_nat_alt)
    then show ?thesis by (simp add: unsigned_ucast_eq take_bit_nat_eq_self)
  qed
  with assms show ?thesis by (metis unsigned_word_eqI)
qed

lemma aad_inj:
  assumes "epoch_ok e" "epoch_ok e'"
  shows "aad_bytes sb d e n = aad_bytes sb d' e' n' \<longleftrightarrow> d = d' \<and> e = e' \<and> n = n'"
  using assms by (cases d; cases d') (auto simp: aad_bytes_def to_be_inj_u32 to_be_inj_u64 ucast_epoch_inj)

lemma nonce_inj:
  assumes "length iv = 12" "epoch_ok e" "epoch_ok e'" "nonce_bytes iv e n = nonce_bytes iv e' n'"
  shows "e = e' \<and> n = n'"
proof -
  have "to_be (ucast e :: u32) @ to_be n = to_be (ucast e' :: u32) @ to_be n'"
    using assms(1,4) unfolding nonce_bytes_def by (rule_tac map2_xor_inj [where iv = iv]) simp_all
  then show ?thesis using assms(2,3) by (simp add: to_be_inj_u32 to_be_inj_u64 ucast_epoch_inj)
qed

section \<open>Runs of a framer\<close>

datatype FramerOp = FSend bytes | FRecv bytes | FAdvance | FMaybeAdvance u64 | FReseed bytes bytes | FExpire

definition framer_step :: "'t frame_crypto \<Rightarrow> FramerOp \<Rightarrow> 't SessionFramer \<Rightarrow> 't SessionFramer" where
  "framer_step cr op f =
     (case op of
        FSend m \<Rightarrow> snd (framer_send cr m f)
      | FRecv w \<Rightarrow> snd (framer_recv cr w f)
      | FAdvance \<Rightarrow> snd (advance_epoch cr f)
      | FMaybeAdvance t \<Rightarrow> snd (maybe_advance cr t f)
      | FReseed x k \<Rightarrow> snd (kem_reseed cr x k f)
      | FExpire \<Rightarrow> expire_prev_recv f)"

text \<open>The epoch, nonce and associated data of every frame a run emits.\<close>

fun seals :: "'t frame_crypto \<Rightarrow> FramerOp list \<Rightarrow> 't SessionFramer \<Rightarrow> (u64 \<times> bytes \<times> bytes) list" where
  "seals cr [] f = []"
| "seals cr (op # ops) f =
     (case op of
        FSend m \<Rightarrow>
          (case fst (framer_send cr m f) of
             Inl _ \<Rightarrow> []
           | Inr _ \<Rightarrow> [(epoch f, nonce_bytes (ds_iv (sf_send f)) (epoch f) (ds_seq (sf_send f)),
                        aad_bytes (sf_binding f) (send_direction f) (epoch f) (ds_seq (sf_send f)))])
      | _ \<Rightarrow> []) @ seals cr ops (framer_step cr op f)"

text \<open>What an operation leaves alone, and how the epoch may move.\<close>

definition moves :: "'t SessionFramer \<Rightarrow> 't SessionFramer \<Rightarrow> bool" where
  "moves f f' \<longleftrightarrow> sf_binding f' = sf_binding f \<and> sf_role f' = sf_role f \<and>
     (epoch f' = epoch f \<and> sf_send f' = sf_send f \<or> epoch f < epoch f' \<and> epoch_ok (epoch f'))"

definition hkdf_laws :: "'t frame_crypto \<Rightarrow> bool" where
  "hkdf_laws cr \<longleftrightarrow> (\<forall>prk info out. hkdf_expand cr prk info 44 = Some out \<longrightarrow> length out = 44)"

lemma moves_refl [simp]: "moves f f"
  by (simp add: moves_def)

lemma moves_upd:
  "moves f (g\<lparr>sf_inner := t\<rparr>) = moves f g" "moves f (g\<lparr>recv_prev := p\<rparr>) = moves f g"
  "moves f (g\<lparr>sf_recv := s\<rparr>) = moves f g" "moves f (g\<lparr>last_recv_epoch := e\<rparr>) = moves f g"
  "moves (f\<lparr>sf_inner := t\<rparr>) g = moves f g"
  by (simp_all add: moves_def)

lemma install_moves: "epoch f < e \<Longrightarrow> epoch_ok e \<Longrightarrow> moves f (snd (install_epoch cr e a b f))"
  by (auto simp: install_epoch_def moves_def split: sum.splits)

lemma advance_moves: "moves f (snd (advance_epoch cr f))"
  by (auto simp: advance_epoch_def Let_def not_less intro!: install_moves u64_succ_less)

lemma maybe_advance_moves: "moves f (snd (maybe_advance cr t f))"
  using advance_moves [of f cr] by (auto simp: maybe_advance_def split: prod.splits sum.splits)

lemma reseed_moves: "moves f (snd (kem_reseed cr x k f))"
proof -
  have "moves f (snd (install_epoch cr (epoch f + 1) a b f))" if "epoch f \<noteq> - 1" "epoch_ok (epoch f + 1)" for a b
    using that by (intro install_moves u64_succ_less) auto
  then show ?thesis
    by (auto simp: kem_reseed_def Let_def not_less split: prod.splits sum.splits) (metis snd_conv)+
qed

lemma commit_moves: "moves f (snd (recv_commit cr w f))"
  using advance_moves [of f cr]
  by (auto simp: recv_commit_def expire_prev_recv_def Let_def moves_upd split: Which.splits option.splits prod.splits sum.splits)

lemma recv_moves: "moves f (snd (framer_recv cr w f))"
proof -
  have "moves f (snd (recv_commit cr wh (f\<lparr>sf_inner := t\<rparr>)))" for wh t
    using commit_moves [of "f\<lparr>sf_inner := t\<rparr>" cr wh] by (simp add: moves_upd)
  then show ?thesis
    by (auto simp: framer_recv_def Let_def split: sum.splits option.splits prod.splits) (metis snd_conv)+
qed

lemma step_moves: "(\<forall>m. op \<noteq> FSend m) \<Longrightarrow> moves f (framer_step cr op f)"
  by (cases op) (auto simp: framer_step_def advance_moves maybe_advance_moves reseed_moves recv_moves expire_prev_recv_def moves_upd)

lemma send_cases:
  obtains (fail) e t where "framer_send cr m f = (Err e, f\<lparr>sf_inner := t\<rparr>)"
  | (sent) w t where "framer_send cr m f = (Ok w, f\<lparr>sf_inner := t, sf_send := (sf_send f)\<lparr>ds_seq := ds_seq (sf_send f) + 1\<rparr>\<rparr>)"
      "ds_seq (sf_send f) \<noteq> - 1"
proof (cases "m = [] \<or> MAX_FRAME_PLAINTEXT < length m \<or> t_write cr (sf_inner f) m = None")
  case True
  then have "\<exists>e. framer_send cr m f = (Err e, f)"
    by (cases "m = []"; cases "MAX_FRAME_PLAINTEXT < length m") (auto simp: framer_send_def)
  then obtain e where "framer_send cr m f = (Err e, f)" by blast
  then show ?thesis using fail [of e "sf_inner f"] by simp
next
  case False
  then obtain ib t where w: "t_write cr (sf_inner f) m = Some (ib, t)" by auto
  let ?ct = "aead_encrypt cr (ds_key (sf_send f)) (nonce_bytes (ds_iv (sf_send f)) (epoch f) (ds_seq (sf_send f)))
    (aad_bytes (sf_binding f) (send_direction f) (epoch f) (ds_seq (sf_send f))) ib"
  show ?thesis
  proof (cases "?ct = None \<or> MAX_OUTER_CT_LEN < length (the ?ct) \<or> ds_seq (sf_send f) = - 1")
    case True
    then have "\<exists>e. framer_send cr m f = (Err e, f\<lparr>sf_inner := t\<rparr>)"
      using False w by (cases ?ct) (auto simp: framer_send_def Let_def)
    then show ?thesis using fail by blast
  next
    case ok: False
    then obtain c where "?ct = Some c" by auto
    then show ?thesis using False w ok by (intro sent [of _ t]) (auto simp: framer_send_def Let_def)
  qed
qed

lemma send_moves_or_counts:
  "moves f (snd (framer_send cr m f)) \<or>
   (\<exists>w. fst (framer_send cr m f) = Ok w) \<and> ds_seq (sf_send f) \<noteq> - 1 \<and> (let f' = snd (framer_send cr m f) in
     sf_binding f' = sf_binding f \<and> sf_role f' = sf_role f \<and> epoch f' = epoch f \<and>
     sf_send f' = (sf_send f)\<lparr>ds_seq := ds_seq (sf_send f) + 1\<rparr>)"
  by (rule send_cases [of cr m f]) (auto simp: moves_upd Let_def)

text \<open>Every frame of a run lies at or after the framer's position.\<close>

definition seal_from :: "'t SessionFramer \<Rightarrow> u64 \<times> bytes \<times> bytes \<Rightarrow> bool" where
  "seal_from f s = (case s of (e, nonce, aad) \<Rightarrow> epoch_ok e \<and>
     (\<exists>n. aad = aad_bytes (sf_binding f) (send_direction f) e n \<and>
        (epoch f < e \<or> e = epoch f \<and> ds_seq (sf_send f) \<le> n \<and> nonce = nonce_bytes (ds_iv (sf_send f)) e n)))"

lemma seal_from_moves: "moves f f' \<Longrightarrow> seal_from f' s \<Longrightarrow> seal_from f s"
  by (auto simp: seal_from_def moves_def send_direction_def)

lemma seal_from_sent:
  assumes "sf_binding f' = sf_binding f" "sf_role f' = sf_role f" "epoch f' = epoch f"
    "sf_send f' = (sf_send f)\<lparr>ds_seq := ds_seq (sf_send f) + 1\<rparr>" "ds_seq (sf_send f) \<noteq> - 1" "seal_from f' s"
  shows "seal_from f s"
proof -
  have "ds_seq (sf_send f) \<le> n" if "ds_seq (sf_send f) + 1 \<le> n" for n
    using that u64_succ_less [OF assms(5)] by simp
  with assms show ?thesis by (auto simp: seal_from_def send_direction_def)
qed

lemma moves_epoch_ok: "moves f f' \<Longrightarrow> epoch_ok (epoch f) \<Longrightarrow> epoch_ok (epoch f')"
  by (auto simp: moves_def)

lemma seals_from: "epoch_ok (epoch f) \<Longrightarrow> s \<in> set (seals cr ops f) \<Longrightarrow> seal_from f s"
proof (induction cr ops f rule: seals.induct)
  case (2 cr op ops f)
  show ?case
  proof (cases "\<exists>m. op = FSend m")
    case False
    then have "seals cr (op # ops) f = seals cr ops (framer_step cr op f)" by (cases op) auto
    moreover have mv: "moves f (framer_step cr op f)" using False by (intro step_moves) blast
    ultimately show ?thesis
      using 2(1) [OF moves_epoch_ok [OF mv 2(2)]] 2(3) by (intro seal_from_moves [OF mv]) simp
  next
    case True
    then obtain m where op: "op = FSend m" by blast
    show ?thesis
    proof (cases rule: send_cases [of cr m f])
      case (fail e t)
      then have f': "framer_step cr op f = f\<lparr>sf_inner := t\<rparr>" by (simp add: op framer_step_def)
      have "s \<in> set (seals cr ops (framer_step cr op f))" using 2(3) fail by (simp add: op)
      with 2(1) 2(2) show ?thesis
        by (intro seal_from_moves [of f "framer_step cr op f"]) (simp_all add: f' moves_upd)
    next
      case (sent w t)
      let ?f = "framer_step cr op f"
      have f': "?f = f\<lparr>sf_inner := t, sf_send := (sf_send f)\<lparr>ds_seq := ds_seq (sf_send f) + 1\<rparr>\<rparr>"
        using sent by (simp add: op framer_step_def)
      consider "s \<in> set (seals cr ops ?f)" |
        "s = (epoch f, nonce_bytes (ds_iv (sf_send f)) (epoch f) (ds_seq (sf_send f)),
              aad_bytes (sf_binding f) (send_direction f) (epoch f) (ds_seq (sf_send f)))"
        using 2(3) sent by (auto simp: op)
      then show ?thesis
      proof cases
        case 1
        then have "seal_from ?f s" using 2(1,2) by (simp add: f')
        then show ?thesis by (rule seal_from_sent [rotated 5]) (simp_all add: f' sent(2))
      next
        case 2
        then show ?thesis using \<open>epoch_ok (epoch f)\<close> by (auto simp: seal_from_def)
      qed
    qed
  qed
qed simp

text \<open>Two frames at or after a position that has been used differ from it.\<close>

lemma seal_fresh:
  assumes "epoch_ok (epoch f)" "ds_seq (sf_send f) \<noteq> - 1" "length (ds_iv (sf_send f)) = 12"
    and "sf_binding f' = sf_binding f" "sf_role f' = sf_role f" "epoch f' = epoch f"
      "sf_send f' = (sf_send f)\<lparr>ds_seq := ds_seq (sf_send f) + 1\<rparr>"
    and "seal_from f' (e, nonce, aad)"
  shows "aad \<noteq> aad_bytes (sf_binding f) (send_direction f) (epoch f) (ds_seq (sf_send f))"
    "(e, nonce) \<noteq> (epoch f, nonce_bytes (ds_iv (sf_send f)) (epoch f) (ds_seq (sf_send f)))"
proof -
  have later: "n \<noteq> ds_seq (sf_send f)" if "ds_seq (sf_send f) + 1 \<le> n" for n
    using that u64_succ_less [OF assms(2)] by auto
  obtain n where n: "epoch_ok e" "aad = aad_bytes (sf_binding f) (send_direction f) e n"
    "epoch f < e \<or> e = epoch f \<and> ds_seq (sf_send f) + 1 \<le> n \<and> nonce = nonce_bytes (ds_iv (sf_send f)) e n"
    using assms(4-8) by (auto simp: seal_from_def send_direction_def)
  then have "e \<noteq> epoch f \<or> n \<noteq> ds_seq (sf_send f)" using later by auto
  with n(1,2) assms(1) show "aad \<noteq> aad_bytes (sf_binding f) (send_direction f) (epoch f) (ds_seq (sf_send f))"
    by (auto simp: aad_inj)
  show "(e, nonce) \<noteq> (epoch f, nonce_bytes (ds_iv (sf_send f)) (epoch f) (ds_seq (sf_send f)))"
    using n(3) later nonce_inj [OF assms(3,1,1)] by auto
qed

lemma expand_iv: "hkdf_laws cr \<Longrightarrow> expand_cipher cr root e = Ok k \<Longrightarrow> length (snd k) = 12"
  by (auto simp: expand_cipher_def hkdf_laws_def split: option.splits)

lemma install_iv:
  "hkdf_laws cr \<Longrightarrow> length (ds_iv (sf_send f)) = 12 \<Longrightarrow> length (ds_iv (sf_send (snd (install_epoch cr e a b f)))) = 12"
  by (auto simp: install_epoch_def dir_states_def Let_def dest: expand_iv split: sum.splits Role.splits)

lemma advance_iv:
  "hkdf_laws cr \<Longrightarrow> length (ds_iv (sf_send f)) = 12 \<Longrightarrow> length (ds_iv (sf_send (snd (advance_epoch cr f)))) = 12"
  by (auto simp: advance_epoch_def Let_def install_iv)

lemma step_iv:
  assumes "hkdf_laws cr" "length (ds_iv (sf_send f)) = 12"
  shows "length (ds_iv (sf_send (framer_step cr op f))) = 12"
proof -
  have ins: "length (ds_iv (sf_send (snd (install_epoch cr e a b f)))) = 12" for e a b
    using assms by (rule install_iv)
  have adv: "length (ds_iv (sf_send (snd (advance_epoch cr g)))) = 12" if "sf_send g = sf_send f" for g :: "'a SessionFramer"
    using assms that by (simp add: advance_iv)
  have com: "length (ds_iv (sf_send (snd (recv_commit cr w (f\<lparr>sf_inner := t\<rparr>))))) = 12" for w t
    using assms(2) adv [of "f\<lparr>sf_inner := t\<rparr>"]
    by (auto simp: recv_commit_def expire_prev_recv_def Let_def split: Which.splits option.splits prod.splits sum.splits)
  show ?thesis
  proof (cases op)
    case (FSend m)
    then show ?thesis using assms(2) by (cases rule: send_cases [of cr m f]) (simp_all add: framer_step_def)
  next
    case (FRecv w)
    then show ?thesis using assms(2) com
      by (auto simp: framer_step_def framer_recv_def Let_def split: sum.splits option.splits prod.splits) (metis snd_conv)+
  next
    case (FReseed x k)
    then show ?thesis using assms(2) ins
      by (auto simp: framer_step_def kem_reseed_def Let_def split: sum.splits prod.splits) (metis snd_conv)+
  next
    case (FMaybeAdvance t)
    then show ?thesis using assms(2) adv [of f]
      by (auto simp: framer_step_def maybe_advance_def split: sum.splits prod.splits)
  qed (use assms(2) adv [of f] in \<open>simp_all add: framer_step_def expire_prev_recv_def\<close>)
qed

lemma step_epoch_ok: "epoch_ok (epoch f) \<Longrightarrow> epoch_ok (epoch (framer_step cr op f))"
proof (cases "\<exists>m. op = FSend m")
  case True
  then obtain m where op: "op = FSend m" by blast
  assume "epoch_ok (epoch f)"
  then show ?thesis by (cases rule: send_cases [of cr m f]) (simp_all add: op framer_step_def)
next
  case False
  assume "epoch_ok (epoch f)"
  with False show ?thesis by (intro moves_epoch_ok [OF step_moves [of op f cr]]) auto
qed

lemma seals_distinct:
  assumes "hkdf_laws cr"
  shows "epoch_ok (epoch f) \<Longrightarrow> length (ds_iv (sf_send f)) = 12 \<Longrightarrow>
    distinct (map (\<lambda>(e, nonce, aad). aad) (seals cr ops f)) \<and> distinct (map (\<lambda>(e, nonce, aad). (e, nonce)) (seals cr ops f))"
  using assms
proof (induction cr ops f rule: seals.induct)
  case (2 cr op ops f)
  let ?f = "framer_step cr op f"
  have IH: "distinct (map (\<lambda>(e, nonce, aad). aad) (seals cr ops ?f))" "distinct (map (\<lambda>(e, nonce, aad). (e, nonce)) (seals cr ops ?f))"
    using 2(1) [OF step_epoch_ok [OF 2(2)] step_iv [OF 2(4,3)] 2(4)] by auto
  show ?case
  proof (cases "\<exists>m w. op = FSend m \<and> fst (framer_send cr m f) = Ok w")
    case False
    then have "seals cr (op # ops) f = seals cr ops ?f" by (cases op) (auto split: sum.splits)
    with IH show ?thesis by simp
  next
    case True
    then obtain m w where op: "op = FSend m" and ok: "fst (framer_send cr m f) = Ok w" by blast
    obtain t where f': "?f = f\<lparr>sf_inner := t, sf_send := (sf_send f)\<lparr>ds_seq := ds_seq (sf_send f) + 1\<rparr>\<rparr>"
      and max: "ds_seq (sf_send f) \<noteq> - 1"
      by (rule send_cases [of cr m f]) (use ok in \<open>auto simp: op framer_step_def\<close>)
    have fresh: "aad \<noteq> aad_bytes (sf_binding f) (send_direction f) (epoch f) (ds_seq (sf_send f)) \<and>
        (e, nonce) \<noteq> (epoch f, nonce_bytes (ds_iv (sf_send f)) (epoch f) (ds_seq (sf_send f)))"
      if "(e, nonce, aad) \<in> set (seals cr ops ?f)" for e nonce aad
      using seal_fresh [OF 2(2) max 2(3), of ?f e nonce aad] seals_from [OF step_epoch_ok [OF 2(2)] that] by (simp add: f')
    show ?thesis using IH fresh by (fastforce simp: op ok)
  qed
qed simp


end
