(* ===== verification/Session_Duplex.thy ===== *)
theory Session_Duplex
  imports Session_Frames
begin

text \<open>
  Two framers on an ordered, reliable duplex connection.  Both ends write frames and ratchet on their own
  clocks (the write path of \<open>crates/session/src/stream.rs\<close>), and frames spend time in flight.  The theory
  determines which deliveries succeed, shows that a one-way flow never loses a frame, and exhibits the
  catch-up after an idle period that ends a session.
\<close>

section \<open>Writing a frame\<close>

text \<open>The part of \<open>poll_write\<close> that ratchets towards the wall-clock epoch (\<open>None\<close>: the driver is disabled) and
  seals one frame.\<close>

definition frame_write :: "'t frame_crypto \<Rightarrow> u64 option \<Rightarrow> bytes \<Rightarrow> 't SessionFramer \<Rightarrow> (SessionError + bytes) \<times> 't SessionFramer" where
  "frame_write cr target m f =
     (case target of
        None \<Rightarrow> framer_send cr m f
      | Some t \<Rightarrow>
        (case maybe_advance cr t f of
           (Inl e, f') \<Rightarrow> (Err e, f')
         | (Inr _, f') \<Rightarrow> framer_send cr m f'))"

section \<open>The connection\<close>

fun other :: "Role \<Rightarrow> Role" where
  "other Initiator = Responder"
| "other Responder = Initiator"

text \<open>
  For each side its framer, the frames it has in flight (each with the epoch it was sent in), what it has
  sent and what it has received.
\<close>

record 't duplex =
  dx_peer :: "Role \<Rightarrow> 't SessionFramer"
  dx_wire :: "Role \<Rightarrow> (u64 \<times> bytes) list"
  dx_sent :: "Role \<Rightarrow> bytes list"
  dx_got :: "Role \<Rightarrow> bytes list"

datatype duplex_event = Write Role "u64 option" bytes | Deliver Role

text \<open>An operation that fails ends the session.\<close>

definition duplex_step :: "'t frame_crypto \<Rightarrow> duplex_event \<Rightarrow> 't duplex \<Rightarrow> 't duplex option" where
  "duplex_step cr ev d =
     (case ev of
        Write r target m \<Rightarrow>
          (case frame_write cr target m (dx_peer d r) of
             (Inl _, _) \<Rightarrow> None
           | (Inr w, f) \<Rightarrow>
               Some (d\<lparr>dx_peer := (dx_peer d)(r := f), dx_wire := (dx_wire d)(r := dx_wire d r @ [(epoch f, w)]),
                      dx_sent := (dx_sent d)(r := dx_sent d r @ [m])\<rparr>))
      | Deliver r \<Rightarrow>
          (case dx_wire d r of
             [] \<Rightarrow> None
           | (e, w) # ws \<Rightarrow>
             (case framer_recv cr w (dx_peer d (other r)) of
                (Inl _, _) \<Rightarrow> None
              | (Inr m, f) \<Rightarrow>
                  Some (d\<lparr>dx_peer := (dx_peer d)(other r := f), dx_wire := (dx_wire d)(r := ws),
                         dx_got := (dx_got d)(other r := dx_got d (other r) @ [m])\<rparr>))))"

fun duplex_run :: "'t frame_crypto \<Rightarrow> duplex_event list \<Rightarrow> 't duplex \<Rightarrow> 't duplex option" where
  "duplex_run cr [] d = Some d"
| "duplex_run cr (ev # evs) d = (case duplex_step cr ev d of None \<Rightarrow> None | Some d' \<Rightarrow> duplex_run cr evs d')"

definition duplex_new :: "'t SessionFramer \<Rightarrow> 't SessionFramer \<Rightarrow> 't duplex" where
  "duplex_new i r = \<lparr>dx_peer = (\<lambda>s. case s of Initiator \<Rightarrow> i | Responder \<Rightarrow> r), dx_wire = (\<lambda>_. []), dx_sent = (\<lambda>_. []), dx_got = (\<lambda>_. [])\<rparr>"

section \<open>Laws of the primitives\<close>

text \<open>
  BLAKE3 has 32-byte outputs.  HKDF accepts 32-byte keys and yields the bytes asked for.  An AEAD ciphertext
  is 16 bytes longer than its message, opens under its own key, nonce and associated data, and opens under
  no associated data of the same session that differs in the 13 bytes of the position.
\<close>

definition aead_laws :: "'t frame_crypto \<Rightarrow> bool" where
  "aead_laws cr \<longleftrightarrow>
     (\<forall>k n a m c. aead_encrypt cr k n a m = Some c \<longrightarrow> length c = length m + 16 \<and> aead_decrypt cr k n a c = Some m) \<and>
     (\<forall>k n sb x m c k' n' x'. aead_encrypt cr k n (sb @ x) m = Some c \<longrightarrow> length x = 13 \<longrightarrow> length x' = 13 \<longrightarrow> x \<noteq> x' \<longrightarrow>
        aead_decrypt cr k' n' (sb @ x') c = None)"

definition kdf_laws :: "'t frame_crypto \<Rightarrow> bool" where
  "kdf_laws cr \<longleftrightarrow> (\<forall>m. length (fc_blake3 cr m) = 32) \<and>
     (\<forall>prk. length prk = 32 \<longrightarrow> (\<exists>hk. hkdf_from_prk cr prk = Some hk \<and> (\<forall>info. hkdf_expand cr hk info 44 \<noteq> None)))"

text \<open>
  \<open>link a b q\<close> says that the transport state \<open>b\<close> will read the ciphertexts of \<open>q\<close>, in order, as the messages they
  stand for, and then whatever \<open>a\<close> writes next.  The two directions of a transport are independent.
\<close>

definition transport_laws :: "'t frame_crypto \<Rightarrow> ('t \<Rightarrow> 't \<Rightarrow> (bytes \<times> bytes) list \<Rightarrow> bool) \<Rightarrow> bool" where
  "transport_laws cr link \<longleftrightarrow>
     (\<forall>a b q m c a'. link a b q \<longrightarrow> t_write cr a m = Some (c, a') \<longrightarrow> length c = length m + 16 \<and> link a' b (q @ [(m, c)])) \<and>
     (\<forall>a b q m c. link a b ((m, c) # q) \<longrightarrow> (\<exists>b'. t_read cr b c = Some (m, b') \<and> link a b' q)) \<and>
     (\<forall>a b q m c b'. link a b q \<longrightarrow> t_write cr b m = Some (c, b') \<longrightarrow> link a b' q) \<and>
     (\<forall>a b q m c a'. link a b q \<longrightarrow> t_read cr a c = Some (m, a') \<longrightarrow> link a' b q)"

lemma link_write:
  "transport_laws cr link \<Longrightarrow> link a b q \<Longrightarrow> t_write cr a m = Some (c, a') \<Longrightarrow> length c = length m + 16 \<and> link a' b (q @ [(m, c)])"
  unfolding transport_laws_def by (elim conjE) metis

lemma link_read:
  assumes "transport_laws cr link" "link a b ((m, c) # q)"
  obtains b' where "t_read cr b c = Some (m, b')" "link a b' q"
  using assms unfolding transport_laws_def by (elim conjE) metis

lemma link_write_back: "transport_laws cr link \<Longrightarrow> link a b q \<Longrightarrow> t_write cr b m = Some (c, b') \<Longrightarrow> link a b' q"
  unfolding transport_laws_def by (elim conjE) metis

lemma link_read_back: "transport_laws cr link \<Longrightarrow> link a b q \<Longrightarrow> t_read cr a c = Some (m, a') \<Longrightarrow> link a' b q"
  unfolding transport_laws_def by (elim conjE) metis

section \<open>The key schedule of a session\<close>

text \<open>The root and the cipher material of a direction at an epoch, as functions of what the handshake agreed.\<close>

definition key_label :: "Direction \<Rightarrow> bytes" where
  "key_label d = (case d of I2R \<Rightarrow> ascii ''mirage-key-i2r-v1'' | R2I \<Rightarrow> ascii ''mirage-key-r2i-v1'')"

definition ratchet_label :: "Direction \<Rightarrow> bytes" where
  "ratchet_label d = (case d of I2R \<Rightarrow> ascii ''mirage-ratchet-i2r-v1'' | R2I \<Rightarrow> ascii ''mirage-ratchet-r2i-v1'')"

fun root_at :: "'t frame_crypto \<Rightarrow> bytes \<Rightarrow> bytes \<Rightarrow> Direction \<Rightarrow> nat \<Rightarrow> bytes" where
  "root_at cr sb k d 0 = direction_root (fc_blake3 cr) (key_label d) k sb"
| "root_at cr sb k d (Suc e) = ratchet_root (fc_blake3 cr) (ratchet_label d) (root_at cr sb k d e) (word_of_nat (Suc e)) sb"

definition material :: "'t frame_crypto \<Rightarrow> bytes \<Rightarrow> bytes \<Rightarrow> Direction \<Rightarrow> nat \<Rightarrow> bytes \<times> bytes" where
  "material cr sb k d e = projr (expand_cipher cr (root_at cr sb k d e) (word_of_nat e))"

definition keyed :: "'t frame_crypto \<Rightarrow> bytes \<Rightarrow> bytes \<Rightarrow> Direction \<Rightarrow> nat \<Rightarrow> DirState \<Rightarrow> bool" where
  "keyed cr sb k d e s \<longleftrightarrow> (ds_key s, ds_iv s) = material cr sb k d e"

abbreviation ep :: "'t SessionFramer \<Rightarrow> nat" where
  "ep f \<equiv> unat (epoch f)"

text \<open>A framer of the session: its keys are those of its epoch, and its grace window those of the epoch before.\<close>

definition framer_inv :: "'t frame_crypto \<Rightarrow> bytes \<Rightarrow> bytes \<Rightarrow> 't SessionFramer \<Rightarrow> bool" where
  "framer_inv cr sb k f \<longleftrightarrow> sf_binding f = sb \<and> epoch_ok (epoch f) \<and>
     k_session_i2r f = root_at cr sb k I2R (ep f) \<and> k_session_r2i f = root_at cr sb k R2I (ep f) \<and>
     keyed cr sb k (send_direction f) (ep f) (sf_send f) \<and> keyed cr sb k (opposite (send_direction f)) (ep f) (sf_recv f) \<and>
     (case recv_prev f of None \<Rightarrow> True | Some p \<Rightarrow> epoch f \<noteq> 0 \<and> keyed cr sb k (opposite (send_direction f)) (ep f - 1) p)"

lemma expand_total:
  assumes "kdf_laws cr" "length root = 32"
  obtains k where "expand_cipher cr root e = Ok k"
proof -
  obtain hk where hk: "hkdf_from_prk cr root = Some hk" "\<And>info. hkdf_expand cr hk info 44 \<noteq> None"
    using assms unfolding kdf_laws_def by blast
  obtain out where "hkdf_expand cr hk (ascii ''mirage-cipher-v1-e'' @ decimal (unat e)) 44 = Some out"
    using hk(2) by fast
  with hk(1) that show ?thesis by (simp add: expand_cipher_def)
qed

lemma length_root_at: "kdf_laws cr \<Longrightarrow> length (root_at cr sb k d e) = 32"
  by (cases e) (simp_all add: kdf_laws_def direction_root_def ratchet_root_def)

lemma expand_material: "kdf_laws cr \<Longrightarrow> expand_cipher cr (root_at cr sb k d e) (word_of_nat e) = Ok (material cr sb k d e)"
  using expand_total [of cr "root_at cr sb k d e" "word_of_nat e"] length_root_at [of cr sb k d e] by (force simp: material_def)

lemma dir_states_keyed:
  "ds_key (fst (dir_states r a b)) = fst (case r of Initiator \<Rightarrow> a | Responder \<Rightarrow> b)"
  "ds_iv (fst (dir_states r a b)) = snd (case r of Initiator \<Rightarrow> a | Responder \<Rightarrow> b)"
  "ds_seq (fst (dir_states r a b)) = 0"
  "ds_key (snd (dir_states r a b)) = fst (case r of Initiator \<Rightarrow> b | Responder \<Rightarrow> a)"
  "ds_iv (snd (dir_states r a b)) = snd (case r of Initiator \<Rightarrow> b | Responder \<Rightarrow> a)"
  "ds_seq (snd (dir_states r a b)) = 0"
  by (auto simp: dir_states_def Let_def split: Role.splits)

lemma from_session_keys_inv:
  assumes "kdf_laws cr" "from_session_keys cr keys r = Ok f"
  shows "framer_inv cr (session_binding keys) (keys_mlkem_ss keys) f" "sf_role f = r" "epoch f = 0" "recv_prev f = None"
    "ds_seq (sf_send f) = 0" "ds_seq (sf_recv f) = 0" "sf_inner f = transport keys"
proof -
  let ?sb = "session_binding keys" and ?k = "keys_mlkem_ss keys"
  have roots: "direction_root (fc_blake3 cr) (ascii ''mirage-key-i2r-v1'') ?k ?sb = root_at cr ?sb ?k I2R 0"
    "direction_root (fc_blake3 cr) (ascii ''mirage-key-r2i-v1'') ?k ?sb = root_at cr ?sb ?k R2I 0"
    by (simp_all add: key_label_def)
  have f: "f = \<lparr>sf_binding = ?sb, epoch = 0, sf_role = r, k_session_i2r = root_at cr ?sb ?k I2R 0, k_session_r2i = root_at cr ?sb ?k R2I 0,
      sf_send = fst (dir_states r (material cr ?sb ?k I2R 0) (material cr ?sb ?k R2I 0)),
      sf_recv = snd (dir_states r (material cr ?sb ?k I2R 0) (material cr ?sb ?k R2I 0)), recv_prev = None,
      last_recv_epoch = 0, sf_inner = transport keys\<rparr>"
    using assms(2) expand_material [OF assms(1), of ?sb ?k I2R 0] expand_material [OF assms(1), of ?sb ?k R2I 0]
    by (simp add: from_session_keys_def Let_def roots del: root_at.simps)
  show "framer_inv cr ?sb ?k f"
    by (cases r) (simp_all add: f framer_inv_def keyed_def dir_states_keyed send_direction_def del: root_at.simps)
  show "sf_role f = r" "epoch f = 0" "recv_prev f = None" "sf_inner f = transport keys"
    "ds_seq (sf_send f) = 0" "ds_seq (sf_recv f) = 0"
    by (simp_all add: f dir_states_keyed)
qed

lemma epoch_word: "word_of_nat (unat e) = (e :: u64)"
  by simp

lemma ucast_word_of_nat_32: "(ucast (word_of_nat n :: u64) :: u32) = word_of_nat n"
proof -
  have "n mod 2 ^ 64 mod 2 ^ 32 = n mod (2 ^ 32 :: nat)"
    by (rule mod_mod_cancel) (simp add: le_imp_power_dvd)
  then show ?thesis
    by (simp add: word_unat_eq_iff unsigned_ucast_eq unsigned_of_nat take_bit_eq_mod)
qed

text \<open>Advancing succeeds below the last epoch and keeps the invariant.\<close>

definition next_send :: "'t frame_crypto \<Rightarrow> bytes \<Rightarrow> bytes \<Rightarrow> 't SessionFramer \<Rightarrow> DirState" where
  "next_send cr sb k f = fst (dir_states (sf_role f) (material cr sb k I2R (Suc (ep f))) (material cr sb k R2I (Suc (ep f))))"

definition next_recv :: "'t frame_crypto \<Rightarrow> bytes \<Rightarrow> bytes \<Rightarrow> 't SessionFramer \<Rightarrow> DirState" where
  "next_recv cr sb k f = snd (dir_states (sf_role f) (material cr sb k I2R (Suc (ep f))) (material cr sb k R2I (Suc (ep f))))"

definition advanced :: "'t frame_crypto \<Rightarrow> bytes \<Rightarrow> bytes \<Rightarrow> 't SessionFramer \<Rightarrow> 't SessionFramer" where
  "advanced cr sb k f =
     f\<lparr>k_session_i2r := root_at cr sb k I2R (Suc (ep f)), k_session_r2i := root_at cr sb k R2I (Suc (ep f)),
       sf_send := next_send cr sb k f, recv_prev := Some (sf_recv f), sf_recv := next_recv cr sb k f, epoch := epoch f + 1\<rparr>"

lemma advance_ok:
  assumes "kdf_laws cr" "framer_inv cr sb k f" "epoch f \<noteq> - 1" "epoch_ok (epoch f + 1)"
  shows "advance_epoch cr f = (Ok (), advanced cr sb k f)"
proof -
  have e: "epoch f + 1 = word_of_nat (Suc (ep f))" "(ucast (epoch f + 1) :: u32) = word_of_nat (Suc (ep f))"
    using ucast_word_of_nat_32 [of "Suc (ep f)"] by (simp_all add: add.commute)
  have r: "ratchet_root (fc_blake3 cr) (ascii ''mirage-ratchet-i2r-v1'') (k_session_i2r f) (ucast (epoch f + 1)) (sf_binding f)
      = root_at cr sb k I2R (Suc (ep f))"
    "ratchet_root (fc_blake3 cr) (ascii ''mirage-ratchet-r2i-v1'') (k_session_r2i f) (ucast (epoch f + 1)) (sf_binding f)
      = root_at cr sb k R2I (Suc (ep f))"
    using assms(2) by (simp_all only: e ucast_word_of_nat_32 framer_inv_def root_at.simps ratchet_label_def Direction.case)
  have x: "expand_cipher cr (root_at cr sb k d (Suc (ep f))) (epoch f + 1) = Ok (material cr sb k d (Suc (ep f)))" for d
    using expand_material [OF assms(1), of sb k d "Suc (ep f)"] by (simp only: e)
  show ?thesis
    using assms(3,4) leD [OF assms(4)]
    by (simp only: advance_epoch_def Let_def r x install_epoch_def sum.case advanced_def next_send_def next_recv_def if_False simp_thms)
qed

lemma unat_epoch_succ: "epoch f \<noteq> - 1 \<Longrightarrow> unat (epoch f + 1) = Suc (ep f)"
  by (rule unat_succ)

lemma keyed_next:
  "keyed cr sb k (send_direction f) (Suc (ep f)) (next_send cr sb k f)"
  "keyed cr sb k (opposite (send_direction f)) (Suc (ep f)) (next_recv cr sb k f)"
  by (cases "sf_role f"; simp add: keyed_def next_send_def next_recv_def dir_states_keyed send_direction_def)+

lemma advanced_sel [simp]:
  "sf_binding (advanced cr sb k f) = sf_binding f" "sf_role (advanced cr sb k f) = sf_role f" "epoch (advanced cr sb k f) = epoch f + 1"
  "sf_send (advanced cr sb k f) = next_send cr sb k f" "sf_recv (advanced cr sb k f) = next_recv cr sb k f"
  "recv_prev (advanced cr sb k f) = Some (sf_recv f)" "sf_inner (advanced cr sb k f) = sf_inner f"
  "send_direction (advanced cr sb k f) = send_direction f" "last_recv_epoch (advanced cr sb k f) = last_recv_epoch f"
  "k_session_i2r (advanced cr sb k f) = root_at cr sb k I2R (Suc (ep f))"
  "k_session_r2i (advanced cr sb k f) = root_at cr sb k R2I (Suc (ep f))"
  "ds_seq (next_send cr sb k f) = 0" "ds_seq (next_recv cr sb k f) = 0"
  by (simp_all add: advanced_def send_direction_def next_send_def next_recv_def dir_states_keyed)

lemma advanced_inv:
  assumes "framer_inv cr sb k f" "epoch f \<noteq> - 1" "epoch_ok (epoch f + 1)"
  shows "framer_inv cr sb k (advanced cr sb k f)"
proof -
  have "epoch f + 1 \<noteq> 0" using assms(2) by (metis add_eq_0_iff2)
  then show ?thesis
    using assms keyed_next [of cr sb k f] unat_epoch_succ [OF assms(2)] by (simp add: framer_inv_def del: root_at.simps)
qed

lemma recv_material:
  assumes "kdf_laws cr" "framer_inv cr sb k f" "epoch f \<noteq> - 1" "epoch_ok (epoch f + 1)"
  shows "recv_material_for cr f (epoch f + 1) = Ok (material cr sb k (opposite (send_direction f)) (Suc (ep f)))"
proof -
  have e: "epoch f + 1 = word_of_nat (Suc (ep f))" by (simp add: add.commute)
  have m: "expand_cipher cr (root_at cr sb k d (Suc (ep f))) (word_of_nat (Suc (ep f))) = Ok (material cr sb k d (Suc (ep f)))" for d
    by (rule expand_material [OF assms(1)])
  have r: "root_at cr sb k d (Suc (ep f)) = ratchet_root (fc_blake3 cr) (ratchet_label d) (root_at cr sb k d (ep f)) (word_of_nat (Suc (ep f))) sb" for d
    by simp
  show ?thesis
    using assms(2) leD [OF assms(4)] m [of I2R] m [of R2I] unfolding r
    by (cases "sf_role f")
      (simp_all only: recv_material_for_def e ucast_word_of_nat_32 framer_inv_def send_direction_def Role.case opposite.simps
        ratchet_label_def Direction.case if_False Let_def prod.case simp_thms split: if_splits)
qed

section \<open>Positions in flight\<close>

text \<open>
  \<open>sched r nxt lo ps end\<close>: seen by a receiver at epoch \<open>r\<close> that expects sequence number \<open>nxt e\<close> in epoch \<open>e\<close> and has
  received nothing later than epoch \<open>lo\<close>, the positions \<open>ps\<close> in flight followed by the sender's own position
  \<open>end\<close> are in order, never skip an epoch the receiver has not reached, and continue the receiver's count
  wherever it still holds the keys.
\<close>

fun sched :: "nat \<Rightarrow> (nat \<Rightarrow> u64) \<Rightarrow> nat \<Rightarrow> (nat \<times> u64) list \<Rightarrow> nat \<times> u64 \<Rightarrow> bool" where
  "sched r nxt lo [] (e, n) = (lo \<le> e \<and> e \<le> max r lo \<and> (r \<le> Suc e \<longrightarrow> n = nxt e) \<and> (\<forall>e' > e. nxt e' = 0))"
| "sched r nxt lo ((e, n) # ps) end =
     (lo \<le> e \<and> e \<le> Suc (max r lo) \<and> (r \<le> Suc e \<longrightarrow> n = nxt e) \<and> n \<noteq> - 1 \<and> sched r (nxt(e := n + 1)) e ps end)"

lemma sched_send: "sched r nxt lo ps (e, n) \<Longrightarrow> n \<noteq> - 1 \<Longrightarrow> sched r nxt lo (ps @ [(e, n)]) (e, n + 1)"
  by (induction r nxt lo ps "(e, n)" rule: sched.induct) auto

lemma sched_advance_send: "sched r nxt lo ps (e, n) \<Longrightarrow> sched r nxt lo (ps @ [(Suc e, 0)]) (Suc e, 1)"
  by (induction r nxt lo ps "(e, n)" rule: sched.induct) auto

lemma sched_follow: "sched r nxt lo ps (e, n) \<Longrightarrow> Suc e \<le> r \<Longrightarrow> sched r nxt lo ps (Suc e, 0)"
  by (induction r nxt lo ps "(e, n)" rule: sched.induct) auto

lemma sched_receiver:
  assumes "sched r nxt lo ps end" "r \<le> r'" "\<And>e. lo \<le> e \<Longrightarrow> r' \<le> Suc e \<Longrightarrow> nxt' e = nxt e" "\<And>e. nxt' e = nxt e \<or> nxt' e = 0"
  shows "sched r' nxt' lo ps end"
  using assms
proof (induction r nxt lo ps "end" arbitrary: nxt' rule: sched.induct)
  case (1 r nxt lo e n)
  have "nxt' e' = 0" if "e < e'" for e' using 1(1) 1(4) [of e'] that by auto
  with 1(1) 1(2) 1(3) [of e] show ?case by auto
next
  case (2 r nxt lo e n ps "end")
  have le: "lo \<le> e" and s: "sched r (nxt(e := n + 1)) e ps end" using 2(2) by simp_all
  have "sched r' (nxt'(e := n + 1)) e ps end"
    by (rule 2(1) [OF s 2(3)]) (use 2(4,5) le in auto)
  with 2(2,3) 2(4) [of e] show ?case by auto
qed

lemma sched_bounds: "sched r nxt lo ps (e, n) \<Longrightarrow> p \<in> set ps \<Longrightarrow> fst p \<le> e"
proof (induction r nxt lo ps "(e, n)" rule: sched.induct)
  case (2 r nxt lo e' n' ps)
  have "lo \<le> e" if "sched r nxt lo ps (e, n)" for r nxt lo
    using that by (induction r nxt lo ps "(e, n)" rule: sched.induct) auto
  with 2 show ?case by auto
qed simp

section \<open>Frames in flight\<close>

text \<open>A frame in flight, with its epoch, sequence number, plaintext and inner ciphertext.\<close>

type_synonym flight = "nat \<times> u64 \<times> bytes \<times> bytes"

definition sealed :: "'t frame_crypto \<Rightarrow> bytes \<Rightarrow> bytes \<Rightarrow> Direction \<Rightarrow> nat \<Rightarrow> u64 \<Rightarrow> bytes \<Rightarrow> bytes \<Rightarrow> bool" where
  "sealed cr sb k d e n c ct \<longleftrightarrow> e < 2 ^ 32 \<and>
     aead_encrypt cr (fst (material cr sb k d e)) (nonce_bytes (snd (material cr sb k d e)) (word_of_nat e) n)
       (aad_bytes sb d (word_of_nat e) n) c = Some ct"

definition frame_wire :: "'t frame_crypto \<Rightarrow> bytes \<Rightarrow> bytes \<Rightarrow> Direction \<Rightarrow> flight \<Rightarrow> bytes \<Rightarrow> bool" where
  "frame_wire cr sb k d g w = (case g of (e, n, m, c) \<Rightarrow>
     \<exists>ct. sealed cr sb k d e n c ct \<and> MIN_OUTER_CT_LEN \<le> length ct \<and> length ct \<le> MAX_OUTER_CT_LEN \<and>
       w = to_be (word_of_nat (length ct) :: u16) @ ct)"

definition expects :: "'t SessionFramer \<Rightarrow> nat \<Rightarrow> u64" where
  "expects f e =
     (if e = ep f then ds_seq (sf_recv f)
      else if Suc e = ep f then (case recv_prev f of None \<Rightarrow> 0 | Some p \<Rightarrow> ds_seq p) else 0)"

lemma epoch_ok_of_nat: "e < 2 ^ 32 \<Longrightarrow> epoch_ok (word_of_nat e)" "e < 2 ^ 32 \<Longrightarrow> unat (word_of_nat e :: u64) = e"
  by (simp_all add: word_le_nat_alt unat_of_nat)

lemma epoch_ok_less: "epoch_ok e \<Longrightarrow> unat e < 2 ^ 32"
  by (simp add: word_le_nat_alt)

lemma epoch_ok_max: "epoch_ok e \<Longrightarrow> e \<noteq> - 1"
  by (auto simp: word_le_nat_alt unsigned_minus_1_eq_mask mask_eq_exp_minus_1)

lemma open_same:
  assumes "aead_laws cr" "sealed cr sb k d e n c ct" "(key, iv) = material cr sb k d e" "e' = word_of_nat e"
  shows "try_outer_decrypt cr key iv sb d e' n ct = Some c"
  using assms unfolding aead_laws_def sealed_def try_outer_decrypt_def by (metis fst_conv snd_conv)

lemma open_other:
  assumes "aead_laws cr" "sealed cr sb k d e n c ct" "epoch_ok e'" "unat e' \<noteq> e"
  shows "try_outer_decrypt cr key iv sb d e' n' ct = None"
proof -
  let ?x = "\<lambda>(e :: u64) (n :: u64). [direction_byte d] @ to_be (ucast e :: u32) @ to_be n"
  have a: "aad_bytes sb d e n = sb @ ?x e n" for e n by (simp add: aad_bytes_def)
  have e: "e < 2 ^ 32" using assms(2) by (simp add: sealed_def)
  have "aad_bytes sb d e' n' \<noteq> aad_bytes sb d (word_of_nat e) n"
    using aad_inj [OF assms(3) epoch_ok_of_nat(1) [OF e]] epoch_ok_of_nat(2) [OF e] assms(4) by metis
  then have "?x (word_of_nat e) n \<noteq> ?x e' n'" unfolding a by metis
  moreover have "length (?x e n) = 13" for e n by simp
  ultimately show ?thesis
    using assms(1,2) unfolding aead_laws_def sealed_def try_outer_decrypt_def a by (elim conjE) metis
qed

text \<open>Which frames the trial decryption opens.\<close>

lemma recv_outer_flight:
  assumes laws: "kdf_laws cr" "aead_laws cr" and inv: "framer_inv cr sb k f"
    and s: "sealed cr sb k (opposite (send_direction f)) e n c ct"
    and range: "e \<le> Suc (ep f)" "ep f \<le> Suc e \<longrightarrow> n = expects f e" and prev: "Suc e = ep f \<longrightarrow> recv_prev f \<noteq> None"
  shows "e = ep f \<Longrightarrow> recv_outer cr ct f = Ok (c, Current)"
    "Suc e = ep f \<Longrightarrow> recv_outer cr ct f = Ok (c, Prev)"
    "e = Suc (ep f) \<Longrightarrow> recv_outer cr ct f = Ok (c, Next) \<and> epoch f \<noteq> - 1 \<and> epoch_ok (epoch f + 1)"
    "Suc e < ep f \<Longrightarrow> \<exists>x. recv_outer cr ct f = Err x"
proof -
  let ?d = "opposite (send_direction f)" and ?s = "sf_recv f"
  have b: "sf_binding f = sb" "epoch_ok (epoch f)" "(ds_key ?s, ds_iv ?s) = material cr sb k ?d (ep f)"
    using inv by (simp_all add: framer_inv_def keyed_def)
  have e: "e < 2 ^ 32" using s by (simp add: sealed_def)
  have max: "epoch f \<noteq> - 1" using b(2) by (rule epoch_ok_max)
  have prev_epoch: "epoch_ok (epoch f - 1)" "unat (epoch f - 1) = ep f - 1" if "epoch f \<noteq> 0"
  proof -
    have "1 \<le> epoch f" using that by (simp add: word_le_nat_alt Suc_le_eq unat_gt_0)
    then show "unat (epoch f - 1) = ep f - 1" by (simp add: unat_sub)
    with b(2) show "epoch_ok (epoch f - 1)" by (simp add: word_le_nat_alt)
  qed
  have cur_no: "try_outer_decrypt cr (ds_key ?s) (ds_iv ?s) sb ?d (epoch f) (ds_seq ?s) ct = None" if "e \<noteq> ep f"
    using open_other [OF laws(2) s b(2)] that by simp
  have prev_no: "(if epoch f = 0 then None else case recv_prev f of None \<Rightarrow> None
      | Some p \<Rightarrow> try_outer_decrypt cr (ds_key p) (ds_iv p) sb ?d (epoch f - 1) (ds_seq p) ct) = None" if "Suc e \<noteq> ep f"
  proof (cases "epoch f = 0")
    case False
    then have "unat (epoch f - 1) \<noteq> e" using prev_epoch(2) that unat_gt_0 [of "epoch f"] by linarith
    with False show ?thesis using open_other [OF laws(2) s prev_epoch(1)] by (simp split: option.splits)
  qed simp
  have miss: "recv_outer cr ct f = (case recv_material_for cr f (epoch f + 1) of Inl e \<Rightarrow> Err e
      | Inr (nk, niv) \<Rightarrow> (case try_outer_decrypt cr nk niv sb ?d (epoch f + 1) 0 ct of
            Some ct \<Rightarrow> Ok (ct, Next) | None \<Rightarrow> Err (State ''outer aead decrypt failed'')))" if "e \<noteq> ep f" "Suc e \<noteq> ep f"
    using max unfolding recv_outer_def Let_def b(1) cur_no [OF that(1)] prev_no [OF that(2)] option.case by (simp only: if_False)
  show "recv_outer cr ct f = Ok (c, Current)" if "e = ep f"
  proof -
    have "n = ds_seq ?s" using range(2) that by (simp add: expects_def)
    moreover have "try_outer_decrypt cr (ds_key ?s) (ds_iv ?s) sb ?d (epoch f) n ct = Some c"
      by (rule open_same [OF laws(2) s]) (use b(3) that in simp_all)
    ultimately show ?thesis by (simp add: recv_outer_def Let_def b(1))
  qed
  show "recv_outer cr ct f = Ok (c, Prev)" if "Suc e = ep f"
  proof -
    have nz: "epoch f \<noteq> 0" using that by auto
    obtain p where p: "recv_prev f = Some p" using prev \<open>Suc e = ep f\<close> by auto
    then have kp: "(ds_key p, ds_iv p) = material cr sb k ?d e" "n = ds_seq p"
      using inv range(2) that [symmetric] by (simp_all add: framer_inv_def keyed_def expects_def)
    have "epoch f - 1 = word_of_nat e" using prev_epoch(2) [OF nz] that by (metis diff_Suc_1 epoch_word)
    then have "try_outer_decrypt cr (ds_key p) (ds_iv p) sb ?d (epoch f - 1) n ct = Some c"
      by (rule open_same [OF laws(2) s kp(1)])
    moreover have "e \<noteq> ep f" using that by simp
    ultimately show ?thesis using cur_no p nz by (simp add: recv_outer_def Let_def b(1) kp(2))
  qed
  show "recv_outer cr ct f = Ok (c, Next) \<and> epoch f \<noteq> - 1 \<and> epoch_ok (epoch f + 1)" if "e = Suc (ep f)"
  proof -
    have ok: "epoch_ok (epoch f + 1)" "epoch f + 1 = word_of_nat e"
      using e that epoch_ok_of_nat(1) [OF e] by (simp_all add: add.commute)
    have "n = 0" using range(2) that by (simp add: expects_def)
    moreover obtain nk niv where m: "material cr sb k ?d e = (nk, niv)" by fastforce
    moreover have "try_outer_decrypt cr nk niv sb ?d (epoch f + 1) n ct = Some c"
      by (rule open_same [OF laws(2) s m [symmetric] ok(2)])
    moreover have "e \<noteq> ep f" "Suc e \<noteq> ep f" using that by simp_all
    ultimately show ?thesis
      using miss recv_material [OF laws(1) inv max ok(1), folded that] ok(1) max by simp
  qed
  show "\<exists>x. recv_outer cr ct f = Err x" if "Suc e < ep f"
  proof (cases "epoch_ok (epoch f + 1)")
    case True
    have "unat (epoch f + 1) \<noteq> e" using unat_succ [OF max] that by simp
    then have "try_outer_decrypt cr key iv sb ?d (epoch f + 1) 0 ct = None" for key iv
      by (rule open_other [OF laws(2) s True])
    moreover have "e \<noteq> ep f" "Suc e \<noteq> ep f" using that by simp_all
    ultimately show ?thesis
      using miss recv_material [OF laws(1) inv max True] by (simp split: prod.splits)
  next
    case False
    moreover have "e \<noteq> ep f" "Suc e \<noteq> ep f" using that by simp_all
    ultimately show ?thesis
      using miss by (simp add: recv_material_for_def not_le)
  qed
qed

section \<open>One direction of the connection\<close>

abbreviation flight_pos :: "flight \<Rightarrow> nat \<times> u64" where
  "flight_pos \<equiv> (\<lambda>(e, n, m, c). (e, n))"

abbreviation flight_msg :: "flight \<Rightarrow> bytes \<times> bytes" where
  "flight_msg \<equiv> (\<lambda>(e, n, m, c). (m, c))"

definition flight_ok :: "'t frame_crypto \<Rightarrow> bytes \<Rightarrow> bytes \<Rightarrow> Direction \<Rightarrow> flight \<Rightarrow> u64 \<times> bytes \<Rightarrow> bool" where
  "flight_ok cr sb k d g ew \<longleftrightarrow> fst g = unat (fst ew) \<and> frame_wire cr sb k d g (snd ew)"

definition lane ::
  "'t frame_crypto \<Rightarrow> ('t \<Rightarrow> 't \<Rightarrow> (bytes \<times> bytes) list \<Rightarrow> bool) \<Rightarrow> bytes \<Rightarrow> bytes \<Rightarrow> 't SessionFramer \<Rightarrow> 't SessionFramer \<Rightarrow>
     flight list \<Rightarrow> nat \<Rightarrow> (u64 \<times> bytes) list \<Rightarrow> bool" where
  "lane cr link sb k a b gs lo ws \<longleftrightarrow>
     list_all2 (flight_ok cr sb k (send_direction a)) gs ws \<and> lo \<le> ep b \<and> (recv_prev b = None \<longrightarrow> lo = ep b) \<and>
     sched (ep b) (expects b) lo (map flight_pos gs) (ep a, ds_seq (sf_send a)) \<and>
     link (sf_inner a) (sf_inner b) (map flight_msg gs)"

lemma send_ok:
  assumes "framer_send cr m f = (Ok w, f')"
  obtains c t ct where "t_write cr (sf_inner f) m = Some (c, t)" "m \<noteq> []" "length m \<le> MAX_FRAME_PLAINTEXT"
    "aead_encrypt cr (ds_key (sf_send f)) (nonce_bytes (ds_iv (sf_send f)) (epoch f) (ds_seq (sf_send f)))
       (aad_bytes (sf_binding f) (send_direction f) (epoch f) (ds_seq (sf_send f))) c = Some ct"
    "length ct \<le> MAX_OUTER_CT_LEN" "ds_seq (sf_send f) \<noteq> - 1" "w = to_be (word_of_nat (length ct) :: u16) @ ct"
    "f' = f\<lparr>sf_inner := t, sf_send := (sf_send f)\<lparr>ds_seq := ds_seq (sf_send f) + 1\<rparr>\<rparr>"
  using assms by (auto simp: framer_send_def Let_def not_less split: if_splits option.splits prod.splits)

lemma advance_ok_iff: "advance_epoch cr f = (Ok u, f') \<Longrightarrow> epoch f \<noteq> - 1 \<and> epoch_ok (epoch f + 1)"
  by (auto simp: advance_epoch_def Let_def not_less split: if_splits)

lemma frame_write_ok:
  assumes "kdf_laws cr" "framer_inv cr sb k f" "frame_write cr t m f = (Ok w, f')"
  obtains "framer_send cr m f = (Ok w, f')"
  | "epoch f \<noteq> - 1" "epoch_ok (epoch f + 1)" "framer_send cr m (advanced cr sb k f) = (Ok w, f')"
proof -
  consider "framer_send cr m f = (Ok w, f')"
    | f1 where "advance_epoch cr f = (Ok (), f1)" "framer_send cr m f1 = (Ok w, f')"
    using assms(3) by (auto simp: frame_write_def maybe_advance_def split: option.splits if_splits prod.splits sum.splits)
  then show ?thesis
  proof cases
    case (2 f1)
    with advance_ok_iff [OF 2(1)] advance_ok [OF assms(1,2)] that(2) show ?thesis by simp
  qed (rule that)
qed

lemma sent_inv:
  "framer_inv cr sb k f \<Longrightarrow> framer_inv cr sb k (f\<lparr>sf_inner := t, sf_send := (sf_send f)\<lparr>ds_seq := n\<rparr>\<rparr>)"
  by (simp add: framer_inv_def keyed_def send_direction_def split: option.splits)

lemma send_flight:
  assumes laws: "aead_laws cr" "transport_laws cr link"
    and inv: "framer_inv cr sb k a" and lk: "link (sf_inner a) b q" and send: "framer_send cr m a = (Ok w, a')"
  obtains c where "flight_ok cr sb k (send_direction a) (ep a, ds_seq (sf_send a), m, c) (epoch a, w)"
    "link (sf_inner a') b (q @ [(m, c)])" "framer_inv cr sb k a'" "ds_seq (sf_send a) \<noteq> - 1"
    "a' = a\<lparr>sf_inner := sf_inner a', sf_send := (sf_send a)\<lparr>ds_seq := ds_seq (sf_send a) + 1\<rparr>\<rparr>"
    "\<exists>c. t_write cr (sf_inner a) m = Some (c, sf_inner a')"
proof -
  obtain c t ct where s: "t_write cr (sf_inner a) m = Some (c, t)" "m \<noteq> []"
    "aead_encrypt cr (ds_key (sf_send a)) (nonce_bytes (ds_iv (sf_send a)) (epoch a) (ds_seq (sf_send a)))
       (aad_bytes (sf_binding a) (send_direction a) (epoch a) (ds_seq (sf_send a))) c = Some ct"
    "length ct \<le> MAX_OUTER_CT_LEN" "ds_seq (sf_send a) \<noteq> - 1" "w = to_be (word_of_nat (length ct) :: u16) @ ct"
    "a' = a\<lparr>sf_inner := t, sf_send := (sf_send a)\<lparr>ds_seq := ds_seq (sf_send a) + 1\<rparr>\<rparr>"
    using send_ok [OF send] by metis
  have l: "length c = length m + 16" "link t b (q @ [(m, c)])" using link_write [OF laws(2) lk s(1)] by auto
  have "length ct = length c + 16" using laws(1) s(3) unfolding aead_laws_def by blast
  then have min: "MIN_OUTER_CT_LEN \<le> length ct" using l(1) s(2) by (cases m) (simp_all add: frame_lens)
  have i: "sf_binding a = sb" "epoch_ok (epoch a)" "(ds_key (sf_send a), ds_iv (sf_send a)) = material cr sb k (send_direction a) (ep a)"
    using inv by (simp_all add: framer_inv_def keyed_def)
  have m: "fst (material cr sb k (send_direction a) (ep a)) = ds_key (sf_send a)"
    "snd (material cr sb k (send_direction a) (ep a)) = ds_iv (sf_send a)" using i(3) by (metis fst_conv snd_conv)+
  have "sealed cr sb k (send_direction a) (ep a) (ds_seq (sf_send a)) c ct"
    using s(3) epoch_ok_less [OF i(2)] by (simp add: sealed_def m i(1))
  then have "flight_ok cr sb k (send_direction a) (ep a, ds_seq (sf_send a), m, c) (epoch a, w)"
    using min s(4,6) by (auto simp: flight_ok_def frame_wire_def)
  with that l(2) s show ?thesis using sent_inv [OF inv] by simp
qed

lemma lane_write:
  assumes laws: "kdf_laws cr" "aead_laws cr" "transport_laws cr link" and inv: "framer_inv cr sb k a"
    and l: "lane cr link sb k a b gs lo ws" and w: "frame_write cr t m a = (Ok w, a')"
  obtains e n c where "lane cr link sb k a' b (gs @ [(e, n, m, c)]) lo (ws @ [(epoch a', w)])" "framer_inv cr sb k a'"
    "sf_role a' = sf_role a"
  using laws(1) inv w
proof (rule frame_write_ok)
  assume s: "framer_send cr m a = (Ok w, a')"
  obtain c where c: "flight_ok cr sb k (send_direction a) (ep a, ds_seq (sf_send a), m, c) (epoch a, w)"
    "link (sf_inner a') (sf_inner b) (map flight_msg gs @ [(m, c)])" "framer_inv cr sb k a'" "ds_seq (sf_send a) \<noteq> - 1"
    "a' = a\<lparr>sf_inner := sf_inner a', sf_send := (sf_send a)\<lparr>ds_seq := ds_seq (sf_send a) + 1\<rparr>\<rparr>"
    by (rule send_flight [OF laws(2,3) inv _ s, of "sf_inner b" "map flight_msg gs"]) (use l in \<open>auto simp: lane_def\<close>)
  have a': "epoch a' = epoch a" "send_direction a' = send_direction a" "ds_seq (sf_send a') = ds_seq (sf_send a) + 1" "sf_role a' = sf_role a"
    by (subst c(5), simp add: send_direction_def)+
  have "lane cr link sb k a' b (gs @ [(ep a, ds_seq (sf_send a), m, c)]) lo (ws @ [(epoch a', w)])"
    using l c(1,2) sched_send [OF _ c(4)] by (simp add: lane_def a' list_all2_appendI)
  with c(3) a'(4) that show thesis by blast
next
  let ?a = "advanced cr sb k a"
  assume e: "epoch a \<noteq> - 1" "epoch_ok (epoch a + 1)" and s: "framer_send cr m ?a = (Ok w, a')"
  obtain c where c: "flight_ok cr sb k (send_direction ?a) (ep ?a, ds_seq (sf_send ?a), m, c) (epoch ?a, w)"
    "link (sf_inner a') (sf_inner b) (map flight_msg gs @ [(m, c)])" "framer_inv cr sb k a'"
    "a' = ?a\<lparr>sf_inner := sf_inner a', sf_send := (sf_send ?a)\<lparr>ds_seq := ds_seq (sf_send ?a) + 1\<rparr>\<rparr>"
    by (rule send_flight [OF laws(2,3) advanced_inv [OF inv e] _ s, of "sf_inner b" "map flight_msg gs"]) (use l in \<open>auto simp: lane_def\<close>)
  have a': "epoch a' = epoch a + 1" "send_direction a' = send_direction a" "ds_seq (sf_send a') = 1" "sf_role a' = sf_role a"
    by (subst c(4), simp add: send_direction_def)+
  have "flight_ok cr sb k (send_direction a) (Suc (ep a), 0, m, c) (epoch a + 1, w)"
    using c(1) unat_succ [OF e(1)] by simp
  then have "lane cr link sb k a' b (gs @ [(Suc (ep a), 0, m, c)]) lo (ws @ [(epoch a', w)])"
    using l c(2) sched_advance_send [of "ep b" "expects b" lo "map flight_pos gs" "ep a" "ds_seq (sf_send a)"] unat_succ [OF e(1)] by (simp add: lane_def a' list_all2_appendI)
  with c(3) a'(4) that show thesis by blast
qed

lemma expects_advanced:
  assumes "epoch b \<noteq> - 1"
  shows "Suc (ep b) \<le> Suc e \<Longrightarrow> expects (advanced cr sb k b) e = expects b e"
    "expects (advanced cr sb k b) e = expects b e \<or> expects (advanced cr sb k b) e = 0"
  using unat_succ [OF assms] by (auto simp: expects_def)

lemma lane_write_back:
  assumes laws: "kdf_laws cr" "aead_laws cr" "transport_laws cr link" and inv: "framer_inv cr sb k b"
    and l: "lane cr link sb k a b gs lo ws" and w: "frame_write cr t m b = (Ok w, b')"
  shows "lane cr link sb k a b' gs lo ws"
  using laws(1) inv w
proof (rule frame_write_ok)
  assume "framer_send cr m b = (Ok w, b')"
  then obtain c t where s: "t_write cr (sf_inner b) m = Some (c, t)"
    "b' = b\<lparr>sf_inner := t, sf_send := (sf_send b)\<lparr>ds_seq := ds_seq (sf_send b) + 1\<rparr>\<rparr>"
    by (metis send_ok)
  have "expects b' = expects b" by (rule ext) (simp add: expects_def s(2))
  then show ?thesis using l link_write_back [OF laws(3) _ s(1)] by (simp add: lane_def s(2))
next
  let ?b = "advanced cr sb k b"
  assume e: "epoch b \<noteq> - 1" and "framer_send cr m ?b = (Ok w, b')"
  then obtain c t where s: "t_write cr (sf_inner ?b) m = Some (c, t)"
    "b' = ?b\<lparr>sf_inner := t, sf_send := (sf_send ?b)\<lparr>ds_seq := ds_seq (sf_send ?b) + 1\<rparr>\<rparr>"
    by (metis send_ok)
  have x: "expects b' = expects ?b" "ep b' = Suc (ep b)"
    by (rule ext, simp add: expects_def s(2)) (simp add: s(2) unat_succ [OF e])
  have "sched (Suc (ep b)) (expects ?b) lo (map flight_pos gs) (ep a, ds_seq (sf_send a))"
    by (rule sched_receiver [of "ep b" "expects b"]) (use l expects_advanced [OF e] in \<open>auto simp: lane_def\<close>)
  then show ?thesis using l link_write_back [OF laws(3), of "sf_inner a" "sf_inner b"] s(1)
    by (auto simp: lane_def x) (simp_all add: s(2))
qed

lemma framer_recv_wire:
  assumes "MIN_OUTER_CT_LEN \<le> length ct" "length ct \<le> MAX_OUTER_CT_LEN" "w = to_be (word_of_nat (length ct) :: u16) @ ct"
  shows "framer_recv cr w f = (case recv_outer cr ct f of
      Inl e \<Rightarrow> (Err e, f)
    | Inr (inner_ct, which) \<Rightarrow>
      (case t_read cr (sf_inner f) inner_ct of
         None \<Rightarrow> (Err (Noise ''read''), f)
       | Some (plaintext, tr) \<Rightarrow>
         (case recv_commit cr which (f\<lparr>sf_inner := tr\<rparr>) of (Inl e, f') \<Rightarrow> (Err e, f') | (Inr _, f') \<Rightarrow> (Ok plaintext, f'))))"
proof -
  have p: "take 2 w = to_be (word_of_nat (length ct) :: u16)" "drop LEN_PREFIX_SIZE w = ct" "length w = 2 + length ct"
    using assms(3) by (simp_all add: LEN_PREFIX_SIZE_def)
  have u: "unat (word_of_nat (length ct) :: u16) = length ct"
    using assms(2) by (simp add: unat_of_nat frame_lens)
  show ?thesis
    using assms(1,2) unfolding framer_recv_def p from_be_to_be_u16 u Let_def by (simp add: LEN_PREFIX_SIZE_def)
qed

text \<open>The receiver after a frame of the current, the previous and the next epoch.\<close>

lemma commit_current:
  "ds_seq (sf_recv f) \<noteq> - 1 \<Longrightarrow> recv_commit cr Current f =
     (Ok (), f\<lparr>sf_recv := (sf_recv f)\<lparr>ds_seq := ds_seq (sf_recv f) + 1\<rparr>, last_recv_epoch := epoch f, recv_prev := None\<rparr>)"
  by (cases f) (simp add: recv_commit_def Let_def expire_prev_recv_def)

lemma commit_prev:
  "recv_prev f = Some p \<Longrightarrow> ds_seq p \<noteq> - 1 \<Longrightarrow>
     recv_commit cr Prev f = (Ok (), f\<lparr>recv_prev := Some (p\<lparr>ds_seq := ds_seq p + 1\<rparr>)\<rparr>)"
  by (simp add: recv_commit_def)

lemma commit_next:
  assumes "kdf_laws cr" "framer_inv cr sb k f" "epoch f \<noteq> - 1" "epoch_ok (epoch f + 1)"
  shows "recv_commit cr Next f =
    (Ok (), (advanced cr sb k f)\<lparr>sf_recv := (next_recv cr sb k f)\<lparr>ds_seq := 1\<rparr>, last_recv_epoch := epoch f + 1\<rparr>)"
  by (simp add: recv_commit_def advance_ok [OF assms])

lemma inner_inv: "framer_inv cr sb k (f\<lparr>sf_inner := t\<rparr>) = framer_inv cr sb k f"
  by (simp add: framer_inv_def send_direction_def split: option.splits)

lemma sel_inner [simp]:
  "send_direction (f\<lparr>sf_inner := t\<rparr>) = send_direction f" "next_send cr sb k (f\<lparr>sf_inner := t\<rparr>) = next_send cr sb k f"
  "next_recv cr sb k (f\<lparr>sf_inner := t\<rparr>) = next_recv cr sb k f"
  by (simp_all add: send_direction_def next_send_def next_recv_def)

text \<open>
  Delivery of the oldest frame of a lane: a receiver at most one epoch ahead of it reads its plaintext; the
  invariants of both directions survive.
\<close>

definition received ::
  "'t frame_crypto \<Rightarrow> ('t \<Rightarrow> 't \<Rightarrow> (bytes \<times> bytes) list \<Rightarrow> bool) \<Rightarrow> bytes \<Rightarrow> bytes \<Rightarrow> 't SessionFramer \<Rightarrow> 't SessionFramer \<Rightarrow>
     't SessionFramer \<Rightarrow> flight list \<Rightarrow> nat \<Rightarrow> (u64 \<times> bytes) list \<Rightarrow> bool" where
  "received cr link sb k a b b' gs e ws \<longleftrightarrow> lane cr link sb k a b' gs e ws \<and> framer_inv cr sb k b' \<and> sf_role b' = sf_role b \<and>
     (\<forall>hs lo us. lane cr link sb k b a hs lo us \<longrightarrow> lane cr link sb k b' a hs lo us) \<and> (ep b \<le> e \<longrightarrow> ep b' = e)"

lemma receivedI:
  assumes laws: "transport_laws cr link" and lb: "lane cr link sb k a b ((e, n, m, c) # gs) lo ((x, w) # ws)"
    and rd: "t_read cr (sf_inner b) c = Some (m, t)" and lk: "link (sf_inner a) t (map flight_msg gs)"
    and inv: "framer_inv cr sb k b'" and b': "sf_inner b' = t" "sf_role b' = sf_role b" "ep b \<le> ep b'" "e \<le> ep b'"
    and prev: "recv_prev b' = None \<longrightarrow> e = ep b'" "ep b \<le> e \<longrightarrow> ep b' = e"
    and nxt: "\<And>x. e \<le> x \<Longrightarrow> ep b' \<le> Suc x \<Longrightarrow> expects b' x = ((expects b)(e := n + 1)) x"
      "\<And>x. expects b' x = ((expects b)(e := n + 1)) x \<or> expects b' x = 0"
    and snd: "epoch b' = epoch b \<and> sf_send b' = sf_send b \<or> ep b' = Suc (ep b) \<and> ep b' = e \<and> ds_seq (sf_send b') = 0"
  shows "received cr link sb k a b b' gs e ws"
proof -
  have s: "sched (ep b) (expects b) lo ((e, n) # map flight_pos gs) (ep a, ds_seq (sf_send a))"
    and ws: "list_all2 (flight_ok cr sb k (send_direction a)) gs ws"
    using lb by (simp_all only: lane_def list.map prod.case list_all2_Cons)
  have "sched (ep b') (expects b') e (map flight_pos gs) (ep a, ds_seq (sf_send a))"
    by (rule sched_receiver [of "ep b" "(expects b)(e := n + 1)", OF _ b'(3) nxt]) (use s in simp_all)
  then have fwd: "lane cr link sb k a b' gs e ws"
    using ws lk b' prev(1) by (simp add: lane_def)
  have dir: "send_direction b' = send_direction b" using b'(2) by (simp add: send_direction_def)
  have "e \<le> ep a" using sched_bounds [OF s, of "(e, n)"] by simp
  then have "sched (ep a) (expects a) lo (map flight_pos hs) (ep b', ds_seq (sf_send b'))"
    if "sched (ep a) (expects a) lo (map flight_pos hs) (ep b, ds_seq (sf_send b))" for lo hs
    using snd that sched_follow [OF that] by auto
  then have "lane cr link sb k b' a hs lo us" if "lane cr link sb k b a hs lo us" for hs lo us
    using that link_read_back [OF laws _ rd] by (simp add: lane_def dir b'(1))
  with fwd inv b'(2) prev(2) show ?thesis by (simp add: received_def)
qed

lemma lane_recv:
  assumes laws: "kdf_laws cr" "aead_laws cr" "transport_laws cr link"
    and inv: "framer_inv cr sb k b" and dir: "send_direction a = opposite (send_direction b)"
    and l: "lane cr link sb k a b ((e, n, m, c) # gs) lo ((x, w) # ws)"
  shows "ep b \<le> Suc e \<Longrightarrow> \<exists>b'. framer_recv cr w b = (Ok m, b') \<and> received cr link sb k a b b' gs e ws"
    "Suc e < ep b \<Longrightarrow> \<exists>er. fst (framer_recv cr w b) = Err er"
proof -
  have lo: "lo \<le> ep b" "recv_prev b = None \<longrightarrow> lo = ep b"
    and sc: "lo \<le> e" "e \<le> Suc (max (ep b) lo)" "ep b \<le> Suc e \<longrightarrow> n = expects b e" "n \<noteq> - 1"
    and fo: "flight_ok cr sb k (send_direction a) (e, n, m, c) (x, w)"
    and lk: "link (sf_inner a) (sf_inner b) ((m, c) # map flight_msg gs)"
    using l unfolding lane_def list.map prod.case list_all2_Cons sched.simps by blast+
  obtain ct where ct: "sealed cr sb k (opposite (send_direction b)) e n c ct" "MIN_OUTER_CT_LEN \<le> length ct"
    "length ct \<le> MAX_OUTER_CT_LEN" "w = to_be (word_of_nat (length ct) :: u16) @ ct"
    using fo by (auto simp: flight_ok_def frame_wire_def dir)
  obtain t where t: "t_read cr (sf_inner b) c = Some (m, t)" "link (sf_inner a) t (map flight_msg gs)"
    using link_read [OF laws(3) lk] by metis
  have range: "e \<le> Suc (ep b)" using sc(2) lo(1) by simp
  have prev: "Suc e = ep b \<longrightarrow> recv_prev b \<noteq> None" using sc(1) lo(2) by auto
  note outer = recv_outer_flight [OF laws(1,2) inv ct(1) range sc(3) prev]
  note rw = framer_recv_wire [OF ct(2-4), of cr b]
  let ?b = "b\<lparr>sf_inner := t\<rparr>"
  have invb: "framer_inv cr sb k ?b" using inv by (simp add: inner_inv)
  note rI = receivedI [OF laws(3) l t(1,2)]
  show "\<exists>b'. framer_recv cr w b = (Ok m, b') \<and> received cr link sb k a b b' gs e ws" if "ep b \<le> Suc e"
  proof -
    consider "e = ep b" | "Suc e = ep b" | "e = Suc (ep b)" using range \<open>ep b \<le> Suc e\<close> by linarith
    then show ?thesis
    proof cases
      case 1
      let ?b' = "?b\<lparr>sf_recv := (sf_recv b)\<lparr>ds_seq := ds_seq (sf_recv b) + 1\<rparr>, last_recv_epoch := epoch b, recv_prev := None\<rparr>"
      have n: "ds_seq (sf_recv b) = n" using sc(3) 1 by (simp add: expects_def)
      have "framer_recv cr w b = (Ok m, ?b')"
        using outer(1) [OF 1] t(1) commit_current [of ?b cr] sc(4) n by (simp add: rw)
      moreover have "framer_inv cr sb k ?b'" using inv by (simp add: framer_inv_def keyed_def send_direction_def)
      then have "received cr link sb k a b ?b' gs e ws"
        by (rule rI) (use 1 n in \<open>auto simp: expects_def\<close>)
      ultimately show ?thesis by blast
    next
      case 2
      then obtain p where p: "recv_prev b = Some p" using prev by auto
      let ?b' = "?b\<lparr>recv_prev := Some (p\<lparr>ds_seq := ds_seq p + 1\<rparr>)\<rparr>"
      have n: "ds_seq p = n" using sc(3) 2 p by (simp add: expects_def)
      have "framer_recv cr w b = (Ok m, ?b')"
        using outer(2) [OF 2] t(1) commit_prev [of ?b p cr] sc(4) n p by (simp add: rw)
      moreover have "framer_inv cr sb k ?b'" using inv p by (simp add: framer_inv_def keyed_def send_direction_def)
      then have "received cr link sb k a b ?b' gs e ws"
        by (rule rI) (use 2 n p in \<open>auto simp: expects_def\<close>)
      ultimately show ?thesis by blast
    next
      case 3
      note o = outer(3) [OF 3]
      have ok: "epoch b \<noteq> - 1" "epoch_ok (epoch b + 1)" using o by auto
      let ?b' = "(advanced cr sb k ?b)\<lparr>sf_recv := (next_recv cr sb k ?b)\<lparr>ds_seq := 1\<rparr>, last_recv_epoch := epoch ?b + 1\<rparr>"
      have n: "n = 0" using sc(3) 3 by (simp add: expects_def)
      have u: "unat (epoch b + 1) = e" using unat_succ [OF ok(1)] 3 by simp
      have "framer_recv cr w b = (Ok m, ?b')"
        using o t(1) commit_next [OF laws(1) invb] by (simp add: rw)
      moreover have "framer_inv cr sb k ?b'"
        using advanced_inv [OF invb] ok by (simp add: framer_inv_def keyed_def send_direction_def split: option.splits)
      then have "received cr link sb k a b ?b' gs e ws"
        by (rule rI) (use 3 n u in \<open>auto simp: expects_def\<close>)
      ultimately show ?thesis by blast
    qed
  qed
  show "\<exists>er. fst (framer_recv cr w b) = Err er" if "Suc e < ep b"
    using outer(4) [OF that] by (auto simp: rw)
qed

section \<open>Both directions\<close>

lemma other_other [simp]: "other (other r) = r" "other r \<noteq> r" "r \<noteq> other r"
  by (cases r; simp)+

lemma role_cases: obtains "s = r" | "s = other r"
  by (cases r; cases s) auto

definition flight_text :: "flight \<Rightarrow> bytes" where
  "flight_text = (\<lambda>(e, n, m, c). m)"

definition half ::
  "'t frame_crypto \<Rightarrow> ('t \<Rightarrow> 't \<Rightarrow> (bytes \<times> bytes) list \<Rightarrow> bool) \<Rightarrow> bytes \<Rightarrow> bytes \<Rightarrow> 't duplex \<Rightarrow> Role \<Rightarrow> flight list \<Rightarrow> nat \<Rightarrow> bool" where
  "half cr link sb k d r gs lo \<longleftrightarrow> lane cr link sb k (dx_peer d r) (dx_peer d (other r)) gs lo (dx_wire d r) \<and>
     dx_sent d r = dx_got d (other r) @ map flight_text gs"

definition duplex_inv ::
  "'t frame_crypto \<Rightarrow> ('t \<Rightarrow> 't \<Rightarrow> (bytes \<times> bytes) list \<Rightarrow> bool) \<Rightarrow> bytes \<Rightarrow> bytes \<Rightarrow> 't duplex \<Rightarrow> bool" where
  "duplex_inv cr link sb k d \<longleftrightarrow>
     (\<forall>r. framer_inv cr sb k (dx_peer d r) \<and> sf_role (dx_peer d r) = r \<and> (\<exists>gs lo. half cr link sb k d r gs lo))"

definition frame_laws :: "'t frame_crypto \<Rightarrow> ('t \<Rightarrow> 't \<Rightarrow> (bytes \<times> bytes) list \<Rightarrow> bool) \<Rightarrow> bool" where
  "frame_laws cr link \<longleftrightarrow> kdf_laws cr \<and> aead_laws cr \<and> transport_laws cr link"

lemma write_half:
  assumes laws: "frame_laws cr link" and inv: "duplex_inv cr link sb k d" and st: "duplex_step cr (Write r t m) d = Some d'"
  shows "half cr link sb k d r gs lo \<Longrightarrow> \<exists>g. half cr link sb k d' r (gs @ [g]) lo"
    "half cr link sb k d (other r) gs lo \<Longrightarrow> half cr link sb k d' (other r) gs lo"
    "framer_inv cr sb k (dx_peer d' s) \<and> sf_role (dx_peer d' s) = s"
    "dx_peer d' (other r) = dx_peer d (other r)"
proof -
  note laws = laws [unfolded frame_laws_def, THEN conjunct1] laws [unfolded frame_laws_def, THEN conjunct2, THEN conjunct1]
    laws [unfolded frame_laws_def, THEN conjunct2, THEN conjunct2]
  have i: "framer_inv cr sb k (dx_peer d r)" "sf_role (dx_peer d s) = s" for r s using inv by (simp_all add: duplex_inv_def)
  obtain w f where w: "frame_write cr t m (dx_peer d r) = (Ok w, f)"
    and d': "d' = d\<lparr>dx_peer := (dx_peer d)(r := f), dx_wire := (dx_wire d)(r := dx_wire d r @ [(epoch f, w)]),
                      dx_sent := (dx_sent d)(r := dx_sent d r @ [m])\<rparr>"
    using st by (auto simp: duplex_step_def split: prod.splits sum.splits)
  have fw: "framer_inv cr sb k f \<and> sf_role f = r \<and> (\<exists>e n c. lane cr link sb k f (dx_peer d (other r)) (gs @ [(e, n, m, c)]) lo (dx_wire d r @ [(epoch f, w)]))"
    if "lane cr link sb k (dx_peer d r) (dx_peer d (other r)) gs lo (dx_wire d r)" for gs lo
    by (rule lane_write [OF laws i(1) that w]) (use i(2) in auto)
  show "\<exists>g. half cr link sb k d' r (gs @ [g]) lo" if "half cr link sb k d r gs lo"
    using fw [of gs lo] that by (fastforce simp: half_def d' flight_text_def)
  show "half cr link sb k d' (other r) gs lo" if "half cr link sb k d (other r) gs lo"
    using lane_write_back [OF laws i(1) _ w] that by (simp add: half_def d')
  have "\<exists>gs lo. lane cr link sb k (dx_peer d r) (dx_peer d (other r)) gs lo (dx_wire d r)"
    using inv unfolding duplex_inv_def half_def by blast
  then show "framer_inv cr sb k (dx_peer d' s) \<and> sf_role (dx_peer d' s) = s"
    using fw i by (auto simp: d')
  show "dx_peer d' (other r) = dx_peer d (other r)" by (simp add: d')
qed

lemma opposite_direction: "sf_role a = r \<Longrightarrow> sf_role b = other r \<Longrightarrow> send_direction a = opposite (send_direction b)"
  by (cases r) (simp_all add: send_direction_def)

lemma deliver_half:
  assumes laws: "frame_laws cr link" and inv: "duplex_inv cr link sb k d" and h: "half cr link sb k d r gs lo" and ws: "dx_wire d r = (x, w) # ws"
  obtains e n m c gs' where "gs = (e, n, m, c) # gs'" "e = unat x" "lo \<le> e" "dx_sent d r = dx_got d (other r) @ m # map flight_text gs'"
    "ep (dx_peer d (other r)) \<le> Suc e \<Longrightarrow> \<exists>b'. framer_recv cr w (dx_peer d (other r)) = (Ok m, b') \<and>
       received cr link sb k (dx_peer d r) (dx_peer d (other r)) b' gs' e ws"
    "Suc e < ep (dx_peer d (other r)) \<Longrightarrow> \<exists>er. fst (framer_recv cr w (dx_peer d (other r))) = Err er"
proof -
  note laws = laws [unfolded frame_laws_def, THEN conjunct1] laws [unfolded frame_laws_def, THEN conjunct2, THEN conjunct1]
    laws [unfolded frame_laws_def, THEN conjunct2, THEN conjunct2]
  have i: "framer_inv cr sb k (dx_peer d r)" "sf_role (dx_peer d s) = s" for r s using inv by (simp_all add: duplex_inv_def)
  have l: "lane cr link sb k (dx_peer d r) (dx_peer d (other r)) gs lo ((x, w) # ws)" using h ws by (simp add: half_def)
  then obtain g gs' where gs: "gs = g # gs'" and fo: "flight_ok cr sb k (send_direction (dx_peer d r)) g (x, w)"
    by (auto simp: lane_def list_all2_Cons2)
  obtain e n m c where g: "g = (e, n, m, c)" by (cases g)
  have "e = unat x" using fo by (simp add: flight_ok_def g)
  moreover have "lo \<le> e" using l unfolding lane_def gs g list.map prod.case sched.simps by blast
  ultimately show thesis
    using lane_recv [OF laws i(1) opposite_direction [OF i(2) i(2)] l [unfolded gs g]] h
    by (intro that [of e n m c gs']) (simp_all add: gs g half_def flight_text_def)
qed

lemma deliver_step:
  assumes laws: "frame_laws cr link" and inv: "duplex_inv cr link sb k d" and h: "half cr link sb k d r gs lo"
    and st: "duplex_step cr (Deliver r) d = Some d'"
  obtains g gs' where "gs = g # gs'" "half cr link sb k d' r gs' (fst g)" "lo \<le> fst g"
    "ep (dx_peer d (other r)) \<le> fst g \<Longrightarrow> ep (dx_peer d' (other r)) = fst g"
    "\<And>hs l. half cr link sb k d (other r) hs l \<Longrightarrow> half cr link sb k d' (other r) hs l"
    "\<And>s. framer_inv cr sb k (dx_peer d' s) \<and> sf_role (dx_peer d' s) = s" "dx_wire d r \<noteq> []"
proof -
  have i: "framer_inv cr sb k (dx_peer d r)" "sf_role (dx_peer d s) = s" for r s using inv by (simp_all add: duplex_inv_def)
  obtain x w ws m f where ws: "dx_wire d r = (x, w) # ws" and rv: "framer_recv cr w (dx_peer d (other r)) = (Ok m, f)"
    and d': "d' = d\<lparr>dx_peer := (dx_peer d)(other r := f), dx_wire := (dx_wire d)(r := ws),
                         dx_got := (dx_got d)(other r := dx_got d (other r) @ [m])\<rparr>"
    using st by (auto simp: duplex_step_def split: list.splits prod.splits sum.splits)
  show thesis
  proof (rule deliver_half [OF laws inv h ws])
    fix e n m' c gs'
    assume gs: "gs = (e, n, m', c) # gs'" and sent: "dx_sent d r = dx_got d (other r) @ m' # map flight_text gs'" and lo: "lo \<le> e"
      and yes: "ep (dx_peer d (other r)) \<le> Suc e \<Longrightarrow> \<exists>b'. framer_recv cr w (dx_peer d (other r)) = (Ok m', b') \<and>
         received cr link sb k (dx_peer d r) (dx_peer d (other r)) b' gs' e ws"
      and no: "Suc e < ep (dx_peer d (other r)) \<Longrightarrow> \<exists>er. fst (framer_recv cr w (dx_peer d (other r))) = Err er"
    have "ep (dx_peer d (other r)) \<le> Suc e" using no rv by fastforce
    with yes rv have m: "m' = m" and rc: "received cr link sb k (dx_peer d r) (dx_peer d (other r)) f gs' e ws" by auto
    show thesis
      by (rule that [OF gs]) (use rc sent lo i ws in \<open>auto simp: received_def half_def d' m\<close>)
  qed
qed

lemma duplex_step_inv:
  assumes laws: "frame_laws cr link" and inv: "duplex_inv cr link sb k d" and st: "duplex_step cr ev d = Some d'"
  shows "duplex_inv cr link sb k d'"
proof (cases ev)
  case (Write r t m)
  have "\<exists>gs lo. half cr link sb k d' s gs lo" for s
  proof (cases rule: role_cases [of s r])
    case 1
    obtain gs lo where "half cr link sb k d r gs lo" using inv unfolding duplex_inv_def by blast
    with 1 write_half(1) [OF laws inv st [unfolded Write]] show ?thesis by blast
  next
    case 2
    obtain gs lo where "half cr link sb k d (other r) gs lo" using inv unfolding duplex_inv_def by blast
    with 2 write_half(2) [OF laws inv st [unfolded Write]] show ?thesis by blast
  qed
  then show ?thesis using write_half(3) [OF laws inv st [unfolded Write]] by (simp add: duplex_inv_def)
next
  case (Deliver r)
  obtain gs lo where h: "half cr link sb k d r gs lo" using inv unfolding duplex_inv_def by blast
  obtain hs l where g: "half cr link sb k d (other r) hs l" using inv unfolding duplex_inv_def by blast
  show ?thesis
  proof (rule deliver_step [OF laws inv h st [unfolded Deliver]])
    fix g gs'
    assume a: "half cr link sb k d' r gs' (fst g)" "\<And>hs l. half cr link sb k d (other r) hs l \<Longrightarrow> half cr link sb k d' (other r) hs l"
      "\<And>s. framer_inv cr sb k (dx_peer d' s) \<and> sf_role (dx_peer d' s) = s"
    have "\<exists>gs lo. half cr link sb k d' s gs lo" for s
      by (cases rule: role_cases [of s r]) (use a(1) a(2) [OF g] in auto)
    then show ?thesis using a(3) by (simp add: duplex_inv_def)
  qed
qed

lemma duplex_run_inv:
  "frame_laws cr link \<Longrightarrow> duplex_inv cr link sb k d \<Longrightarrow> duplex_run cr evs d = Some d' \<Longrightarrow> duplex_inv cr link sb k d'"
  by (induction evs arbitrary: d) (auto split: option.splits intro: duplex_step_inv)

text \<open>The two ends of a session as the handshake leaves them.\<close>

definition session_pair ::
  "'t frame_crypto \<Rightarrow> ('t \<Rightarrow> 't \<Rightarrow> (bytes \<times> bytes) list \<Rightarrow> bool) \<Rightarrow> 't SessionKeys \<Rightarrow> 't SessionKeys \<Rightarrow> 't SessionFramer \<Rightarrow> 't SessionFramer \<Rightarrow> bool" where
  "session_pair cr link ki kr i r \<longleftrightarrow>
     from_session_keys cr ki Initiator = Ok i \<and> from_session_keys cr kr Responder = Ok r \<and>
     session_binding ki = session_binding kr \<and> keys_mlkem_ss ki = keys_mlkem_ss kr \<and>
     link (transport ki) (transport kr) [] \<and> link (transport kr) (transport ki) []"

lemma fresh_lane:
  assumes "recv_prev b = None" "epoch a = 0" "epoch b = 0" "ds_seq (sf_send a) = 0" "ds_seq (sf_recv b) = 0" "link (sf_inner a) (sf_inner b) []"
  shows "lane cr link sb k a b [] 0 []"
proof -
  have "expects b e = 0" for e using assms by (simp add: expects_def)
  with assms show ?thesis by (simp add: lane_def)
qed

lemma duplex_new_inv:
  assumes "frame_laws cr link" "session_pair cr link ki kr i r"
  shows "duplex_inv cr link (session_binding kr) (keys_mlkem_ss kr) (duplex_new i r)"
    "half cr link (session_binding kr) (keys_mlkem_ss kr) (duplex_new i r) s [] 0"
proof -
  have law: "kdf_laws cr" using assms(1) by (simp add: frame_laws_def)
  have p: "from_session_keys cr ki Initiator = Ok i" "from_session_keys cr kr Responder = Ok r"
    "session_binding ki = session_binding kr" "keys_mlkem_ss ki = keys_mlkem_ss kr"
    "link (transport ki) (transport kr) []" "link (transport kr) (transport ki) []"
    using assms(2) by (simp_all add: session_pair_def)
  note I = from_session_keys_inv [OF law p(1)] and R = from_session_keys_inv [OF law p(2)]
  have "lane cr link (session_binding kr) (keys_mlkem_ss kr) i r [] 0 []" "lane cr link (session_binding kr) (keys_mlkem_ss kr) r i [] 0 []"
    by (rule fresh_lane; simp add: I(2-7) R(2-7) p(5,6))+
  then show h: "half cr link (session_binding kr) (keys_mlkem_ss kr) (duplex_new i r) s [] 0" for s
    by (cases s) (simp_all add: half_def duplex_new_def)
  have "framer_inv cr (session_binding kr) (keys_mlkem_ss kr) (dx_peer (duplex_new i r) s) \<and> sf_role (dx_peer (duplex_new i r) s) = s" for s
    using I(1,2) R(1,2) p(3,4) by (cases s) (simp_all add: duplex_new_def)
  then show "duplex_inv cr link (session_binding kr) (keys_mlkem_ss kr) (duplex_new i r)" using h unfolding duplex_inv_def by blast
qed

section \<open>What a session delivers\<close>

text \<open>
  C3: Exactly which frames arrive.  In any run of a session, with both ends writing and ratcheting on clocks of
  their own and frames in flight in both directions: the receiver has read a prefix of what was sent, in order,
  and the oldest frame in flight is read as the next message sent if its receiver is at most one epoch ahead of
  the epoch it was sent in.  Otherwise the receiver fails.
\<close>

theorem frames_delivered_iff:
  assumes "frame_laws cr link" "session_pair cr link ki kr i r" "duplex_run cr evs (duplex_new i r) = Some d"
    and "dx_wire d s = (e, w) # ws"
  shows "take (length (dx_got d (other s))) (dx_sent d s) = dx_got d (other s) \<and>
    (if unat (epoch (dx_peer d (other s))) \<le> Suc (unat e)
     then fst (framer_recv cr w (dx_peer d (other s))) = Ok (dx_sent d s ! length (dx_got d (other s)))
     else \<exists>er. fst (framer_recv cr w (dx_peer d (other s))) = Err er)"
proof -
  let ?sb = "session_binding kr" and ?k = "keys_mlkem_ss kr"
  have inv: "duplex_inv cr link ?sb ?k d" using duplex_run_inv [OF assms(1) duplex_new_inv(1) [OF assms(1,2)] assms(3)] .
  then obtain gs lo where h: "half cr link ?sb ?k d s gs lo" unfolding duplex_inv_def by blast
  show ?thesis by (rule deliver_half [OF assms(1) inv h assms(4)]) (auto simp: nth_append not_le)
qed

text \<open>When only one side writes, the other follows it and is never ahead of a frame.\<close>

definition only :: "Role \<Rightarrow> duplex_event \<Rightarrow> bool" where
  "only s ev = (case ev of Write r t m \<Rightarrow> r = s | Deliver r \<Rightarrow> r = s)"

definition follows ::
  "'t frame_crypto \<Rightarrow> ('t \<Rightarrow> 't \<Rightarrow> (bytes \<times> bytes) list \<Rightarrow> bool) \<Rightarrow> bytes \<Rightarrow> bytes \<Rightarrow> Role \<Rightarrow> 't duplex \<Rightarrow> bool" where
  "follows cr link sb k s d \<longleftrightarrow> duplex_inv cr link sb k d \<and>
     (\<exists>gs lo. half cr link sb k d s gs lo \<and> ep (dx_peer d (other s)) \<le> lo)"

lemma follows_step:
  assumes laws: "frame_laws cr link" and f: "follows cr link sb k s d" and o: "only s ev" and st: "duplex_step cr ev d = Some d'"
  shows "follows cr link sb k s d'"
proof -
  have inv: "duplex_inv cr link sb k d" using f by (simp add: follows_def)
  obtain gs lo where h: "half cr link sb k d s gs lo" "ep (dx_peer d (other s)) \<le> lo" using f by (auto simp: follows_def)
  have "\<exists>gs lo. half cr link sb k d' s gs lo \<and> ep (dx_peer d' (other s)) \<le> lo"
  proof (cases ev)
    case (Write r t m)
    with o have st: "duplex_step cr (Write s t m) d = Some d'" using st by (simp add: only_def)
    then show ?thesis using write_half(1) [OF laws inv st h(1)] write_half(4) [OF laws inv st] h(2) by auto
  next
    case (Deliver r)
    with o have st: "duplex_step cr (Deliver s) d = Some d'" using st by (simp add: only_def)
    show ?thesis by (rule deliver_step [OF laws inv h(1) st]) (use h(2) in \<open>auto\<close>)
  qed
  with duplex_step_inv [OF laws inv st] show ?thesis by (simp add: follows_def)
qed

lemma follows_run:
  "frame_laws cr link \<Longrightarrow> follows cr link sb k s d \<Longrightarrow> list_all (only s) evs \<Longrightarrow> duplex_run cr evs d = Some d' \<Longrightarrow> follows cr link sb k s d'"
  by (induction evs arbitrary: d) (auto split: option.splits intro: follows_step)

lemma follows_delivers:
  assumes laws: "frame_laws cr link" and f: "follows cr link sb k s d" and ne: "dx_wire d s \<noteq> []"
  obtains d' where "duplex_step cr (Deliver s) d = Some d'" "dx_sent d' = dx_sent d" "dx_wire d' s = tl (dx_wire d s)"
proof -
  have inv: "duplex_inv cr link sb k d" using f by (simp add: follows_def)
  obtain gs lo where h: "half cr link sb k d s gs lo" "ep (dx_peer d (other s)) \<le> lo" using f by (auto simp: follows_def)
  obtain x w ws where ws: "dx_wire d s = (x, w) # ws" using ne by (cases "dx_wire d s") auto
  show thesis
  proof (rule deliver_half [OF laws inv h(1) ws])
    fix e n m c gs'
    assume "lo \<le> e" and yes: "ep (dx_peer d (other s)) \<le> Suc e \<Longrightarrow> \<exists>b'. framer_recv cr w (dx_peer d (other s)) = (Ok m, b') \<and>
         received cr link sb k (dx_peer d s) (dx_peer d (other s)) b' gs' e ws"
    with h(2) obtain b' where "framer_recv cr w (dx_peer d (other s)) = (Ok m, b')" by fastforce
    then have "duplex_step cr (Deliver s) d = Some (d\<lparr>dx_peer := (dx_peer d)(other s := b'), dx_wire := (dx_wire d)(s := ws),
        dx_got := (dx_got d)(other s := dx_got d (other s) @ [m])\<rparr>)" by (simp add: duplex_step_def ws)
    then show thesis by (rule that) (simp_all add: ws)
  qed
qed

lemma duplex_run_append: "duplex_run cr (xs @ ys) d = (case duplex_run cr xs d of None \<Rightarrow> None | Some d' \<Rightarrow> duplex_run cr ys d')"
  by (induction xs arbitrary: d) (auto split: option.splits)

lemma follows_drains:
  "frame_laws cr link \<Longrightarrow> follows cr link sb k s d \<Longrightarrow> length (dx_wire d s) = n \<Longrightarrow>
     \<exists>d'. duplex_run cr (replicate n (Deliver s)) d = Some d' \<and> dx_sent d' = dx_sent d \<and> dx_got d' (other s) = dx_sent d s"
proof (induction n arbitrary: d)
  case 0
  then obtain gs lo where "half cr link sb k d s gs lo" by (auto simp: follows_def)
  with 0 show ?case by (simp add: half_def lane_def)
next
  case (Suc n)
  obtain d1 where d1: "duplex_step cr (Deliver s) d = Some d1" "dx_sent d1 = dx_sent d" "dx_wire d1 s = tl (dx_wire d s)"
    by (rule follows_delivers [OF Suc.prems(1,2)]) (use Suc.prems(3) in auto)
  have "follows cr link sb k s d1" by (rule follows_step [OF Suc.prems(1,2) _ d1(1)]) (simp add: only_def)
  from Suc.IH [OF Suc.prems(1) this] d1 Suc.prems(3) show ?case by simp
qed

lemma new_follows:
  assumes "frame_laws cr link" "session_pair cr link ki kr i r"
  shows "follows cr link (session_binding kr) (keys_mlkem_ss kr) s (duplex_new i r)"
proof -
  have "epoch (dx_peer (duplex_new i r) (other s)) = 0"
    using assms from_session_keys_inv(3) by (cases s) (auto simp: duplex_new_def session_pair_def frame_laws_def)
  then show ?thesis
    using duplex_new_inv [OF assms] unfolding follows_def by (metis unsigned_0 le_refl)
qed

text \<open>
  C18: A one-way flow loses nothing, however its sender's clock runs: at any point the frames in flight can all
  be delivered, and the receiver has then read exactly what was written.
\<close>

theorem one_way_delivers:
  assumes "frame_laws cr link" "session_pair cr link ki kr i r" "list_all (only s) evs" "duplex_run cr evs (duplex_new i r) = Some d"
  shows "\<exists>d'. duplex_run cr (evs @ replicate (length (dx_wire d s)) (Deliver s)) (duplex_new i r) = Some d' \<and>
    dx_got d' (other s) = dx_sent d s"
  using follows_drains [OF assms(1) follows_run [OF assms(1) new_follows [OF assms(1,2)] assms(3,4)] refl] assms(4)
  by (auto simp: duplex_run_append)

text \<open>One write of a side that is behind its clock moves it one epoch.\<close>

lemma write_catches_up:
  assumes "kdf_laws cr" "framer_inv cr sb k f" "frame_write cr (Some t) m f = (Ok w, f')"
    and "epoch f < t" "epoch f < MAX_SEND_LEAD_EPOCHS"
  shows "epoch f' = epoch f + 1"
proof -
  have "unat (saturating_add (last_recv_epoch f) MAX_SEND_LEAD_EPOCHS) \<ge> 16"
    by (simp add: unat_saturating_add MAX_SEND_LEAD_EPOCHS_def)
  then have "\<not> saturating_add (last_recv_epoch f) MAX_SEND_LEAD_EPOCHS \<le> epoch f"
    using assms(5) by (simp add: word_le_nat_alt word_less_nat_alt MAX_SEND_LEAD_EPOCHS_def)
  then obtain f1 where "advance_epoch cr f = (Ok (), f1)" "framer_send cr m f1 = (Ok w, f')"
    using assms(3,4) by (auto simp: frame_write_def maybe_advance_def split: if_splits prod.splits sum.splits)
  moreover have "f1 = advanced cr sb k f"
    using advance_ok [OF assms(1,2)] advance_ok_iff [OF calculation(1)] calculation(1) by simp
  ultimately show ?thesis by (auto elim: send_ok)
qed

text \<open>
  C34: A defect.  Two ends whose clocks have passed three epoch boundaries since they last wrote catch up by one
  epoch per frame.  If one end writes three frames while the other writes one, that one frame can no longer be
  opened when it arrives, although nothing was lost, reordered or modified, and the session ends.
\<close>

theorem idle_catch_up_breaks:
  assumes "frame_laws cr link" "session_pair cr link ki kr i r" "3 \<le> t"
    and "duplex_run cr [Write Initiator (Some t) m1, Write Initiator (Some t) m2, Write Initiator (Some t) m3, Write Responder (Some t) m4]
      (duplex_new i r) = Some d"
  shows "duplex_step cr (Deliver Responder) d = None"
proof -
  let ?sb = "session_binding kr" and ?k = "keys_mlkem_ss kr"
  have law: "kdf_laws cr" using assms(1) by (simp add: frame_laws_def)
  have e0: "epoch i = 0" "epoch r = 0"
    using assms(2) from_session_keys_inv(3) [OF law] by (auto simp: session_pair_def)
  note new = duplex_new_inv(1) [OF assms(1,2)]
  obtain d1 d2 d3 where st: "duplex_step cr (Write Initiator (Some t) m1) (duplex_new i r) = Some d1"
    "duplex_step cr (Write Initiator (Some t) m2) d1 = Some d2" "duplex_step cr (Write Initiator (Some t) m3) d2 = Some d3"
    "duplex_step cr (Write Responder (Some t) m4) d3 = Some d"
    using assms(4) by (auto split: option.splits)
  note i1 = duplex_step_inv [OF assms(1) new st(1)]
  note i2 = duplex_step_inv [OF assms(1) i1 st(2)]
  note i3 = duplex_step_inv [OF assms(1) i2 st(3)]
  note i4 = duplex_step_inv [OF assms(1) i3 st(4)]
  have up: "epoch (dx_peer x' s) = epoch (dx_peer x s) + 1 \<and> dx_peer x' (other s) = dx_peer x (other s) \<and>
      dx_wire x' (other s) = dx_wire x (other s) \<and> (\<exists>w. dx_wire x' s = dx_wire x s @ [(epoch (dx_peer x' s), w)])"
    if "duplex_step cr (Write s (Some t) m) x = Some x'" "duplex_inv cr link ?sb ?k x" "epoch (dx_peer x s) < 3" for x x' s m
  proof -
    have "epoch (dx_peer x s) < t" "epoch (dx_peer x s) < MAX_SEND_LEAD_EPOCHS"
      using that(3) assms(3) by (auto simp: MAX_SEND_LEAD_EPOCHS_def word_less_nat_alt word_le_nat_alt)
    moreover have "framer_inv cr ?sb ?k (dx_peer x s)" using that(2) by (simp add: duplex_inv_def)
    ultimately show ?thesis
      using that(1) write_catches_up [OF law] by (auto simp: duplex_step_def split: prod.splits sum.splits)
  qed
  have p0: "dx_peer (duplex_new i r) Initiator = i" "dx_peer (duplex_new i r) Responder = r" "dx_wire (duplex_new i r) s = []" for s
    by (simp_all add: duplex_new_def)
  have u1: "epoch (dx_peer d1 Initiator) = 1" "dx_peer d1 Responder = r" "dx_wire d1 Responder = []"
    using up [OF st(1) new] e0 p0 by auto
  have u2: "epoch (dx_peer d2 Initiator) = 2" "dx_peer d2 Responder = r" "dx_wire d2 Responder = []"
    using up [OF st(2) i1] u1 by auto
  have u3: "epoch (dx_peer d3 Initiator) = 3" "dx_peer d3 Responder = r" "dx_wire d3 Responder = []"
    using up [OF st(3) i2] u2 by auto
  obtain w where u4: "epoch (dx_peer d Initiator) = 3" "dx_wire d Responder = [(1, w)]"
    using up [OF st(4) i3] u3 e0 by auto
  obtain gs lo where h: "half cr link ?sb ?k d Responder gs lo" using i4 unfolding duplex_inv_def by blast
  show ?thesis
    by (rule deliver_half [OF assms(1) i4 h u4(2)]) (use u4 in \<open>auto simp: duplex_step_def split: prod.splits sum.splits\<close>)
qed

section \<open>A concrete instance\<close>

text \<open>
  An AEAD whose tag repeats the position part of the associated data, blank inner tags, and a constant key
  derivation.  They satisfy the laws and nothing more.
\<close>

definition demo_tag :: "bytes \<Rightarrow> bytes" where
  "demo_tag a = take 16 (drop (length a - 13) a @ replicate 16 0)"

definition demo_frames :: "unit frame_crypto" where
  "demo_frames =
     \<lparr>fc_blake3 = (\<lambda>_. replicate 32 0), hkdf_from_prk = Some, hkdf_expand = (\<lambda>_ _ n. Some (replicate n 0)),
      aead_encrypt = (\<lambda>k n a m. Some (m @ demo_tag a)),
      aead_decrypt = (\<lambda>k n a c. if drop (length c - 16) c = demo_tag a then Some (take (length c - 16) c) else None),
      t_write = (\<lambda>_ m. Some (m @ replicate 16 0, ())),
      t_read = (\<lambda>_ c. Some (take (length c - 16) c, ()))\<rparr>"

definition demo_link :: "unit \<Rightarrow> unit \<Rightarrow> (bytes \<times> bytes) list \<Rightarrow> bool" where
  "demo_link a b q = list_all (\<lambda>(m, c). c = m @ replicate 16 0) q"

lemma length_demo_tag [simp]: "length (demo_tag a) = 16"
  by (simp add: demo_tag_def del: take_append)

lemma demo_tag_inj:
  assumes "length x = 13" "length x' = 13" "demo_tag (sb @ x) = demo_tag (sb @ x')"
  shows "x = x'"
proof -
  have "demo_tag (sb @ y) = y @ replicate 3 0" if "length y = 13" for y
    using that by (simp add: demo_tag_def take_replicate min_def)
  with assms show ?thesis by simp
qed

lemma demo_frame_laws: "frame_laws demo_frames demo_link" "hkdf_laws demo_frames"
proof -
  have "aead_laws demo_frames"
    unfolding aead_laws_def by (auto simp: demo_frames_def dest: demo_tag_inj)
  moreover have "kdf_laws demo_frames" by (simp add: kdf_laws_def demo_frames_def)
  moreover have "transport_laws demo_frames demo_link" by (auto simp: transport_laws_def demo_frames_def demo_link_def)
  ultimately show "frame_laws demo_frames demo_link" by (simp add: frame_laws_def)
  show "hkdf_laws demo_frames" by (auto simp: hkdf_laws_def demo_frames_def)
qed

definition demo_keys :: "unit SessionKeys" where
  "demo_keys = \<lparr>session_binding = replicate 32 1, transport = (), keys_mlkem_ss = replicate 32 2\<rparr>"

definition demo_framer :: "Role \<Rightarrow> unit SessionFramer" where
  "demo_framer r = projr (from_session_keys demo_frames demo_keys r)"

lemma demo_pair: "session_pair demo_frames demo_link demo_keys demo_keys (demo_framer Initiator) (demo_framer Responder)"
  by (simp add: session_pair_def demo_framer_def from_session_keys_def Let_def expand_cipher_def demo_frames_def demo_link_def)

text \<open>Writes of this instance succeed while the counters are small.\<close>

definition small :: "nat \<Rightarrow> 't SessionFramer \<Rightarrow> bool" where
  "small n f \<longleftrightarrow> unat (epoch f) \<le> n \<and> unat (ds_seq (sf_send f)) \<le> n"

lemma small_not_max: "unat (x :: u64) \<le> n \<Longrightarrow> n < 1000 \<Longrightarrow> x \<noteq> - 1 \<and> unat (x + 1) \<le> Suc n \<and> epoch_ok (x + 1)"
proof -
  assume a: "unat x \<le> n" "n < 1000"
  then have "x \<noteq> - 1" by (auto simp: unsigned_minus_1_eq_mask mask_eq_exp_minus_1)
  with a unat_succ [of x] show ?thesis by (simp add: word_le_nat_alt)
qed

lemma demo_send:
  assumes "small n f" "n < 1000" "m \<noteq> []" "length m \<le> 16384"
  shows "\<exists>w f'. framer_send demo_frames m f = (Ok w, f') \<and> small (Suc n) f' \<and> epoch f' = epoch f"
  using assms small_not_max [of "ds_seq (sf_send f)" n]
  by (simp add: framer_send_def demo_frames_def Let_def frame_lens small_def)

lemma demo_advance:
  assumes "small n f" "n < 1000"
  shows "\<exists>f'. advance_epoch demo_frames f = (Ok (), f') \<and> small (Suc n) f'"
  using assms small_not_max [of "epoch f" n]
  by (auto simp: advance_epoch_def install_epoch_def Let_def expand_cipher_def demo_frames_def small_def dir_states_keyed)

lemma demo_write:
  assumes "small n f" "Suc n < 1000" "m \<noteq> []" "length m \<le> 16384"
  shows "\<exists>w f'. frame_write demo_frames t m f = (Ok w, f') \<and> small (Suc (Suc n)) f' \<and> (t = None \<longrightarrow> epoch f' = epoch f)"
proof -
  have s: "small (Suc n) f" using assms(1) by (simp add: small_def)
  obtain f2 where f2: "advance_epoch demo_frames f = (Ok (), f2)" "small (Suc n) f2"
    using demo_advance [OF assms(1)] assms(2) by auto
  have ma: "\<exists>b f1. maybe_advance demo_frames u f = (Ok b, f1) \<and> small (Suc n) f1" for u
    using s f2 by (auto simp: maybe_advance_def)
  show ?thesis
  proof (cases t)
    case None
    then show ?thesis using demo_send [OF s assms(2-4)] by (auto simp: frame_write_def)
  next
    case (Some u)
    obtain b f1 where f1: "maybe_advance demo_frames u f = (Ok b, f1)" "small (Suc n) f1" using ma by blast
    then show ?thesis using demo_send [OF f1(2) assms(2-4)] Some by (auto simp: frame_write_def)
  qed
qed

lemma demo_step:
  assumes "\<forall>r. small n (dx_peer d r)" "Suc n < 1000" "m \<noteq> []" "length m \<le> 16384"
  shows "\<exists>d' w. duplex_step demo_frames (Write s t m) d = Some d' \<and> (\<forall>r. small (Suc (Suc n)) (dx_peer d' r)) \<and>
    dx_wire d' = (dx_wire d)(s := dx_wire d s @ [(epoch (dx_peer d' s), w)]) \<and> dx_sent d' = (dx_sent d)(s := dx_sent d s @ [m]) \<and>
    dx_got d' = dx_got d \<and> dx_peer d' (other s) = dx_peer d (other s)"
proof -
  obtain w f where "frame_write demo_frames t m (dx_peer d s) = (Ok w, f)" "small (Suc (Suc n)) f"
    using demo_write [of n "dx_peer d s" m t] assms by blast
  moreover have "small (Suc (Suc n)) (dx_peer d r)" for r using assms(1) by (meson small_def le_Suc_eq)
  ultimately show ?thesis by (auto simp: duplex_step_def)
qed

lemma demo_new: "small 0 (dx_peer (duplex_new (demo_framer Initiator) (demo_framer Responder)) r)"
  "epoch (demo_framer s) = 0"
proof -
  have "epoch (demo_framer s) = 0" "ds_seq (sf_send (demo_framer s)) = 0" for s
    by (simp_all add: demo_framer_def from_session_keys_def Let_def expand_cipher_def demo_frames_def dir_states_keyed)
  then show "small 0 (dx_peer (duplex_new (demo_framer Initiator) (demo_framer Responder)) r)" "epoch (demo_framer s) = 0"
    by (cases r; simp add: small_def duplex_new_def)+
qed

theorem frames_delivered_iff_witness:
  "\<exists>d e w. duplex_run demo_frames [Write Initiator (Some 5) [7]] (duplex_new (demo_framer Initiator) (demo_framer Responder)) = Some d \<and>
     dx_wire d Initiator = [(e, w)] \<and> fst (framer_recv demo_frames w (dx_peer d Responder)) = Ok [7]"
proof -
  let ?new = "duplex_new (demo_framer Initiator) (demo_framer Responder)"
  obtain d w where d: "duplex_step demo_frames (Write Initiator (Some 5) [7]) ?new = Some d"
    "dx_wire d Initiator = [(epoch (dx_peer d Initiator), w)]" "dx_sent d Initiator = [[7]]" "dx_got d Responder = []"
    "dx_peer d Responder = demo_framer Responder"
    using demo_step [of 0 ?new "[7]" Initiator "Some 5"] demo_new(1) by (fastforce simp: duplex_new_def)
  have "duplex_run demo_frames [Write Initiator (Some 5) [7]] ?new = Some d" using d(1) by simp
  from frames_delivered_iff [OF demo_frame_laws(1) demo_pair this d(2)] d this show ?thesis by (auto simp: demo_new(2))
qed

theorem one_way_delivers_witness:
  "\<exists>d'. duplex_run demo_frames [Write Initiator (Some 5) [7], Write Initiator (Some 5) [8], Deliver Initiator, Deliver Initiator]
       (duplex_new (demo_framer Initiator) (demo_framer Responder)) = Some d' \<and> dx_got d' Responder = [[7], [8]]"
proof -
  let ?new = "duplex_new (demo_framer Initiator) (demo_framer Responder)"
  obtain d1 w1 where d1: "duplex_step demo_frames (Write Initiator (Some 5) [7]) ?new = Some d1" "\<forall>r. small 2 (dx_peer d1 r)"
    "dx_wire d1 Initiator = [w1]" "dx_sent d1 Initiator = [[7]]"
    using demo_step [of 0 ?new "[7]" Initiator "Some 5"] demo_new(1) by (fastforce simp: duplex_new_def numeral_2_eq_2)
  obtain d2 where d2: "duplex_step demo_frames (Write Initiator (Some 5) [8]) d1 = Some d2"
    "length (dx_wire d2 Initiator) = 2" "dx_sent d2 Initiator = [[7], [8]]"
    using demo_step [of 2 d1 "[8]" Initiator "Some 5"] d1 by fastforce
  have "duplex_run demo_frames [Write Initiator (Some 5) [7], Write Initiator (Some 5) [8]] ?new = Some d2" using d1(1) d2(1) by simp
  from one_way_delivers [OF demo_frame_laws(1) demo_pair _ this, of Initiator] d2 show ?thesis
    by (simp add: only_def numeral_2_eq_2)
qed

theorem idle_catch_up_breaks_witness:
  "\<exists>d. duplex_run demo_frames [Write Initiator (Some 3) [7], Write Initiator (Some 3) [8], Write Initiator (Some 3) [9], Write Responder (Some 3) [4]]
       (duplex_new (demo_framer Initiator) (demo_framer Responder)) = Some d \<and> duplex_step demo_frames (Deliver Responder) d = None"
proof -
  let ?new = "duplex_new (demo_framer Initiator) (demo_framer Responder)"
  obtain d1 where d1: "duplex_step demo_frames (Write Initiator (Some 3) [7]) ?new = Some d1" "\<forall>r. small 2 (dx_peer d1 r)"
    using demo_step [of 0 ?new "[7]" Initiator "Some 3"] demo_new(1) by (auto simp: numeral_2_eq_2)
  obtain d2 where d2: "duplex_step demo_frames (Write Initiator (Some 3) [8]) d1 = Some d2" "\<forall>r. small 4 (dx_peer d2 r)"
    using demo_step [of 2 d1 "[8]" Initiator "Some 3"] d1(2) by fastforce
  obtain d3 where d3: "duplex_step demo_frames (Write Initiator (Some 3) [9]) d2 = Some d3" "\<forall>r. small 6 (dx_peer d3 r)"
    using demo_step [of 4 d2 "[9]" Initiator "Some 3"] d2(2) by fastforce
  obtain d4 where d4: "duplex_step demo_frames (Write Responder (Some 3) [4]) d3 = Some d4"
    using demo_step [of 6 d3 "[4]" Responder "Some 3"] d3(2) by fastforce
  have "duplex_run demo_frames [Write Initiator (Some 3) [7], Write Initiator (Some 3) [8], Write Initiator (Some 3) [9], Write Responder (Some 3) [4]] ?new = Some d4"
    using d1(1) d2(1) d3(1) d4 by simp
  with idle_catch_up_breaks [OF demo_frame_laws(1) demo_pair _ this] show ?thesis by auto
qed


end
