(* ===== verification/Session_Stream.thy ===== *)
theory Session_Stream
  imports Session_Duplex
begin

text \<open>
  The byte stream over a session (\<open>crates/session/src/stream.rs\<close>): \<open>poll_read\<close> reassembles frames from whatever
  pieces the carrier hands over and \<open>poll_write\<close> emits one frame per call, draining it as the carrier accepts
  bytes.  The carrier is an explicit sequence of its answers.  The theory shows that neither fragmentation nor
  buffer sizes are visible: what is read is what was written.
\<close>

section \<open>The carrier\<close>

text \<open>
  What the carrier has ready to be read: pieces of the byte stream, failures, and the end of the stream.  When
  nothing is ready a read is pending.  A read returns at most as many bytes as there is room for.
\<close>

datatype carrier_item = Chunk bytes | ReadFail string | Eof

datatype carrier_read = ReadPending | ReadErr string | ReadData bytes

fun carrier_poll_read :: "nat \<Rightarrow> carrier_item list \<Rightarrow> carrier_read \<times> carrier_item list" where
  "carrier_poll_read room [] = (ReadPending, [])"
| "carrier_poll_read room (ReadFail e # es) = (ReadErr e, es)"
| "carrier_poll_read room (Eof # es) = (ReadData [], Eof # es)"
| "carrier_poll_read room (Chunk bs # es) =
     (ReadData (take room bs), if length bs \<le> room then es else Chunk (drop room bs) # es)"

text \<open>The answers to writes: the carrier takes some of the bytes offered, or is not ready, or fails.\<close>

datatype carrier_write = Accept nat | WritePending | WriteFail string

section \<open>The stream\<close>

datatype RxState = ReadingLength nat bytes | ReadingBody nat bytes | HavePlaintext

datatype TxState = Idle | Draining bytes nat

definition DEFAULT_RATCHET_SECS :: u64 where "DEFAULT_RATCHET_SECS = 3600"

record 't SessionStream =
  framer :: "'t SessionFramer"
  rx_state :: RxState
  rx_buf :: bytes
  rx_off :: nat
  tx_state :: TxState
  ratchet_start :: instant
  ratchet_secs :: u64

abbreviation no_prefix :: RxState where
  "no_prefix \<equiv> ReadingLength 0 (replicate LEN_PREFIX_SIZE 0)"

definition SessionStream_new :: "'t SessionFramer \<Rightarrow> instant \<Rightarrow> 't SessionStream" where
  "SessionStream_new f now =
     \<lparr>framer = f, rx_state = no_prefix, rx_buf = [], rx_off = 0, tx_state = Idle, ratchet_start = now, ratchet_secs = DEFAULT_RATCHET_SECS\<rparr>"

definition set_ratchet_interval_secs :: "u64 \<Rightarrow> 't SessionStream \<Rightarrow> 't SessionStream" where
  "set_ratchet_interval_secs secs s = s\<lparr>ratchet_secs := secs\<rparr>"

section \<open>Reading\<close>

datatype session_poll = Pending | Failed string | Ready bytes

text \<open>Writing a piece into a buffer at an offset.\<close>

definition fill_at :: "nat \<Rightarrow> bytes \<Rightarrow> bytes \<Rightarrow> bytes" where
  "fill_at i d buf = take i buf @ d @ drop (i + length d) buf"

definition carrier_size :: "carrier_item list \<Rightarrow> nat" where
  "carrier_size es = sum_list (map (\<lambda>i. case i of Chunk bs \<Rightarrow> Suc (length bs) | _ \<Rightarrow> 1) es)"

lemma carrier_progress: "carrier_poll_read room es = (ReadData d, es') \<Longrightarrow> d \<noteq> [] \<Longrightarrow> carrier_size es' < carrier_size es"
  by (induction room es rule: carrier_poll_read.induct) (auto simp: carrier_size_def split: if_splits)

text \<open>
  The loop of \<open>poll_read\<close>.  Every iteration but the first consumes bytes of the carrier, so the loop ends.
\<close>

function session_poll_read ::
  "'t frame_crypto \<Rightarrow> nat \<Rightarrow> carrier_item list \<Rightarrow> 't SessionStream \<Rightarrow> session_poll \<times> carrier_item list \<times> 't SessionStream" where
  "session_poll_read cr room es s =
     (if rx_state s = HavePlaintext \<and> rx_off s < length (rx_buf s) then
        let n = min (length (rx_buf s) - rx_off s) room;
            s1 = s\<lparr>rx_off := rx_off s + n\<rparr>
        in (Ready (take n (drop (rx_off s) (rx_buf s))), es,
            if rx_off s1 = length (rx_buf s1) then s1\<lparr>rx_buf := [], rx_off := 0, rx_state := no_prefix\<rparr> else s1)
      else
        case (if rx_state s = HavePlaintext then no_prefix else rx_state s) of
          HavePlaintext \<Rightarrow> (Failed ''unreachable'', es, s)
        | ReadingLength got lbuf \<Rightarrow>
            (case carrier_poll_read (LEN_PREFIX_SIZE - got) es of
               (ReadPending, es') \<Rightarrow> (Pending, es', s\<lparr>rx_state := ReadingLength got lbuf\<rparr>)
             | (ReadErr e, es') \<Rightarrow> (Failed e, es', s\<lparr>rx_state := ReadingLength got lbuf\<rparr>)
             | (ReadData d, es') \<Rightarrow>
                 if d = [] then
                   (if got = 0 then Ready [] else Failed ''truncated length prefix'', es', s\<lparr>rx_state := ReadingLength got lbuf\<rparr>)
                 else
                   let got' = got + length d; lbuf' = fill_at got d lbuf in
                   if got' = LEN_PREFIX_SIZE then
                     let claimed_len = unat (from_be lbuf' :: u16) in
                     if MAX_OUTER_CT_LEN < claimed_len
                     then (Failed ''claimed frame length exceeds max'', es', s\<lparr>rx_state := ReadingLength got' lbuf'\<rparr>)
                     else session_poll_read cr room es' (s\<lparr>rx_state := ReadingBody claimed_len (lbuf' @ replicate claimed_len 0)\<rparr>)
                   else session_poll_read cr room es' (s\<lparr>rx_state := ReadingLength got' lbuf'\<rparr>))
        | ReadingBody remaining wire \<Rightarrow>
            (case carrier_poll_read remaining es of
               (ReadPending, es') \<Rightarrow> (Pending, es', s)
             | (ReadErr e, es') \<Rightarrow> (Failed e, es', s)
             | (ReadData d, es') \<Rightarrow>
                 if d = [] then (Failed ''truncated frame body'', es', s)
                 else
                   let remaining' = remaining - length d; wire' = fill_at (length wire - remaining) d wire in
                   if remaining' = 0 then
                     (case framer_recv cr wire' (framer s) of
                        (Inr plaintext, f) \<Rightarrow>
                          session_poll_read cr room es' (s\<lparr>framer := f, rx_buf := plaintext, rx_off := 0, rx_state := HavePlaintext\<rparr>)
                      | (Inl e, f) \<Rightarrow> (Failed ''frame decrypt failed'', es', s\<lparr>framer := f, rx_state := ReadingBody 0 []\<rparr>))
                   else session_poll_read cr room es' (s\<lparr>rx_state := ReadingBody remaining' wire'\<rparr>)))"
  by pat_completeness auto
termination
  by (relation "measure (\<lambda>(cr, room, es, s). carrier_size es)") (auto dest: carrier_progress [OF sym])

declare session_poll_read.simps [simp del]

section \<open>Writing\<close>

text \<open>
  The drain loops: offer what is left of the frame until it is gone or the carrier stops.  An exhausted list of
  answers is a carrier that is not ready.  The bytes handed to the carrier are returned.
\<close>

datatype drain = Drained | Blocked | DrainFailed string

fun drain_frame :: "bytes \<Rightarrow> nat \<Rightarrow> carrier_write list \<Rightarrow> drain \<times> bytes \<times> TxState \<times> carrier_write list" where
  "drain_frame out written [] = (Blocked, [], Draining out written, [])"
| "drain_frame out written (WritePending # as) = (Blocked, [], Draining out written, as)"
| "drain_frame out written (WriteFail e # as) = (DrainFailed e, [], Draining out written, as)"
| "drain_frame out written (Accept k # as) =
     (let n = min k (length out - written) in
      if n = 0 then (DrainFailed ''inner stream accepted 0 bytes'', [], Draining out written, as)
      else if written + n = length out then (Drained, drop written out, Idle, as)
      else case drain_frame out (written + n) as of
             (r, em, tx, as') \<Rightarrow> (r, take n (drop written out) @ em, tx, as'))"

definition drain_tx :: "TxState \<Rightarrow> carrier_write list \<Rightarrow> drain \<times> bytes \<times> TxState \<times> carrier_write list" where
  "drain_tx tx as = (case tx of Idle \<Rightarrow> (Drained, [], Idle, as) | Draining out written \<Rightarrow> drain_frame out written as)"

definition ratchet_target :: "instant \<Rightarrow> 't SessionStream \<Rightarrow> u64 option" where
  "ratchet_target now s =
     (if ratchet_secs s = 0 then None
      else Some (word_of_nat (saturating_duration_since now (ratchet_start s) div 1000000000) div ratchet_secs s))"

datatype poll_w = WPending | WFailed string | WReady nat

text \<open>\<open>poll_write\<close>, with the bytes it handed to the carrier.  A failure to ratchet and a failure to seal are reported
  alike.\<close>

definition session_poll_write ::
  "'t frame_crypto \<Rightarrow> instant \<Rightarrow> bytes \<Rightarrow> carrier_write list \<Rightarrow> 't SessionStream \<Rightarrow> poll_w \<times> bytes \<times> 't SessionStream" where
  "session_poll_write cr now buf as s =
     (case drain_tx (tx_state s) as of
        (Blocked, em, tx, _) \<Rightarrow> (WPending, em, s\<lparr>tx_state := tx\<rparr>)
      | (DrainFailed e, em, tx, _) \<Rightarrow> (WFailed e, em, s\<lparr>tx_state := tx\<rparr>)
      | (Drained, em, tx, as1) \<Rightarrow>
          let s1 = s\<lparr>tx_state := tx\<rparr> in
          if buf = [] then (WReady 0, em, s1)
          else
            let n = min (length buf) MAX_FRAME_PLAINTEXT in
            (case frame_write cr (ratchet_target now s) (take n buf) (framer s) of
               (Inl e, f) \<Rightarrow> (WFailed ''session framer failed'', em, s1\<lparr>framer := f\<rparr>)
             | (Inr wire, f) \<Rightarrow>
                 (case drain_tx (Draining wire 0) as1 of
                    (DrainFailed e, em2, tx2, _) \<Rightarrow> (WFailed e, em @ em2, s1\<lparr>framer := f, tx_state := tx2\<rparr>)
                  | (_, em2, tx2, _) \<Rightarrow> (WReady n, em @ em2, s1\<lparr>framer := f, tx_state := tx2\<rparr>))))"

definition session_poll_flush :: "carrier_write list \<Rightarrow> 't SessionStream \<Rightarrow> poll_w \<times> bytes \<times> 't SessionStream" where
  "session_poll_flush as s =
     (case drain_tx (tx_state s) as of
        (Blocked, em, tx, _) \<Rightarrow> (WPending, em, s\<lparr>tx_state := tx\<rparr>)
      | (DrainFailed e, em, tx, _) \<Rightarrow> (WFailed e, em, s\<lparr>tx_state := tx\<rparr>)
      | (Drained, em, tx, as1) \<Rightarrow>
          (case as1 of
             WritePending # _ \<Rightarrow> (WPending, em, s\<lparr>tx_state := tx\<rparr>)
           | WriteFail e # _ \<Rightarrow> (WFailed e, em, s\<lparr>tx_state := tx\<rparr>)
           | _ \<Rightarrow> (WReady 0, em, s\<lparr>tx_state := tx\<rparr>)))"

section \<open>What a stream of bytes contains\<close>

text \<open>The reference: cut the bytes at the length prefixes and open the frames one after the other.\<close>

function decode_wire :: "'t frame_crypto \<Rightarrow> 't SessionFramer \<Rightarrow> bytes \<Rightarrow> bytes list" where
  "decode_wire cr f bs =
     (if length bs < 2 then []
      else
        let n = unat (from_be (take 2 bs) :: u16) in
        if n = 0 \<or> MAX_OUTER_CT_LEN < n \<or> length bs < 2 + n then []
        else case framer_recv cr (take (2 + n) bs) f of
               (Inl _, _) \<Rightarrow> []
             | (Inr m, f') \<Rightarrow> m # decode_wire cr f' (drop (2 + n) bs))"
  by pat_completeness auto
termination
  by (relation "measure (\<lambda>(cr, f, bs). length bs)") auto

declare decode_wire.simps [simp del]

text \<open>The part of a frame received so far, the plaintext not yet read, and the plaintext a stream will yield.\<close>

definition rx_partial :: "'t SessionStream \<Rightarrow> bytes" where
  "rx_partial s = (case rx_state s of
     ReadingLength got lbuf \<Rightarrow> take got lbuf | ReadingBody remaining wire \<Rightarrow> take (length wire - remaining) wire | HavePlaintext \<Rightarrow> [])"

definition rx_unread :: "'t SessionStream \<Rightarrow> bytes" where
  "rx_unread s = (if rx_state s = HavePlaintext then drop (rx_off s) (rx_buf s) else [])"

definition rx_content :: "'t frame_crypto \<Rightarrow> 't SessionStream \<Rightarrow> bytes \<Rightarrow> bytes" where
  "rx_content cr s bs = rx_unread s @ concat (decode_wire cr (framer s) (rx_partial s @ bs))"

definition rx_wf :: "'t SessionStream \<Rightarrow> bool" where
  "rx_wf s = (case rx_state s of
     ReadingLength got lbuf \<Rightarrow> got < 2 \<and> length lbuf = 2
   | ReadingBody remaining wire \<Rightarrow>
       let n = unat (from_be (take 2 wire) :: u16) in
       length wire = 2 + n \<and> n \<le> MAX_OUTER_CT_LEN \<and> remaining \<le> n \<and> (remaining = 0 \<longrightarrow> n = 0)
   | HavePlaintext \<Rightarrow> rx_off s \<le> length (rx_buf s))"

definition chunks_ok :: "carrier_item list \<Rightarrow> bool" where
  "chunks_ok es = list_all (\<lambda>i. case i of Chunk bs \<Rightarrow> bs \<noteq> [] | _ \<Rightarrow> False) es"

definition carrier_bytes :: "carrier_item list \<Rightarrow> bytes" where
  "carrier_bytes es = concat (map (\<lambda>i. case i of Chunk bs \<Rightarrow> bs | _ \<Rightarrow> []) es)"

text \<open>A read from a carrier of pieces is pending only when nothing is left, and otherwise takes bytes off its front.\<close>

lemma carrier_cases:
  assumes "chunks_ok es"
  obtains "es = []" "carrier_poll_read room es = (ReadPending, [])"
  | d es' where "carrier_poll_read room es = (ReadData d, es')" "carrier_bytes es = d @ carrier_bytes es'" "chunks_ok es'"
      "length d \<le> room" "d = [] \<longleftrightarrow> room = 0"
proof (cases es)
  case (Cons i js)
  then obtain bs where i: "i = Chunk bs" "bs \<noteq> []" using assms by (auto simp: chunks_ok_def split: carrier_item.splits)
  show ?thesis
  proof (rule that(2))
    show "carrier_poll_read room es = (ReadData (take room bs), if length bs \<le> room then js else Chunk (drop room bs) # js)"
      by (simp add: Cons i)
  qed (use Cons i assms in \<open>auto simp: carrier_bytes_def chunks_ok_def\<close>)
qed (use that(1) in simp)

lemma length_fill_at: "i + length d \<le> length buf \<Longrightarrow> length (fill_at i d buf) = length buf"
  by (simp add: fill_at_def)

lemma take_fill_at: "i + length d \<le> length buf \<Longrightarrow> take (i + length d) (fill_at i d buf) = take i buf @ d"
  by (simp add: fill_at_def)

lemma fill_at_all: "i + length d = length buf \<Longrightarrow> fill_at i d buf = take i buf @ d"
  by (simp add: fill_at_def)

lemma take_fill_at_before: "j \<le> i \<Longrightarrow> i \<le> length buf \<Longrightarrow> take j (fill_at i d buf) = take j buf"
  by (simp add: fill_at_def min_def)

lemma decode_stuck:
  "length bs < 2 \<Longrightarrow> decode_wire cr f bs = []"
  "2 \<le> length bs \<Longrightarrow> n = unat (from_be (take 2 bs) :: u16) \<Longrightarrow> n = 0 \<or> MAX_OUTER_CT_LEN < n \<or> length bs < 2 + n \<Longrightarrow> decode_wire cr f bs = []"
  by (simp_all add: decode_wire.simps [of cr f bs] Let_def)

lemma decode_frame:
  assumes "length w = 2 + n" "n = unat (from_be (take 2 w) :: u16)" "n \<noteq> 0" "n \<le> MAX_OUTER_CT_LEN"
  shows "decode_wire cr f (w @ rest) =
    (case framer_recv cr w f of (Inl _, _) \<Rightarrow> [] | (Inr m, f') \<Rightarrow> m # decode_wire cr f' rest)"
proof -
  have "take 2 (w @ rest) = take 2 w" "take (2 + n) (w @ rest) = w" "drop (2 + n) (w @ rest) = rest" "\<not> length (w @ rest) < 2"
    "\<not> length (w @ rest) < 2 + n"
    using assms(1) by simp_all
  with assms(2,3) leD [OF assms(4)] show ?thesis
    by (subst decode_wire.simps) (simp only: Let_def assms(2) [symmetric] if_False simp_thms)
qed

text \<open>One iteration of the loop keeps the content.\<close>

lemma content_prefix_bytes:
  assumes "rx_state s = ReadingLength got lbuf" "rx_wf s" "length d \<le> 2 - got" "got + length d \<noteq> 2"
  shows "rx_wf (s\<lparr>rx_state := ReadingLength (got + length d) (fill_at got d lbuf)\<rparr>)"
    "rx_content cr (s\<lparr>rx_state := ReadingLength (got + length d) (fill_at got d lbuf)\<rparr>) bs = rx_content cr s (d @ bs)"
proof -
  have le: "got + length d \<le> length lbuf" "got + length d < 2" "length lbuf = 2" using assms by (auto simp: rx_wf_def)
  show "rx_wf (s\<lparr>rx_state := ReadingLength (got + length d) (fill_at got d lbuf)\<rparr>)"
    using le length_fill_at [OF le(1)] by (simp add: rx_wf_def)
  show "rx_content cr (s\<lparr>rx_state := ReadingLength (got + length d) (fill_at got d lbuf)\<rparr>) bs = rx_content cr s (d @ bs)"
    using assms(1) take_fill_at [OF le(1)] by (simp add: rx_content_def rx_unread_def rx_partial_def)
qed

lemma content_prefix_done:
  assumes "rx_state s = ReadingLength got lbuf" "rx_wf s" "got + length d = 2" "n = unat (from_be (fill_at got d lbuf) :: u16)"
  shows "n \<le> MAX_OUTER_CT_LEN \<Longrightarrow> rx_wf (s\<lparr>rx_state := ReadingBody n (fill_at got d lbuf @ replicate n 0)\<rparr>)"
    "rx_content cr (s\<lparr>rx_state := ReadingBody n (fill_at got d lbuf @ replicate n 0)\<rparr>) bs = rx_content cr s (d @ bs)"
    "MAX_OUTER_CT_LEN < n \<Longrightarrow> rx_content cr s (d @ bs) = []"
proof -
  have l: "length (fill_at got d lbuf) = 2" "fill_at got d lbuf = take got lbuf @ d"
    using assms(1-3) by (simp_all add: rx_wf_def length_fill_at fill_at_all)
  show "rx_wf (s\<lparr>rx_state := ReadingBody n (fill_at got d lbuf @ replicate n 0)\<rparr>)" if "n \<le> MAX_OUTER_CT_LEN"
    using l(1) assms(4) that by (simp add: rx_wf_def Let_def)
  show "rx_content cr (s\<lparr>rx_state := ReadingBody n (fill_at got d lbuf @ replicate n 0)\<rparr>) bs = rx_content cr s (d @ bs)"
  proof -
    have "rx_partial (s\<lparr>rx_state := ReadingBody n (fill_at got d lbuf @ replicate n 0)\<rparr>) = fill_at got d lbuf"
      using l(1) by (simp add: rx_partial_def)
    then show ?thesis using l(2) assms(1) by (simp add: rx_content_def rx_unread_def rx_partial_def)
  qed
  have "take 2 (take got lbuf @ d @ bs) = take got lbuf @ d"
    using l by (metis append_assoc append_eq_conv_conj)
  with l assms(1,4) show "rx_content cr s (d @ bs) = []" if "MAX_OUTER_CT_LEN < n"
    using that decode_stuck(2) [of "take got lbuf @ d @ bs" n cr "framer s"] by (simp add: rx_content_def rx_unread_def rx_partial_def)
qed

text \<open>Body bytes, and a frame that is complete.\<close>

lemma rx_partial_body: "rx_partial (s\<lparr>rx_state := ReadingBody remaining wire\<rparr>) = take (length wire - remaining) wire"
  by (simp add: rx_partial_def)

lemma content_body_bytes:
  assumes "rx_state s = ReadingBody remaining wire" "rx_wf s" "length d < remaining"
  shows "rx_wf (s\<lparr>rx_state := ReadingBody (remaining - length d) (fill_at (length wire - remaining) d wire)\<rparr>)"
    "rx_content cr (s\<lparr>rx_state := ReadingBody (remaining - length d) (fill_at (length wire - remaining) d wire)\<rparr>) bs = rx_content cr s (d @ bs)"
proof -
  have w: "remaining \<le> length wire - 2" "2 \<le> length wire" using assms(1,2) by (auto simp: rx_wf_def Let_def)
  then have le: "(length wire - remaining) + length d \<le> length wire" using assms(3) by simp
  have t: "take 2 (fill_at (length wire - remaining) d wire) = take 2 wire" using w by (intro take_fill_at_before) auto
  show "rx_wf (s\<lparr>rx_state := ReadingBody (remaining - length d) (fill_at (length wire - remaining) d wire)\<rparr>)"
    using assms t length_fill_at [OF le] by (auto simp: rx_wf_def Let_def)
  have "length wire - (remaining - length d) = (length wire - remaining) + length d" using w assms(3) by simp
  then have "rx_partial (s\<lparr>rx_state := ReadingBody (remaining - length d) (fill_at (length wire - remaining) d wire)\<rparr>) = rx_partial s @ d"
    using assms(1) length_fill_at [OF le] take_fill_at [OF le] by (simp only: rx_partial_body) (simp add: rx_partial_def)
  then show "rx_content cr (s\<lparr>rx_state := ReadingBody (remaining - length d) (fill_at (length wire - remaining) d wire)\<rparr>) bs = rx_content cr s (d @ bs)"
    using assms(1) by (simp add: rx_content_def rx_unread_def)
qed

lemma content_body_done:
  assumes "rx_state s = ReadingBody remaining wire" "rx_wf s" "length d = remaining" "d \<noteq> []"
  shows "framer_recv cr (fill_at (length wire - remaining) d wire) (framer s) = (Inr m, f) \<Longrightarrow>
      rx_content cr (s\<lparr>framer := f, rx_buf := m, rx_off := 0, rx_state := HavePlaintext\<rparr>) bs = rx_content cr s (d @ bs)"
    "framer_recv cr (fill_at (length wire - remaining) d wire) (framer s) = (Inl e, f) \<Longrightarrow> rx_content cr s (d @ bs) = []"
proof -
  let ?w = "fill_at (length wire - remaining) d wire" and ?n = "unat (from_be (take 2 wire) :: u16)"
  have w: "length wire = 2 + ?n" "?n \<le> MAX_OUTER_CT_LEN" "remaining \<le> ?n" "?n \<noteq> 0"
    using assms by (auto simp: rx_wf_def Let_def)
  then have le: "(length wire - remaining) + length d = length wire" using assms(3) by simp
  have full: "?w = take (length wire - remaining) wire @ d" using fill_at_all [OF le] .
  have t: "take 2 ?w = take 2 wire" using w by (intro take_fill_at_before) auto
  have len: "length ?w = 2 + ?n" using length_fill_at [of "length wire - remaining" d wire] le w(1) by simp
  have "decode_wire cr (framer s) (?w @ bs) =
      (case framer_recv cr ?w (framer s) of (Inl _, _) \<Rightarrow> [] | (Inr m, f') \<Rightarrow> m # decode_wire cr f' bs)"
    by (rule decode_frame [OF len]) (use w t in simp_all)
  then show "framer_recv cr ?w (framer s) = (Inr m, f) \<Longrightarrow>
      rx_content cr (s\<lparr>framer := f, rx_buf := m, rx_off := 0, rx_state := HavePlaintext\<rparr>) bs = rx_content cr s (d @ bs)"
    "framer_recv cr ?w (framer s) = (Inl e, f) \<Longrightarrow> rx_content cr s (d @ bs) = []"
    using assms(1) full by (simp_all add: rx_content_def rx_unread_def rx_partial_def)
qed

lemma content_body_empty:
  assumes "rx_state s = ReadingBody 0 wire" "rx_wf s"
  shows "rx_content cr s bs = []"
proof -
  have w: "length wire = 2" "unat (from_be wire :: u16) = 0" using assms by (auto simp: rx_wf_def Let_def)
  then have "decode_wire cr (framer s) (wire @ bs) = []" by (intro decode_stuck(2) [of _ 0]) auto
  with assms(1) w(1) show ?thesis by (simp add: rx_content_def rx_unread_def rx_partial_def)
qed

text \<open>Nothing can be decoded from a partial frame.\<close>

lemma content_partial:
  assumes "rx_wf s" "rx_state s \<noteq> HavePlaintext"
  shows "rx_content cr s [] = []"
proof (cases "rx_state s")
  case (ReadingLength got lbuf)
  with assms(1) have "length (take got lbuf) < 2" by (simp add: rx_wf_def)
  with ReadingLength show ?thesis by (simp add: rx_content_def rx_unread_def rx_partial_def decode_stuck(1))
next
  case (ReadingBody remaining wire)
  show ?thesis
  proof (cases "remaining = 0")
    case True
    with content_body_empty assms(1) ReadingBody show ?thesis by blast
  next
    case False
    let ?p = "take (length wire - remaining) wire" and ?n = "unat (from_be (take 2 wire) :: u16)"
    have w: "length wire = 2 + ?n" "remaining \<le> ?n" using assms(1) ReadingBody by (auto simp: rx_wf_def Let_def)
    then have "take 2 ?p = take 2 wire" "2 \<le> length ?p" "length ?p < 2 + ?n" using False by (auto simp: min_def)
    then have "decode_wire cr (framer s) ?p = []" by (intro decode_stuck(2) [of _ ?n]) simp_all
    with ReadingBody show ?thesis by (simp add: rx_content_def rx_unread_def rx_partial_def)
  qed
qed (use assms(2) in simp)

section \<open>Reading is independent of fragmentation\<close>

definition read_ok :: "'t frame_crypto \<Rightarrow> carrier_item list \<Rightarrow> 't SessionStream \<Rightarrow> session_poll \<times> carrier_item list \<times> 't SessionStream \<Rightarrow> bool" where
  "read_ok cr es s res = (case res of (r, es', s') \<Rightarrow>
     (case r of
        Failed e \<Rightarrow> \<forall>rest. rx_content cr s (carrier_bytes es @ rest) = []
      | Pending \<Rightarrow> es' = [] \<and> rx_wf s' \<and> rx_content cr s' [] = [] \<and> (\<forall>rest. rx_content cr s (carrier_bytes es @ rest) = rx_content cr s' rest)
      | Ready out \<Rightarrow> chunks_ok es' \<and> rx_wf s' \<and>
          (\<forall>rest. rx_content cr s (carrier_bytes es @ rest) = out @ rx_content cr s' (carrier_bytes es' @ rest))))"

lemma read_ok_cong:
  "(\<And>rest. rx_content cr s (carrier_bytes es @ rest) = rx_content cr s1 (carrier_bytes es1 @ rest)) \<Longrightarrow> read_ok cr es1 s1 res \<Longrightarrow> read_ok cr es s res"
  by (auto simp: read_ok_def split: session_poll.splits prod.splits)

lemma rx_state_same: "rx_state s = x \<Longrightarrow> s\<lparr>rx_state := x\<rparr> = s"
  by (cases s) simp

lemma session_poll_read_length:
  assumes "rx_state s = ReadingLength got lbuf"
  shows "session_poll_read cr room es s =
    (case carrier_poll_read (2 - got) es of
       (ReadPending, es') \<Rightarrow> (Pending, es', s)
     | (ReadErr e, es') \<Rightarrow> (Failed e, es', s)
     | (ReadData d, es') \<Rightarrow>
         if d = [] then (if got = 0 then Ready [] else Failed ''truncated length prefix'', es', s)
         else if got + length d = 2 then
           if MAX_OUTER_CT_LEN < unat (from_be (fill_at got d lbuf) :: u16)
           then (Failed ''claimed frame length exceeds max'', es', s\<lparr>rx_state := ReadingLength (got + length d) (fill_at got d lbuf)\<rparr>)
           else session_poll_read cr room es' (s\<lparr>rx_state := ReadingBody (unat (from_be (fill_at got d lbuf) :: u16))
                  (fill_at got d lbuf @ replicate (unat (from_be (fill_at got d lbuf) :: u16)) 0)\<rparr>)
         else session_poll_read cr room es' (s\<lparr>rx_state := ReadingLength (got + length d) (fill_at got d lbuf)\<rparr>))"
  unfolding session_poll_read.simps [of cr room es s] Let_def LEN_PREFIX_SIZE_def
  by (simp only: assms RxState.distinct simp_thms if_False RxState.case rx_state_same [OF assms])

lemma session_poll_read_body:
  assumes "rx_state s = ReadingBody remaining wire"
  shows "session_poll_read cr room es s =
    (case carrier_poll_read remaining es of
       (ReadPending, es') \<Rightarrow> (Pending, es', s)
     | (ReadErr e, es') \<Rightarrow> (Failed e, es', s)
     | (ReadData d, es') \<Rightarrow>
         if d = [] then (Failed ''truncated frame body'', es', s)
         else if remaining - length d = 0 then
           (case framer_recv cr (fill_at (length wire - remaining) d wire) (framer s) of
              (Inr plaintext, f) \<Rightarrow> session_poll_read cr room es' (s\<lparr>framer := f, rx_buf := plaintext, rx_off := 0, rx_state := HavePlaintext\<rparr>)
            | (Inl e, f) \<Rightarrow> (Failed ''frame decrypt failed'', es', s\<lparr>framer := f, rx_state := ReadingBody 0 []\<rparr>))
         else session_poll_read cr room es' (s\<lparr>rx_state := ReadingBody (remaining - length d) (fill_at (length wire - remaining) d wire)\<rparr>))"
  unfolding session_poll_read.simps [of cr room es s] Let_def
  by (simp only: assms RxState.distinct simp_thms if_False RxState.case)

lemma session_poll_read_drained:
  assumes "rx_state s = HavePlaintext" "\<not> rx_off s < length (rx_buf s)"
  shows "session_poll_read cr room es s = session_poll_read cr room es (s\<lparr>rx_state := no_prefix\<rparr>)"
proof -
  have n: "rx_state (s\<lparr>rx_state := no_prefix\<rparr>) = no_prefix" "\<And>x. s\<lparr>rx_state := no_prefix, rx_state := x\<rparr> = s\<lparr>rx_state := x\<rparr>" by simp_all
  show ?thesis
    unfolding session_poll_read_length [OF n(1)]
    unfolding session_poll_read.simps [of cr room es s] Let_def LEN_PREFIX_SIZE_def
    by (simp only: assms simp_thms if_False if_True RxState.case LEN_PREFIX_SIZE_def n [unfolded LEN_PREFIX_SIZE_def])
qed

lemma read_plaintext:
  assumes "rx_state s = HavePlaintext" "rx_off s < length (rx_buf s)" "chunks_ok es" "rx_wf s"
  shows "read_ok cr es s (session_poll_read cr room es s)"
proof -
  let ?n = "min (length (rx_buf s) - rx_off s) room"
  have d: "drop (rx_off s) (rx_buf s) = take ?n (drop (rx_off s) (rx_buf s)) @ drop (rx_off s + ?n) (rx_buf s)"
    by (metis add.commute append_take_drop_id drop_drop)
  show ?thesis
    using assms d by (subst session_poll_read.simps)
      (auto simp: read_ok_def Let_def rx_wf_def rx_content_def rx_unread_def rx_partial_def LEN_PREFIX_SIZE_def)
qed

lemma read_length_step:
  assumes st: "rx_state s = ReadingLength got lbuf" and wf: "rx_wf s" and es: "chunks_ok es"
    and IH: "\<And>es' s'. carrier_size es' < carrier_size es \<Longrightarrow> chunks_ok es' \<Longrightarrow> rx_wf s' \<Longrightarrow> read_ok cr es' s' (session_poll_read cr room es' s')"
  shows "read_ok cr es s (session_poll_read cr room es s)"
  using es
proof (cases rule: carrier_cases [of es "2 - got"])
  case 1
  with st wf show ?thesis using content_partial [OF wf, of cr] by (simp add: session_poll_read_length read_ok_def carrier_bytes_def)
next
  case (2 d es')
  have ne: "d \<noteq> []" using 2(5) st wf by (auto simp: rx_wf_def)
  have less: "carrier_size es' < carrier_size es" using carrier_progress [OF 2(1) ne] .
  let ?l = "fill_at got d lbuf" and ?n = "unat (from_be (fill_at got d lbuf) :: u16)"
  show ?thesis
  proof (cases "got + length d = 2")
    case False
    let ?s = "s\<lparr>rx_state := ReadingLength (got + length d) ?l\<rparr>"
    note c = content_prefix_bytes [OF st wf 2(4) False]
    have "read_ok cr es s (session_poll_read cr room es' ?s)"
      by (rule read_ok_cong [OF _ IH [OF less 2(3) c(1)]]) (simp add: c(2) 2(2))
    then show ?thesis using 2(1) ne False by (simp add: session_poll_read_length [OF st])
  next
    case full: True
    note c = content_prefix_done [OF st wf full refl]
    show ?thesis
    proof (cases "MAX_OUTER_CT_LEN < ?n")
      case True
      then show ?thesis using 2(1,2) ne full c(3) by (simp add: session_poll_read_length [OF st] read_ok_def)
    next
      case False
      let ?s = "s\<lparr>rx_state := ReadingBody ?n (?l @ replicate ?n 0)\<rparr>"
      have "rx_wf ?s" by (rule c(1)) (use False in simp)
      then have "read_ok cr es s (session_poll_read cr room es' ?s)"
        by (intro read_ok_cong [OF _ IH [OF less 2(3)]]) (simp_all only: c(2) 2(2) append_assoc)
      then show ?thesis using 2(1) ne full False by (simp add: session_poll_read_length [OF st])
    qed
  qed
qed

lemma read_body_step:
  assumes st: "rx_state s = ReadingBody remaining wire" and wf: "rx_wf s" and es: "chunks_ok es"
    and IH: "\<And>es' s'. carrier_size es' < carrier_size es \<Longrightarrow> chunks_ok es' \<Longrightarrow> rx_wf s' \<Longrightarrow> read_ok cr es' s' (session_poll_read cr room es' s')"
  shows "read_ok cr es s (session_poll_read cr room es s)"
  using es
proof (cases rule: carrier_cases [of es remaining])
  case 1
  with st wf show ?thesis using content_partial [OF wf, of cr] by (simp add: session_poll_read_body read_ok_def carrier_bytes_def)
next
  case (2 d es')
  let ?w = "fill_at (length wire - remaining) d wire"
  show ?thesis
  proof (cases "d = []")
    case True
    with 2(5) have "remaining = 0" by simp
    with content_body_empty [of s wire cr] st wf True 2(1) show ?thesis by (simp add: session_poll_read_body [OF st] read_ok_def)
  next
    case ne: False
    have less: "carrier_size es' < carrier_size es" using carrier_progress [OF 2(1) ne] .
    show ?thesis
    proof (cases "remaining - length d = 0")
      case False
      let ?s = "s\<lparr>rx_state := ReadingBody (remaining - length d) ?w\<rparr>"
      have "length d < remaining" using False by simp
      note c = content_body_bytes [OF st wf this]
      have "read_ok cr es s (session_poll_read cr room es' ?s)"
        by (rule read_ok_cong [OF _ IH [OF less 2(3) c(1)]]) (simp only: c(2) 2(2) append_assoc)
      then show ?thesis using 2(1) ne False by (simp add: session_poll_read_body [OF st])
    next
      case True
      then have "length d = remaining" using 2(4) by simp
      note c = content_body_done [OF st wf this ne, of cr]
      show ?thesis
      proof (cases "framer_recv cr ?w (framer s)")
        case (Pair res f)
        show ?thesis
        proof (cases res)
          case (Inl e)
          then show ?thesis using c(2) Pair 2(1,2) ne True by (simp add: session_poll_read_body [OF st] read_ok_def)
        next
          case (Inr m)
          let ?s = "s\<lparr>framer := f, rx_buf := m, rx_off := 0, rx_state := HavePlaintext\<rparr>"
          have wf': "rx_wf ?s" by (simp add: rx_wf_def)
          have "framer_recv cr ?w (framer s) = (Inr m, f)" using Pair Inr by simp
          then have "read_ok cr es s (session_poll_read cr room es' ?s)"
            by (intro read_ok_cong [OF _ IH [OF less 2(3) wf']]) (simp only: c(1) 2(2) append_assoc)
          then show ?thesis using 2(1) ne True Pair Inr by (simp add: session_poll_read_body [OF st])
        qed
      qed
    qed
  qed
qed

lemma session_poll_read_ok: "chunks_ok es \<Longrightarrow> rx_wf s \<Longrightarrow> read_ok cr es s (session_poll_read cr room es s)"
proof (induction "carrier_size es" arbitrary: es s rule: less_induct)
  case less
  show ?case
  proof (cases "rx_state s")
    case (ReadingLength got lbuf)
    then show ?thesis by (rule read_length_step) (use less in auto)
  next
    case (ReadingBody remaining wire)
    then show ?thesis by (rule read_body_step) (use less in auto)
  next
    case HavePlaintext
    show ?thesis
    proof (cases "rx_off s < length (rx_buf s)")
      case True
      with HavePlaintext less.prems show ?thesis by (intro read_plaintext)
    next
      case False
      let ?s = "s\<lparr>rx_state := no_prefix\<rparr>"
      have "read_ok cr es ?s (session_poll_read cr room es ?s)"
        by (rule read_length_step [of _ 0 "replicate LEN_PREFIX_SIZE 0"]) (use less in \<open>auto simp: rx_wf_def LEN_PREFIX_SIZE_def\<close>)
      then show ?thesis
        unfolding session_poll_read_drained [OF HavePlaintext False]
        by (rule read_ok_cong [rotated]) (use HavePlaintext False in \<open>simp add: rx_content_def rx_unread_def rx_partial_def\<close>)
    qed
  qed
qed

text \<open>A reader: before each poll some pieces arrive; it stops at a failure.\<close>

fun read_run :: "'t frame_crypto \<Rightarrow> (bytes list \<times> nat) list \<Rightarrow> carrier_item list \<Rightarrow> 't SessionStream \<Rightarrow> bytes \<times> carrier_item list \<times> 't SessionStream \<times> bool" where
  "read_run cr [] es s = ([], es, s, True)"
| "read_run cr ((cs, room) # ps) es s =
     (case session_poll_read cr room (es @ map Chunk cs) s of
        (Failed e, es', s') \<Rightarrow> ([], es', s', False)
      | (Pending, es', s') \<Rightarrow> read_run cr ps es' s'
      | (Ready out, es', s') \<Rightarrow> (case read_run cr ps es' s' of (rest, r) \<Rightarrow> (out @ rest, r)))"

definition arrived :: "(bytes list \<times> nat) list \<Rightarrow> bytes" where
  "arrived ps = concat (concat (map fst ps))"

definition pieces_ok :: "(bytes list \<times> nat) list \<Rightarrow> bool" where
  "pieces_ok ps = list_all (\<lambda>(cs, room). list_all (\<lambda>c. c \<noteq> []) cs) ps"

lemma chunks_append: "chunks_ok (es @ map Chunk cs) \<longleftrightarrow> chunks_ok es \<and> list_all (\<lambda>c. c \<noteq> []) cs"
  "carrier_bytes (es @ map Chunk cs) = carrier_bytes es @ concat cs"
  by (simp_all add: chunks_ok_def carrier_bytes_def list.pred_map comp_def)

lemma read_run_content:
  "chunks_ok es \<Longrightarrow> rx_wf s \<Longrightarrow> pieces_ok ps \<Longrightarrow> read_run cr ps es s = (out, es', s', ok) \<Longrightarrow>
     rx_content cr s (carrier_bytes es @ arrived ps @ rest) = out @ (if ok then rx_content cr s' (carrier_bytes es' @ rest) else [])"
proof (induction ps arbitrary: es s out)
  case Nil
  then show ?case by (simp add: arrived_def)
next
  case (Cons p ps)
  obtain cs room where p: "p = (cs, room)" by (cases p)
  have ok: "chunks_ok (es @ map Chunk cs)" "pieces_ok ps" using Cons.prems(1,3) by (simp_all add: p chunks_append pieces_ok_def)
  have b: "carrier_bytes es @ arrived (p # ps) @ rest = carrier_bytes (es @ map Chunk cs) @ arrived ps @ rest"
    by (simp add: p arrived_def chunks_append)
  obtain r es1 s1 where r: "session_poll_read cr room (es @ map Chunk cs) s = (r, es1, s1)" by (cases "session_poll_read cr room (es @ map Chunk cs) s")
  note step = session_poll_read_ok [OF ok(1) Cons.prems(2), of cr room, unfolded r read_ok_def prod.case]
  show ?case
  proof (cases r)
    case Pending
    then have "read_run cr ps es1 s1 = (out, es', s', ok)" "es1 = []" using Cons.prems(4) r step by (simp_all add: p)
    with Cons.IH [of es1 s1 out] ok(2) step Pending show ?thesis unfolding b by (simp add: chunks_ok_def carrier_bytes_def)
  next
    case (Failed e)
    then show ?thesis using step Cons.prems(4) r unfolding b by (simp add: p)
  next
    case (Ready o1)
    then obtain o2 where "read_run cr ps es1 s1 = (o2, es', s', ok)" "out = o1 @ o2"
      using Cons.prems(4) r by (auto simp: p split: prod.splits)
    with Cons.IH [of es1 s1 o2] ok(2) step Ready show ?thesis unfolding b by simp
  qed
qed

section \<open>Writing conserves bytes\<close>

text \<open>The bytes of sealed frames not yet handed to the carrier.\<close>

definition tx_pending :: "TxState \<Rightarrow> bytes" where
  "tx_pending tx = (case tx of Idle \<Rightarrow> [] | Draining out written \<Rightarrow> drop written out)"

lemma drain_frame_conserves:
  "drain_frame out written as = (r, em, tx, as') \<Longrightarrow> drop written out = em @ tx_pending tx \<and> (r = Drained \<longrightarrow> tx = Idle)"
proof (induction out written as arbitrary: r em tx as' rule: drain_frame.induct)
  case (4 out written k as)
  let ?n = "min k (length out - written)"
  show ?case
  proof (cases "?n = 0 \<or> written + ?n = length out")
    case True
    with 4(2) show ?thesis by (auto simp: tx_pending_def Let_def split: if_splits)
  next
    case False
    then have "drain_frame out written (Accept k # as) =
        (case drain_frame out (written + ?n) as of (r, em, tx, as') \<Rightarrow> (r, take ?n (drop written out) @ em, tx, as'))"
      unfolding drain_frame.simps Let_def by (simp only: de_Morgan_disj if_False)
    with 4(2) obtain em2 where em2: "drain_frame out (written + ?n) as = (r, em2, tx, as')" "em = take ?n (drop written out) @ em2"
      by (cases "drain_frame out (written + ?n) as") auto
    have "drop written out = take ?n (drop written out) @ drop (written + ?n) out"
      by (metis add.commute append_take_drop_id drop_drop)
    with 4(1) [OF refl _ _ em2(1)] False em2(2) show ?thesis by auto
  qed
qed (auto simp: tx_pending_def)

lemma drain_conserves:
  "drain_tx tx as = (r, em, tx', as') \<Longrightarrow> tx_pending tx = em @ tx_pending tx' \<and> (r = Drained \<longrightarrow> tx' = Idle)"
  using drain_frame_conserves by (cases tx) (fastforce simp: drain_tx_def tx_pending_def)+

text \<open>A poll that does not fail either drains or seals exactly one more frame.\<close>

lemma session_poll_write_cases:
  assumes "session_poll_write cr now buf as s = (r, em, s')" "\<forall>e. r \<noteq> WFailed e"
  obtains (drain) "framer s' = framer s" "tx_pending (tx_state s) = em @ tx_pending (tx_state s')" "r = WPending \<or> r = WReady 0"
  | (seal) t n w where "r = WReady n" "frame_write cr t (take n buf) (framer s) = (Ok w, framer s')"
      "tx_pending (tx_state s) @ w = em @ tx_pending (tx_state s')"
proof -
  obtain r1 em1 tx1 as1 where d1: "drain_tx (tx_state s) as = (r1, em1, tx1, as1)" by (cases "drain_tx (tx_state s) as")
  note c1 = drain_conserves [OF d1]
  show ?thesis
  proof (cases "r1 = Drained \<and> buf \<noteq> []")
    case False
    then show ?thesis using assms d1 c1 by (intro drain) (auto simp: session_poll_write_def Let_def split: drain.splits)
  next
    case True
    let ?n = "min (length buf) MAX_FRAME_PLAINTEXT"
    have p1: "tx_pending (tx_state s) = em1" using c1 True by (simp add: tx_pending_def)
    obtain res f where w: "frame_write cr (ratchet_target now s) (take ?n buf) (framer s) = (res, f)" by fastforce
    with assms d1 True obtain wire where res: "res = Ok wire" by (cases res) (auto simp: session_poll_write_def Let_def)
    obtain r2 em2 tx2 as2 where d2: "drain_tx (Draining wire 0) as1 = (r2, em2, tx2, as2)" by (cases "drain_tx (Draining wire 0) as1")
    have c2: "wire = em2 @ tx_pending tx2" using drain_conserves [OF d2] by (simp add: tx_pending_def)
    have "r = WReady ?n \<and> em = em1 @ em2 \<and> framer s' = f \<and> tx_state s' = tx2"
      using assms d1 True w res d2 by (cases r2) (auto simp: session_poll_write_def Let_def)
    then show ?thesis using w res p1 c2 by (intro seal) auto
  qed
qed

lemma session_poll_flush_conserves:
  "session_poll_flush as s = (r, em, s') \<Longrightarrow> framer s' = framer s \<and> tx_pending (tx_state s) = em @ tx_pending (tx_state s')"
  using drain_conserves [of "tx_state s" as]
  by (fastforce simp: session_poll_flush_def split: prod.splits drain.splits list.splits carrier_write.splits)

datatype write_op = PollWrite instant bytes "carrier_write list" | PollFlush "carrier_write list"

definition do_write :: "'t frame_crypto \<Rightarrow> write_op \<Rightarrow> 't SessionStream \<Rightarrow> poll_w \<times> bytes \<times> 't SessionStream" where
  "do_write cr op s = (case op of PollWrite now buf as \<Rightarrow> session_poll_write cr now buf as s | PollFlush as \<Rightarrow> session_poll_flush as s)"

definition taken_by :: "write_op \<Rightarrow> poll_w \<Rightarrow> bytes" where
  "taken_by op r = (case op of PollWrite now buf as \<Rightarrow> (case r of WReady n \<Rightarrow> take n buf | _ \<Rightarrow> []) | PollFlush as \<Rightarrow> [])"

text \<open>A writer: the bytes handed to the carrier, the plaintext taken from the caller, and whether nothing failed.\<close>

fun write_run :: "'t frame_crypto \<Rightarrow> write_op list \<Rightarrow> 't SessionStream \<Rightarrow> bytes \<times> bytes \<times> 't SessionStream \<times> bool" where
  "write_run cr [] s = ([], [], s, True)"
| "write_run cr (op # ops) s =
     (case do_write cr op s of (r, em, s') \<Rightarrow>
        (case r of
           WFailed e \<Rightarrow> (em, [], s', False)
         | _ \<Rightarrow> (case write_run cr ops s' of (em2, tk2, s2, ok) \<Rightarrow> (em @ em2, taken_by op r @ tk2, s2, ok))))"

abbreviation in_flight :: "'t duplex \<Rightarrow> Role \<Rightarrow> bytes" where
  "in_flight d side \<equiv> concat (map snd (dx_wire d side))"

text \<open>What a step of the writer does to the connection of \<open>Session_Duplex\<close>.\<close>

definition writer_rel :: "'t frame_crypto \<Rightarrow> Role \<Rightarrow> 't duplex \<Rightarrow> 't duplex \<Rightarrow> bytes \<Rightarrow> bytes \<Rightarrow> bool" where
  "writer_rel cr side d d' w tk \<longleftrightarrow>
     (\<exists>evs. list_all (only side) evs \<and> duplex_run cr evs d = Some d') \<and> in_flight d' side = in_flight d side @ w \<and>
     concat (dx_sent d' side) = concat (dx_sent d side) @ tk \<and> dx_peer d' (other side) = dx_peer d (other side) \<and> dx_got d' = dx_got d"

lemma writer_rel_refl: "writer_rel cr side d d [] []"
  unfolding writer_rel_def by (intro conjI exI [of _ "[]"]) simp_all

lemma writer_rel_trans: "writer_rel cr side d d1 w tk \<Longrightarrow> writer_rel cr side d1 d2 w2 tk2 \<Longrightarrow> writer_rel cr side d d2 (w @ w2) (tk @ tk2)"
proof -
  assume a: "writer_rel cr side d d1 w tk" "writer_rel cr side d1 d2 w2 tk2"
  obtain e1 e2 where e: "list_all (only side) e1" "duplex_run cr e1 d = Some d1" "list_all (only side) e2" "duplex_run cr e2 d1 = Some d2"
    using a unfolding writer_rel_def by blast
  then have "list_all (only side) (e1 @ e2) \<and> duplex_run cr (e1 @ e2) d = Some d2" by (simp add: duplex_run_append)
  then have "\<exists>evs. list_all (only side) evs \<and> duplex_run cr evs d = Some d2" by blast
  with a show ?thesis by (simp add: writer_rel_def)
qed

lemma writer_rel_frame:
  assumes "frame_write cr t m (dx_peer d side) = (Ok w, f)"
  shows "\<exists>d'. writer_rel cr side d d' w m \<and> dx_peer d' side = f"
proof -
  let ?d = "d\<lparr>dx_peer := (dx_peer d)(side := f), dx_wire := (dx_wire d)(side := dx_wire d side @ [(epoch f, w)]),
              dx_sent := (dx_sent d)(side := dx_sent d side @ [m])\<rparr>"
  have "duplex_run cr [Write side t m] d = Some ?d" using assms by (simp add: duplex_step_def)
  moreover have "list_all (only side) [Write side t m]" by (simp add: only_def)
  ultimately have "\<exists>evs. list_all (only side) evs \<and> duplex_run cr evs d = Some ?d" by blast
  then have "writer_rel cr side d ?d w m" unfolding writer_rel_def by (intro conjI) simp_all
  then show ?thesis by fastforce
qed

lemma do_write_duplex:
  assumes "do_write cr op s = (r, em, s')" "\<forall>e. r \<noteq> WFailed e" "dx_peer d side = framer s"
  shows "\<exists>d' w. writer_rel cr side d d' w (taken_by op r) \<and> dx_peer d' side = framer s' \<and>
    tx_pending (tx_state s) @ w = em @ tx_pending (tx_state s')"
proof (cases op)
  case (PollWrite now buf as)
  with assms(1) have p: "session_poll_write cr now buf as s = (r, em, s')" by (simp add: do_write_def)
  from p assms(2) show ?thesis
  proof (cases rule: session_poll_write_cases)
    case drain
    then show ?thesis using assms(3) writer_rel_refl [of cr side d] by (auto simp: taken_by_def PollWrite intro!: exI [of _ d])
  next
    case (seal t n w)
    then show ?thesis using writer_rel_frame [of cr t "take n buf" d side w "framer s'"] assms(3) by (auto simp: taken_by_def PollWrite)
  qed
next
  case (PollFlush as)
  with assms(1) session_poll_flush_conserves [of as s r em s'] assms(3) writer_rel_refl [of cr side d] show ?thesis
    by (auto simp: taken_by_def do_write_def intro!: exI [of _ d])
qed

lemma write_run_duplex:
  "write_run cr ops s = (em, tk, s', True) \<Longrightarrow> dx_peer d side = framer s \<Longrightarrow>
     \<exists>d' w. writer_rel cr side d d' w tk \<and> dx_peer d' side = framer s' \<and> tx_pending (tx_state s) @ w = em @ tx_pending (tx_state s')"
proof (induction ops arbitrary: s d em tk)
  case Nil
  then show ?case using writer_rel_refl [of cr side d] by auto
next
  case (Cons op ops)
  obtain r em1 s1 where r: "do_write cr op s = (r, em1, s1)" by (cases "do_write cr op s")
  have nf: "\<forall>e. r \<noteq> WFailed e" using Cons.prems(1) r by auto
  with Cons.prems(1) r obtain em2 tk2 where run: "write_run cr ops s1 = (em2, tk2, s', True)" "em = em1 @ em2" "tk = taken_by op r @ tk2"
    by (auto split: poll_w.splits prod.splits)
  obtain d1 w1 where d1: "writer_rel cr side d d1 w1 (taken_by op r)" "dx_peer d1 side = framer s1"
    "tx_pending (tx_state s) @ w1 = em1 @ tx_pending (tx_state s1)"
    using do_write_duplex [OF r nf Cons.prems(2)] by blast
  obtain d2 w2 where d2: "writer_rel cr side d1 d2 w2 tk2" "dx_peer d2 side = framer s'"
    "tx_pending (tx_state s1) @ w2 = em2 @ tx_pending (tx_state s')"
    using Cons.IH [OF run(1) d1(2)] by blast
  have "tx_pending (tx_state s) @ w1 @ w2 = em @ tx_pending (tx_state s')"
    using d1(3) d2(3) run(2) by (metis append.assoc)
  then show ?case using writer_rel_trans [OF d1(1) d2(1)] d2(2) run(3) by metis
qed

section \<open>From writer to reader\<close>

lemma framer_send_nonempty: "framer_send cr m f = (Ok w, f') \<Longrightarrow> w \<noteq> []"
proof (elim send_ok)
  fix ct :: bytes
  assume "w = to_be (word_of_nat (length ct) :: u16) @ ct"
  then have "2 \<le> length w" by simp
  then show "w \<noteq> []" by auto
qed

lemma decode_append: "\<exists>zs. decode_wire cr f (bs @ rest) = decode_wire cr f bs @ zs"
proof (induction cr f bs rule: decode_wire.induct)
  case (1 cr f bs)
  let ?n = "unat (from_be (take 2 bs) :: u16)"
  show ?case
  proof (cases "length bs < 2 \<or> ?n = 0 \<or> MAX_OUTER_CT_LEN < ?n \<or> length bs < 2 + ?n")
    case True
    then have "decode_wire cr f bs = []" using decode_stuck by (metis leI)
    then show ?thesis by simp
  next
    case False
    let ?w = "take (2 + ?n) bs" and ?r = "drop (2 + ?n) bs"
    have w: "length ?w = 2 + ?n" "take 2 ?w = take 2 bs" "?n \<noteq> 0" "?n \<le> MAX_OUTER_CT_LEN" using False by (auto simp: min_def)
    have d: "decode_wire cr f (?w @ x) = (case framer_recv cr ?w f of (Inl _, _) \<Rightarrow> [] | (Inr m, f') \<Rightarrow> m # decode_wire cr f' x)" for x
      by (rule decode_frame [OF w(1) _ w(3,4)]) (simp only: w(2))
    have d1: "decode_wire cr f bs = (case framer_recv cr ?w f of (Inl _, _) \<Rightarrow> [] | (Inr m, f') \<Rightarrow> m # decode_wire cr f' ?r)"
      using d [of ?r] by (simp only: append_take_drop_id)
    have d2: "decode_wire cr f (bs @ rest) = (case framer_recv cr ?w f of (Inl _, _) \<Rightarrow> [] | (Inr m, f') \<Rightarrow> m # decode_wire cr f' (?r @ rest))"
      using d [of "?r @ rest"] by (simp only: append_assoc [symmetric] append_take_drop_id)
    obtain res f' where r: "framer_recv cr ?w f = (res, f')" by fastforce
    show ?thesis
    proof (cases res)
      case (Inl e)
      then show ?thesis unfolding d1 d2 r by simp
    next
      case (Inr m)
      have "\<exists>zs. decode_wire cr f' (?r @ rest) = decode_wire cr f' ?r @ zs"
        using 1 [OF _ refl _ r [symmetric] Inr] False by auto
      then show ?thesis unfolding d1 d2 r Inr by auto
    qed
  qed
qed

lemma flight_prefix:
  assumes "frame_wire cr sb k d g w"
  shows "\<exists>n. length w = 2 + n \<and> n = unat (from_be (take 2 w) :: u16) \<and> n \<noteq> 0 \<and> n \<le> MAX_OUTER_CT_LEN"
proof -
  obtain ct where ct: "MIN_OUTER_CT_LEN \<le> length ct" "length ct \<le> MAX_OUTER_CT_LEN" "w = to_be (word_of_nat (length ct) :: u16) @ ct"
    using assms by (auto simp: frame_wire_def split: prod.splits)
  have "unat (from_be (take 2 w) :: u16) = length ct"
    using ct(2) by (simp add: ct(3) unat_of_nat frame_lens)
  with ct show ?thesis by (intro exI [of _ "length ct"]) (auto simp: frame_lens)
qed

text \<open>The frames in flight of a one-way flow decode to the messages not yet received.\<close>

lemma decode_in_flight:
  "frame_laws cr link \<Longrightarrow> follows cr link sb k s d \<Longrightarrow> length (dx_wire d s) = n \<Longrightarrow>
     dx_got d (other s) @ decode_wire cr (dx_peer d (other s)) (in_flight d s) = dx_sent d s"
proof (induction n arbitrary: d)
  case 0
  then obtain gs lo where "half cr link sb k d s gs lo" by (auto simp: follows_def)
  with 0 show ?case by (simp add: half_def lane_def decode_stuck(1))
next
  case (Suc n)
  obtain d1 where d1: "duplex_step cr (Deliver s) d = Some d1" "dx_sent d1 = dx_sent d"
    by (rule follows_delivers [OF Suc.prems(1,2)]) (use Suc.prems(3) in auto)
  then obtain x w ws m f where ws: "dx_wire d s = (x, w) # ws" and rv: "framer_recv cr w (dx_peer d (other s)) = (Ok m, f)"
    and d1': "d1 = d\<lparr>dx_peer := (dx_peer d)(other s := f), dx_wire := (dx_wire d)(s := ws),
                   dx_got := (dx_got d)(other s := dx_got d (other s) @ [m])\<rparr>"
    by (auto simp: duplex_step_def split: list.splits prod.splits sum.splits)
  obtain gs lo where "half cr link sb k d s gs lo" using Suc.prems(2) by (auto simp: follows_def)
  then obtain g where "frame_wire cr sb k (send_direction (dx_peer d s)) g w"
    using ws by (auto simp: half_def lane_def flight_ok_def list_all2_Cons2)
  then obtain l where l: "length w = 2 + l" "l = unat (from_be (take 2 w) :: u16)" "l \<noteq> 0" "l \<le> MAX_OUTER_CT_LEN"
    using flight_prefix by metis
  have fl: "in_flight d s = w @ in_flight d1 s" by (simp add: ws d1')
  have "decode_wire cr (dx_peer d (other s)) (in_flight d s) = m # decode_wire cr (dx_peer d1 (other s)) (in_flight d1 s)"
    unfolding fl decode_frame [OF l] rv by (simp add: d1')
  moreover have "follows cr link sb k s d1"
    by (rule follows_step [OF Suc.prems(1,2) _ d1(1)]) (simp add: only_def)
  moreover have "length (dx_wire d1 s) = n" using Suc.prems(3) ws d1' by simp
  ultimately show ?case using Suc.IH [OF Suc.prems(1), of d1] d1(2) by (simp add: d1')
qed

lemma read_run_wf:
  "chunks_ok es \<Longrightarrow> rx_wf s \<Longrightarrow> pieces_ok ps \<Longrightarrow> read_run cr ps es s = (out, es', s', True) \<Longrightarrow> rx_wf s'"
proof (induction ps arbitrary: es s out)
  case (Cons p ps)
  obtain cs room where p: "p = (cs, room)" by (cases p)
  have ok: "chunks_ok (es @ map Chunk cs)" "pieces_ok ps" using Cons.prems(1,3) by (simp_all add: p chunks_append pieces_ok_def)
  obtain r es1 s1 where r: "session_poll_read cr room (es @ map Chunk cs) s = (r, es1, s1)" by (cases "session_poll_read cr room (es @ map Chunk cs) s")
  note step = session_poll_read_ok [OF ok(1) Cons.prems(2), of cr room, unfolded r read_ok_def prod.case]
  have "\<exists>o2. read_run cr ps es1 s1 = (o2, es', s', True)" using Cons.prems(4) r by (cases r) (auto simp: p split: prod.splits)
  moreover have "chunks_ok es1 \<and> rx_wf s1" using step Cons.prems(4) r by (cases r) (auto simp: p chunks_ok_def)
  ultimately show ?case using Cons.IH ok(2) by blast
qed simp

lemma stream_new:
  "rx_wf (SessionStream_new f t)" "rx_content cr (SessionStream_new f t) bs = concat (decode_wire cr f bs)"
  "framer (SessionStream_new f t) = f" "tx_pending (tx_state (SessionStream_new f t)) = []"
  by (simp_all add: SessionStream_new_def rx_wf_def rx_content_def rx_unread_def rx_partial_def tx_pending_def LEN_PREFIX_SIZE_def)

text \<open>
  C17: How the carrier cuts the byte stream, when the pieces arrive and how large the caller's buffers are does
  not matter: what a reader obtains, followed by what it still holds, is what the reference obtains from the whole
  byte string by cutting it at the length prefixes.  A reader that waits for bytes has handed over all of it, and so
  has one that failed.
\<close>

theorem stream_read_fragmentation:
  assumes "pieces_ok ps" "read_run cr ps [] (SessionStream_new f t) = (out, es, s, ok)"
  shows "concat (decode_wire cr f (arrived ps)) = out @ (if ok then rx_content cr s (carrier_bytes es) else []) \<and>
    (ok \<and> es = [] \<and> rx_state s \<noteq> HavePlaintext \<longrightarrow> out = concat (decode_wire cr f (arrived ps)))"
proof -
  have c: "concat (decode_wire cr f (arrived ps)) = out @ (if ok then rx_content cr s (carrier_bytes es) else [])"
    using read_run_content [of "[]" "SessionStream_new f t" ps cr out es s ok "[]"] assms
    by (simp add: stream_new chunks_ok_def carrier_bytes_def)
  moreover have "rx_content cr s (carrier_bytes es) = []" if "ok" "es = []" "rx_state s \<noteq> HavePlaintext"
    using content_partial [OF read_run_wf [of "[]" "SessionStream_new f t" ps cr out es s]] assms that
    by (simp add: stream_new chunks_ok_def carrier_bytes_def)
  ultimately show ?thesis by auto
qed

lemma stream_conserves:
  assumes "frame_laws cr link" "session_pair cr link ki kr i r"
    and "write_run cr ops (SessionStream_new (dx_peer (duplex_new i r) side) t) = (em, taken, sa, True)"
    and "pieces_ok ps" "em = arrived ps @ later"
    and "read_run cr ps [] (SessionStream_new (dx_peer (duplex_new i r) (other side)) t') = (out, es, sb, ok)"
  shows "taken = out @ (if ok then rx_content cr sb (carrier_bytes es @ later @ tx_pending (tx_state sa)) else []) \<and>
    (later = [] \<and> tx_state sa = Idle \<and> es = [] \<and> rx_state sb \<noteq> HavePlaintext \<longrightarrow> out = taken)"
proof -
  let ?new = "duplex_new i r" and ?sb = "session_binding kr" and ?k = "keys_mlkem_ss kr"
  obtain d w where d: "writer_rel cr side ?new d w taken" "w = em @ tx_pending (tx_state sa)"
    using write_run_duplex [OF assms(3), of ?new side] by (auto simp: stream_new)
  then obtain evs where evs: "list_all (only side) evs" "duplex_run cr evs ?new = Some d" by (auto simp: writer_rel_def)
  have peer: "dx_peer d (other side) = dx_peer ?new (other side)" "dx_got d (other side) = []" "in_flight d side = w"
    "concat (dx_sent d side) = taken"
    using d(1) by (simp_all add: writer_rel_def duplex_new_def)
  have "follows cr link ?sb ?k side d" by (rule follows_run [OF assms(1) new_follows [OF assms(1,2)] evs])
  from decode_in_flight [OF assms(1) this refl] peer
  have "concat (decode_wire cr (dx_peer ?new (other side)) w) = taken" by simp
  then have eq: "taken = out @ (if ok then rx_content cr sb (carrier_bytes es @ later @ tx_pending (tx_state sa)) else [])"
    using read_run_content [of "[]" "SessionStream_new (dx_peer ?new (other side)) t'" ps cr out es sb ok "later @ tx_pending (tx_state sa)"]
      assms(4-6) d(2) by (simp add: stream_new chunks_ok_def carrier_bytes_def)
  moreover have "rx_content cr sb [] = []" if "ok" "rx_state sb \<noteq> HavePlaintext"
    using content_partial [OF read_run_wf [of "[]" "SessionStream_new (dx_peer ?new (other side)) t'" ps cr out es sb]] assms(4,6) that
    by (simp add: stream_new chunks_ok_def)
  ultimately show ?thesis by (auto simp: tx_pending_def carrier_bytes_def)
qed

text \<open>
  C2: A session stream is a byte stream.  In one direction, whatever the sizes of the writes, the bytes the carrier
  accepts at a time, the clock of the ratchet, the pieces in which the bytes arrive and the sizes of the reads: the
  plaintext taken from the writer is what the reader has obtained followed by what is still on its way.  Once
  everything is flushed and has arrived and the reader waits for bytes, it has read exactly what was written.
\<close>

theorem session_stream_delivers:
  assumes "frame_laws cr link" "session_pair cr link ki kr i r"
    and "write_run cr ops (SessionStream_new (dx_peer (duplex_new i r) side) t) = (em, taken, sa, True)"
    and "pieces_ok ps" "em = arrived ps @ later"
    and "read_run cr ps [] (SessionStream_new (dx_peer (duplex_new i r) (other side)) t') = (out, es, sb, ok)"
  shows "taken = out @ (if ok then rx_content cr sb (carrier_bytes es @ later @ tx_pending (tx_state sa)) else []) \<and>
    (later = [] \<and> tx_state sa = Idle \<and> es = [] \<and> rx_state sb \<noteq> HavePlaintext \<longrightarrow> out = taken)"
  by (rule stream_conserves [OF assms])

section \<open>Witnesses\<close>

lemma demo_write_stream:
  "\<exists>em sa. write_run demo_frames [PollWrite 0 [7, 8] [Accept 5]] (SessionStream_new (demo_framer Initiator) 0) = (em, [7, 8], sa, True)"
proof -
  have s: "small 0 (demo_framer Initiator)" using demo_new(1) [of Initiator] by (simp add: duplex_new_def)
  obtain w f where w: "frame_write demo_frames (ratchet_target 0 (SessionStream_new (demo_framer Initiator) 0)) [7, 8] (demo_framer Initiator) = (Ok w, f)"
    using demo_write [OF s, of "[7, 8]" "ratchet_target 0 (SessionStream_new (demo_framer Initiator) 0)"] by auto
  then have "w \<noteq> []" by (auto simp: frame_write_def dest: framer_send_nonempty split: option.splits prod.splits sum.splits)
  then show ?thesis
    using w by (simp add: do_write_def session_poll_write_def drain_tx_def SessionStream_new_def taken_by_def frame_lens Let_def min_def)
qed

theorem session_stream_delivers_witness:
  "\<exists>em sa out es sb ok. write_run demo_frames [PollWrite 0 [7, 8] [Accept 5]] (SessionStream_new (demo_framer Initiator) 0) = (em, [7, 8], sa, True) \<and>
     read_run demo_frames [(map (\<lambda>b. [b]) em, 10)] [] (SessionStream_new (demo_framer Responder) 3) = (out, es, sb, ok) \<and>
     [7, 8] = out @ (if ok then rx_content demo_frames sb (carrier_bytes es @ tx_pending (tx_state sa)) else [])"
proof -
  obtain em sa where w: "write_run demo_frames [PollWrite 0 [7, 8] [Accept 5]] (SessionStream_new (demo_framer Initiator) 0) = (em, [7, 8], sa, True)"
    using demo_write_stream by blast
  obtain out es sb ok where r: "read_run demo_frames [(map (\<lambda>b. [b]) em, 10)] [] (SessionStream_new (demo_framer Responder) 3) = (out, es, sb, ok)"
    by (metis surj_pair)
  have p: "pieces_ok [(map (\<lambda>b. [b]) em, 10)]" "em = arrived [(map (\<lambda>b. [b]) em, 10)] @ []"
    by (simp_all add: pieces_ok_def arrived_def list.pred_map comp_def list_all_iff)
  have n: "dx_peer (duplex_new (demo_framer Initiator) (demo_framer Responder)) Initiator = demo_framer Initiator"
    "dx_peer (duplex_new (demo_framer Initiator) (demo_framer Responder)) (other Initiator) = demo_framer Responder"
    by (simp_all add: duplex_new_def)
  from session_stream_delivers [OF demo_frame_laws(1) demo_pair _ p, of _ Initiator, unfolded n, OF w r] w r show ?thesis by fastforce
qed

theorem stream_read_fragmentation_witness:
  "\<exists>out es s ok. read_run demo_frames [([[0], [33, 1]], 10)] [] (SessionStream_new (demo_framer Responder) 3) = (out, es, s, ok) \<and>
     concat (decode_wire demo_frames (demo_framer Responder) [0, 33, 1]) = out @ (if ok then rx_content demo_frames s (carrier_bytes es) else [])"
proof -
  obtain out es s ok where r: "read_run demo_frames [([[0], [33, 1]], 10)] [] (SessionStream_new (demo_framer Responder) 3) = (out, es, s, ok)"
    by (metis surj_pair)
  have p: "pieces_ok [([[0], [33, 1]], 10)]" "arrived [([[0], [33, 1]], 10)] = [0, 33, 1]" by (simp_all add: pieces_ok_def arrived_def)
  from stream_read_fragmentation [OF p(1) r, unfolded p(2)] r show ?thesis by blast
qed

end
